(* ===== verification/Xv6_Prelude.thy ===== *)
theory Xv6_Prelude
  imports Main "HOL-Library.Word" "HOL-Library.Monad_Syntax"
begin

unbundle bit_operations_syntax

text \<open>
  The vocabulary the component theories share: the integer types of
  \<^verbatim>\<open>kernel/types.h\<close>, byte memory with little-endian loads and stores, the two loop
  shapes of the sources (a table scan that runs to the end and one that can leave
  early), and a locale that turns ``every step keeps the invariant'' into ``every
  reachable state satisfies it''.

  Fallible kernel code is written in the option monad over an explicit state.
  \<^term>\<open>None\<close> means that the call does not return: the C function \<open>panic\<close> never
  returns, and neither does a wait that nobody ends.
\<close>

named_theorems kernel_simps \<open>evaluation of kernel primitives in a well-formed state\<close>
named_theorems frame_simps \<open>what an operation leaves unchanged\<close>

section \<open>Integer types of kernel/types.h\<close>

type_synonym uint8 = "8 word"
type_synonym uint16 = "16 word"
type_synonym uint32 = "32 word"
type_synonym uint64 = "64 word"

lemma unat_bound64: "unat (a :: uint64) < 2 ^ 64"
  by (rule less_le_trans [OF unsigned_less]) simp

lemma unat_bound32: "unat (a :: uint32) < 2 ^ 32"
  by (rule less_le_trans [OF unsigned_less]) simp

section \<open>Byte memory\<close>

text \<open>
  Physical memory and disk blocks are both arrays of bytes. Multi-byte C scalars are
  read and written in little-endian order, as on RISC-V.
\<close>

type_synonym bytes = "nat \<Rightarrow> uint8"

primrec ldn :: "nat \<Rightarrow> bytes \<Rightarrow> nat \<Rightarrow> 'l::len word" where
  "ldn 0 m a = 0"
| "ldn (Suc n) m a = ucast (m a) OR push_bit 8 (ldn n m (Suc a))"

primrec stn :: "nat \<Rightarrow> bytes \<Rightarrow> nat \<Rightarrow> 'l::len word \<Rightarrow> bytes" where
  "stn 0 m a v = m"
| "stn (Suc n) m a v = stn n (m(a := ucast v)) (Suc a) (drop_bit 8 v)"

abbreviation ld16 :: "bytes \<Rightarrow> nat \<Rightarrow> uint16" where "ld16 \<equiv> ldn 2"
abbreviation ld32 :: "bytes \<Rightarrow> nat \<Rightarrow> uint32" where "ld32 \<equiv> ldn 4"
abbreviation ld64 :: "bytes \<Rightarrow> nat \<Rightarrow> uint64" where "ld64 \<equiv> ldn 8"
abbreviation st16 :: "bytes \<Rightarrow> nat \<Rightarrow> uint16 \<Rightarrow> bytes" where "st16 \<equiv> stn 2"
abbreviation st32 :: "bytes \<Rightarrow> nat \<Rightarrow> uint32 \<Rightarrow> bytes" where "st32 \<equiv> stn 4"
abbreviation st64 :: "bytes \<Rightarrow> nat \<Rightarrow> uint64 \<Rightarrow> bytes" where "st64 \<equiv> stn 8"

lemma bit_ldn:
  "bit (ldn n m a :: 'l::len word) i \<longleftrightarrow>
     i < LENGTH('l) \<and> i < 8 * n \<and> bit (m (a + i div 8)) (i mod 8)"
proof (induction n arbitrary: a i)
  case 0
  then show ?case by simp
next
  case (Suc n)
  show ?case
  proof (cases "i < 8")
    case True
    then show ?thesis
      by (auto simp: bit_or_iff bit_push_bit_iff bit_ucast_iff dest: bit_imp_le_length)
  next
    case False
    then have "i div 8 = Suc ((i - 8) div 8)" and "i mod 8 = (i - 8) mod 8"
      by (simp_all add: le_div_geq le_mod_geq)
    moreover have "\<not> bit (m a) i"
      using False by (auto dest: bit_imp_le_length)
    ultimately show ?thesis
      using False Suc.IH [of "Suc a" "i - 8"]
      by (auto simp: bit_or_iff bit_push_bit_iff bit_ucast_iff)
  qed
qed

lemma stn_apply:
  "stn n m a v b =
     (if a \<le> b \<and> b < a + n then ucast (drop_bit (8 * (b - a)) v) else m b)"
proof (induction n arbitrary: m a v)
  case 0
  then show ?case by auto
next
  case (Suc n)
  show ?case
  proof (cases "a < b")
    case True
    then have "8 + 8 * (b - Suc a) = 8 * (b - a)" by simp
    then have "drop_bit (8 * (b - Suc a)) (drop_bit 8 v) = drop_bit (8 * (b - a)) v"
      by (simp add: drop_bit_drop_bit add.commute)
    with True Suc show ?thesis by auto
  next
    case False
    with Suc show ?thesis by auto
  qed
qed

lemma ldn_cong:
  "(\<And>i. i < n \<Longrightarrow> m (a + i) = m' (a + i)) \<Longrightarrow> ldn n m a = (ldn n m' a :: 'l::len word)"
proof (induction n arbitrary: a)
  case 0
  then show ?case by simp
next
  case (Suc n)
  have "ldn n m (Suc a) = (ldn n m' (Suc a) :: 'l word)"
    by (rule Suc.IH) (use Suc.prems [of "Suc _"] in simp)
  moreover have "m a = m' a" using Suc.prems [of 0] by simp
  ultimately show ?case by simp
qed

lemma ldn_stn_same:
  assumes "LENGTH('l) \<le> 8 * n"
  shows "ldn n (stn n m a v) a = (v :: 'l::len word)"
proof (rule bit_word_eqI)
  fix i assume i: "i < LENGTH('l)"
  with assms have "i div 8 < n" by (simp add: div_less_iff_less_mult mult.commute)
  with i assms show "bit (ldn n (stn n m a v) a :: 'l word) i = bit v i"
    by (simp add: bit_ldn stn_apply bit_ucast_iff bit_drop_bit_eq)
qed

lemma ldn_stn_disjoint:
  assumes "b + k \<le> a \<or> a + n \<le> b"
  shows "ldn k (stn n m a v) b = ldn k m b"
  using assms by (intro ldn_cong) (auto simp: stn_apply)

lemma ldn_upd_disjoint:
  "a < b \<or> b + k \<le> a \<Longrightarrow> ldn k (m(a := x)) b = ldn k m b"
  by (intro ldn_cong) auto

section \<open>Loops over a table\<close>

text \<open>
  \<^verbatim>\<open>for(p = tab; p < &tab[N]; p++) body\<close>: the state is threaded through the body for
  each index; \<open>for_each\<close> runs to the end, \<open>scan\<close> stops when the body yields a result
  (a \<^verbatim>\<open>return\<close> or \<^verbatim>\<open>goto\<close> out of the loop).
\<close>

primrec for_each :: "('i \<Rightarrow> 's \<Rightarrow> 's option) \<Rightarrow> 'i list \<Rightarrow> 's \<Rightarrow> 's option" where
  "for_each f [] s = Some s"
| "for_each f (i # is) s = do { s \<leftarrow> f i s; for_each f is s }"

primrec scan ::
  "('i \<Rightarrow> 's \<Rightarrow> ('r option \<times> 's) option) \<Rightarrow> 'i list \<Rightarrow> 's \<Rightarrow> ('r option \<times> 's) option" where
  "scan f [] s = Some (None, s)"
| "scan f (i # is) s =
     do { (r, s) \<leftarrow> f i s;
          case r of None \<Rightarrow> scan f is s | Some r \<Rightarrow> Some (Some r, s) }"

lemma for_each_append:
  "for_each f (xs @ ys) s = do { s \<leftarrow> for_each f xs s; for_each f ys s }"
  by (induction xs arbitrary: s) (auto split: Option.bind_splits)

lemma for_each_inv:
  assumes "for_each f is s = Some s'" and "P s"
    and "\<And>i s s'. i \<in> set is \<Longrightarrow> P s \<Longrightarrow> f i s = Some s' \<Longrightarrow> P s'"
  shows "P s'"
  using assms
proof (induction "is" arbitrary: s)
  case Nil
  then show ?case by simp
next
  case (Cons i "is")
  from Cons.prems(1) obtain t where t: "f i s = Some t" "for_each f is t = Some s'"
    by (auto split: Option.bind_splits)
  have "P t" using Cons.prems(2) Cons.prems(3) [of i s t] t(1) by simp
  with t(2) show ?case using Cons.prems(3) by (intro Cons.IH) auto
qed

lemma for_each_total:
  assumes "P s"
    and "\<And>i s. i \<in> set is \<Longrightarrow> P s \<Longrightarrow> \<exists>s'. f i s = Some s' \<and> P s'"
  shows "\<exists>s'. for_each f is s = Some s' \<and> P s'"
  using assms
proof (induction "is" arbitrary: s)
  case Nil
  then show ?case by simp
next
  case (Cons i "is")
  obtain t where t: "f i s = Some t" "P t" using Cons.prems(1) Cons.prems(2) [of i s] by auto
  with Cons.IH [OF t(2)] Cons.prems(2) show ?case by auto
qed

text \<open>A loop whose bodies all succeed is a fold of the bodies' effects.\<close>

lemma for_each_fold:
  assumes "\<And>i s. i \<in> set is \<Longrightarrow> P s \<Longrightarrow> f i s = Some (g i s)"
    and "\<And>i s. i \<in> set is \<Longrightarrow> P s \<Longrightarrow> P (g i s)" and "P s"
  shows "for_each f is s = Some (fold g is s)"
  using assms by (induction "is" arbitrary: s) auto

text \<open>
  A scan whose body either finds its result or changes nothing: it returns the result
  of the first index that has one, or runs to the end.
\<close>

lemma scan_find:
  assumes "\<And>i. i \<in> set is \<Longrightarrow> f i s = Some (if hit i then (Some (res i), upd i) else (None, s))"
  shows "scan f is s =
    (case find hit is of None \<Rightarrow> Some (None, s) | Some i \<Rightarrow> Some (Some (res i), upd i))"
  using assms by (induction "is") auto

section \<open>Reasoning about fallible code\<close>

text \<open>
  \<open>post m P\<close>: if the code returns, its result satisfies \<open>P\<close>. \<open>runs m P\<close>: the code returns,
  with a result that satisfies \<open>P\<close>. The rules follow the structure of the code.
\<close>

definition post :: "'a option \<Rightarrow> ('a \<Rightarrow> bool) \<Rightarrow> bool" where
  "post m P \<longleftrightarrow> (\<forall>r. m = Some r \<longrightarrow> P r)"

definition runs :: "'a option \<Rightarrow> ('a \<Rightarrow> bool) \<Rightarrow> bool" where
  "runs m P \<longleftrightarrow> (\<exists>r. m = Some r \<and> P r)"

lemma postI: "(\<And>r. m = Some r \<Longrightarrow> P r) \<Longrightarrow> post m P"
  by (simp add: post_def)

lemma postD: "post m P \<Longrightarrow> m = Some r \<Longrightarrow> P r"
  by (simp add: post_def)

lemma post_pairI: "(\<And>r t. m = Some (r, t) \<Longrightarrow> P (r, t)) \<Longrightarrow> post m P"
  by (auto simp: post_def)

lemma post_bind: "post m (\<lambda>x. post (f x) P) \<Longrightarrow> post (Option.bind m f) P"
  by (auto simp: post_def split: Option.bind_splits)

lemma post_conseq: "post m Q \<Longrightarrow> (\<And>r. Q r \<Longrightarrow> P r) \<Longrightarrow> post m P"
  by (simp add: post_def)

lemma post_Some [simp]: "post (Some x) P \<longleftrightarrow> P x"
  by (simp add: post_def)

lemma post_None [simp]: "post None P"
  by (simp add: post_def)

lemma runsI: "m = Some r \<Longrightarrow> P r \<Longrightarrow> runs m P"
  by (auto simp: runs_def)

lemma runsE: "runs m P \<Longrightarrow> (\<And>r. m = Some r \<Longrightarrow> P r \<Longrightarrow> R) \<Longrightarrow> R"
  by (auto simp: runs_def)

lemma runs_bind: "runs m (\<lambda>x. runs (f x) P) \<Longrightarrow> runs (Option.bind m f) P"
  by (auto simp: runs_def)

lemma runs_conseq: "runs m Q \<Longrightarrow> (\<And>r. Q r \<Longrightarrow> P r) \<Longrightarrow> runs m P"
  by (auto simp: runs_def)

lemma runs_Some [simp]: "runs (Some x) P \<longleftrightarrow> P x"
  by (simp add: runs_def)

lemma runs_post: "runs m P \<Longrightarrow> post m P"
  by (auto simp: runs_def post_def)

lemma runs_for_each:
  assumes "P s" and "\<And>i s. i \<in> set is \<Longrightarrow> P s \<Longrightarrow> runs (f i s) P"
  shows "runs (for_each f is s) P"
  using for_each_total [where P = P and f = f, OF assms(1)] assms(2) by (simp add: runs_def)

section \<open>Invariants of step systems\<close>

locale step_system =
  fixes init :: "'s \<Rightarrow> bool" and step :: "'s \<Rightarrow> 's \<Rightarrow> bool" and inv :: "'s \<Rightarrow> bool"
  assumes inv_init: "init s \<Longrightarrow> inv s"
    and inv_step: "inv s \<Longrightarrow> step s t \<Longrightarrow> inv t"
begin

lemma inv_steps: "step\<^sup>*\<^sup>* s t \<Longrightarrow> inv s \<Longrightarrow> inv t"
  by (induction rule: rtranclp_induct) (auto intro: inv_step)

lemma inv_reachable: "init s \<Longrightarrow> step\<^sup>*\<^sup>* s t \<Longrightarrow> inv t"
  by (blast intro: inv_steps inv_init)

end

section \<open>Small facts on lists, maps and functions\<close>

lemma find_upt_Some:
  "find P [a..<b] = Some i \<longleftrightarrow> a \<le> i \<and> i < b \<and> P i \<and> (\<forall>j. a \<le> j \<and> j < i \<longrightarrow> \<not> P j)"
proof -
  have "find P [a..<b] = Some i \<longleftrightarrow>
     (\<exists>k < b - a. i = a + k \<and> P (a + k) \<and> (\<forall>l < k. \<not> P (a + l)))"
    by (auto simp: find_Some_iff)
  also have "\<dots> \<longleftrightarrow> a \<le> i \<and> i < b \<and> P i \<and> (\<forall>j. a \<le> j \<and> j < i \<longrightarrow> \<not> P j)"
  proof safe
    fix k j assume "k < b - a" "P (a + k)" "\<forall>l < k. \<not> P (a + l)" "a \<le> j" "j < a + k" "P j"
    then show False by (metis add_diff_inverse_nat linorder_not_less nat_add_left_cancel_less)
  next
    assume "a \<le> i" "i < b" "P i" "\<forall>j. a \<le> j \<and> j < i \<longrightarrow> \<not> P j"
    then show "\<exists>k < b - a. i = a + k \<and> P (a + k) \<and> (\<forall>l < k. \<not> P (a + l))"
      by (intro exI [of _ "i - a"]) auto
  qed auto
  finally show ?thesis .
qed

lemma find_upt_None: "find P [a..<b] = None \<longleftrightarrow> (\<forall>i. a \<le> i \<and> i < b \<longrightarrow> \<not> P i)"
  by (auto simp: find_None_iff)

lemma fold_fun_upd_apply:
  "distinct is \<Longrightarrow>
    fold (\<lambda>i f. f(i := g i (f i))) is f j = (if j \<in> set is then g j (f j) else f j)"
  by (induction "is" arbitrary: f) auto

end
