(* ===== verification/Hart.thy ===== *)
theory Hart
  imports Xv6_Prelude
begin

text \<open>
  What a piece of kernel code sees of the processor it runs on: the spin locks this hart
  holds, whether interrupts are on when it holds none, its hart number and the messages
  it has printed. Locks and sleep channels, which the sources identify by address, are
  identified here by the object that contains them.

  This is the contract of \<^verbatim>\<open>spinlock.c\<close> that all other kernel code is written
  against; theory \<open>Spinlock\<close> models \<^verbatim>\<open>spinlock.c\<close> itself on a machine with many harts
  and shows that it implements the contract.
\<close>

section \<open>Locks, channels and messages\<close>

datatype sleeplock_id = SL_buf nat | SL_inode nat

datatype lock_id =
    L_proc nat | L_wait | L_pid | L_ticks | L_kmem | L_bcache | L_log | L_itable | L_ftable
  | L_pipe uint64 | L_cons | L_tx | L_pr | L_vdisk | L_sleep sleeplock_id

datatype chan =
    C_ticks | C_proc nat | C_nread uint64 | C_nwrite uint64 | C_log | C_sleeplock sleeplock_id
  | C_cons | C_tx | C_diskfree | C_buf nat

datatype karg = KInt int | KU64 uint64 | KStr string

type_synonym kmsg = "string \<times> karg list"

record hart =
  held :: "lock_id list"
  intena :: bool
  hartid :: nat
  klog :: "kmsg list"

section \<open>Operations\<close>

definition holding :: "lock_id \<Rightarrow> 'z hart_scheme \<Rightarrow> bool" where
  "holding l s \<longleftrightarrow> l \<in> set (held s)"

definition noff :: "'z hart_scheme \<Rightarrow> nat" where
  "noff s = length (held s)"

definition intr_get :: "'z hart_scheme \<Rightarrow> bool" where
  "intr_get s \<longleftrightarrow> held s = [] \<and> intena s"

text \<open>Both are called only where no lock is held, so that \<open>intena\<close> is the processor's setting.\<close>

definition intr_on :: "'z hart_scheme \<Rightarrow> 'z hart_scheme" where
  "intr_on s = s\<lparr>intena := True\<rparr>"

definition intr_off :: "'z hart_scheme \<Rightarrow> 'z hart_scheme" where
  "intr_off s = s\<lparr>intena := False\<rparr>"

definition acquire :: "lock_id \<Rightarrow> 'z hart_scheme \<Rightarrow> 'z hart_scheme option" where
  "acquire l s = (if holding l s then None else Some (s\<lparr>held := l # held s\<rparr>))"

definition release :: "lock_id \<Rightarrow> 'z hart_scheme \<Rightarrow> 'z hart_scheme option" where
  "release l s = (if holding l s then Some (s\<lparr>held := remove1 l (held s)\<rparr>) else None)"

text \<open>Kernel \<open>printf\<close>: one message, under \<open>pr.lock\<close>.\<close>

definition kprintf :: "string \<Rightarrow> karg list \<Rightarrow> 'z hart_scheme \<Rightarrow> 'z hart_scheme option" where
  "kprintf fmt args s =
     do { s \<leftarrow> acquire L_pr s;
          let s = s\<lparr>klog := klog s @ [(fmt, args)]\<rparr>;
          release L_pr s }"

section \<open>Evaluation rules\<close>

lemma acquire_free [kernel_simps]:
  "l \<notin> set (held s) \<Longrightarrow> acquire l s = Some (s\<lparr>held := l # held s\<rparr>)"
  by (simp add: acquire_def holding_def)

lemma acquire_held [kernel_simps]: "l \<in> set (held s) \<Longrightarrow> acquire l s = None"
  by (simp add: acquire_def holding_def)

lemma release_head [kernel_simps]: "held s = l # ls \<Longrightarrow> release l s = Some (s\<lparr>held := ls\<rparr>)"
  by (simp add: release_def holding_def)

lemma release_held [kernel_simps]:
  "l \<in> set (held s) \<Longrightarrow> release l s = Some (s\<lparr>held := remove1 l (held s)\<rparr>)"
  by (simp add: release_def holding_def)

lemma release_not_held [kernel_simps]: "l \<notin> set (held s) \<Longrightarrow> release l s = None"
  by (simp add: release_def holding_def)

lemma held_self [simp]: "held s = h \<Longrightarrow> s\<lparr>held := h\<rparr> = s"
  by auto

lemma kprintf_eq [kernel_simps]:
  "L_pr \<notin> set (held s) \<Longrightarrow> kprintf fmt args s = Some (s\<lparr>klog := klog s @ [(fmt, args)]\<rparr>)"
  by (simp add: kprintf_def kernel_simps)

lemma acquire_Some_iff:
  "acquire l s = Some t \<longleftrightarrow> l \<notin> set (held s) \<and> t = s\<lparr>held := l # held s\<rparr>"
  by (auto simp: acquire_def holding_def)

lemma release_Some_iff:
  "release l s = Some t \<longleftrightarrow> l \<in> set (held s) \<and> t = s\<lparr>held := remove1 l (held s)\<rparr>"
  by (auto simp: release_def holding_def)

section \<open>The interface of a lock module\<close>

text \<open>
  \<open>acq\<close>/\<open>rel\<close> take and drop a lock, \<open>hold\<close> says which locks the caller holds, \<open>avail\<close>
  when an acquire is certain to return, and \<open>ok\<close> is the module's own invariant.
\<close>

locale lock_api =
  fixes acq rel :: "'l \<Rightarrow> 's \<Rightarrow> 's option"
    and hold avail :: "'l \<Rightarrow> 's \<Rightarrow> bool"
    and ok :: "'s \<Rightarrow> bool"
  assumes acq_avail: "ok s \<Longrightarrow> avail l s \<Longrightarrow> acq l s \<noteq> None"
    and acq_held: "ok s \<Longrightarrow> hold l s \<Longrightarrow> acq l s = None"
    and acq_hold: "ok s \<Longrightarrow> acq l s = Some t \<Longrightarrow> hold k t \<longleftrightarrow> k = l \<or> hold k s"
    and acq_ok: "ok s \<Longrightarrow> acq l s = Some t \<Longrightarrow> ok t"
    and acq_frame: "ok s \<Longrightarrow> acq l s = Some t \<Longrightarrow> k \<noteq> l \<Longrightarrow> avail k t \<longleftrightarrow> avail k s"
    and rel_hold: "ok s \<Longrightarrow> hold l s \<Longrightarrow> rel l s \<noteq> None"
    and rel_not_held: "ok s \<Longrightarrow> \<not> hold l s \<Longrightarrow> rel l s = None"
    and rel_drop: "ok s \<Longrightarrow> rel l s = Some t \<Longrightarrow> hold k t \<longleftrightarrow> k \<noteq> l \<and> hold k s"
    and rel_ok: "ok s \<Longrightarrow> rel l s = Some t \<Longrightarrow> ok t"
begin

lemma acquire_all:
  assumes "ok s" "distinct ls" "\<And>l. l \<in> set ls \<Longrightarrow> avail l s"
  shows "\<exists>t. for_each acq ls s = Some t \<and> ok t \<and> (\<forall>k. hold k t \<longleftrightarrow> k \<in> set ls \<or> hold k s)"
  using assms
proof (induction ls arbitrary: s)
  case Nil
  then show ?case by simp
next
  case (Cons l ls)
  then obtain u where u: "acq l s = Some u" using acq_avail by fastforce
  have "\<forall>k \<in> set ls. avail k u" 
    using Cons.prems(2,3) acq_frame [OF Cons.prems(1) u]
    by (metis distinct.simps(2) list.set_intros(2))
  with Cons.IH [of u] Cons.prems acq_ok [OF _ u]
  obtain t where "for_each acq ls u = Some t" "ok t" "\<forall>k. hold k t \<longleftrightarrow> k \<in> set ls \<or> hold k u"
    by auto
  with u acq_hold [OF Cons.prems(1) u] show ?case by auto
qed

lemma release_all:
  assumes "ok s" "distinct ls" "\<And>l. l \<in> set ls \<Longrightarrow> hold l s"
  shows "\<exists>t. for_each rel ls s = Some t \<and> ok t \<and> (\<forall>k. hold k t \<longleftrightarrow> k \<notin> set ls \<and> hold k s)"
  using assms
proof (induction ls arbitrary: s)
  case Nil
  then show ?case by simp
next
  case (Cons l ls)
  then obtain u where u: "rel l s = Some u" using rel_hold by fastforce
  with Cons.IH [of u] Cons.prems rel_ok [OF _ u] rel_drop [OF _ u]
  obtain t where "for_each rel ls u = Some t" "ok t" "\<forall>k. hold k t \<longleftrightarrow> k \<notin> set ls \<and> hold k u"
    by auto
  with u rel_drop [OF Cons.prems(1) u] show ?case by auto
qed

text \<open>Locks taken in one order and dropped in any other leave the caller where it was.\<close>

lemma acquire_release_all:
  assumes "ok s" "distinct ls" "set ks = set ls" "distinct ks"
    and "\<And>l. l \<in> set ls \<Longrightarrow> avail l s" "\<And>l. l \<in> set ls \<Longrightarrow> \<not> hold l s"
  shows "\<exists>t. for_each acq ls s \<bind> for_each rel ks = Some t \<and> ok t \<and> (\<forall>k. hold k t \<longleftrightarrow> hold k s)"
proof -
  obtain u where u: "for_each acq ls s = Some u" "ok u"
    "\<And>k. hold k u \<longleftrightarrow> k \<in> set ls \<or> hold k s"
    using acquire_all [OF assms(1,2,5)] by auto
  obtain t where "for_each rel ks u = Some t" "ok t"
    "\<And>k. hold k t \<longleftrightarrow> k \<notin> set ks \<and> hold k u"
    using release_all [OF u(2) assms(4)] u(3) assms(3) by auto
  with u assms(3,6) show ?thesis by auto
qed

end

interpretation hart_locks: lock_api acquire release holding
    "\<lambda>l s. \<not> holding l s" "\<lambda>s. distinct (held s)"
  by unfold_locales
    (auto simp: acquire_def release_def holding_def set_remove1_eq split: if_splits)

end
