(* ===== verification/Spinlock.thy ===== *)
theory Spinlock
  imports Hart
begin

text \<open>
  \<^verbatim>\<open>kernel/spinlock.c\<close> on a machine with any number of harts. The state holds every
  spin lock, every hart's \<open>struct cpu\<close> counters and \<open>sstatus\<close> register. The sequential
  functions translate the C functions (run by hart \<open>h\<close>, the value of \<open>r_tp()\<close>); the
  step relation \<open>spin_step\<close> interleaves the harts at the granularity of the atomic
  memory operations, and its invariant gives mutual exclusion, the disabling of
  interrupts while a lock is held, and the correctness of \<open>holding\<close>.
\<close>

section \<open>State\<close>

record spinlock =
  lk_locked :: uint32
  lk_name :: string
  lk_cpu :: "nat option"

record cpu =
  c_noff :: int
  c_intena :: bool

record smp =
  locks :: "lock_id \<Rightarrow> spinlock"
  cpus :: "nat \<Rightarrow> cpu"
  sstatus :: "nat \<Rightarrow> uint64"

section \<open>Interrupt enable bit (riscv.h)\<close>

definition SSTATUS_SIE :: uint64 where "SSTATUS_SIE = push_bit 1 1"

definition sie_on :: "nat \<Rightarrow> smp \<Rightarrow> smp" where
  "sie_on h s = s\<lparr>sstatus := (sstatus s)(h := sstatus s h OR SSTATUS_SIE)\<rparr>"

definition sie_off :: "nat \<Rightarrow> smp \<Rightarrow> smp" where
  "sie_off h s = s\<lparr>sstatus := (sstatus s)(h := sstatus s h AND NOT SSTATUS_SIE)\<rparr>"

definition sie_get :: "nat \<Rightarrow> smp \<Rightarrow> bool" where
  "sie_get h s \<longleftrightarrow> sstatus s h AND SSTATUS_SIE \<noteq> 0"

lemma bit_SSTATUS_SIE: "bit SSTATUS_SIE n \<longleftrightarrow> n = 1"
  unfolding SSTATUS_SIE_def bit_push_bit_iff bit_1_iff by auto

lemma sie_get_bit: "sie_get h s \<longleftrightarrow> bit (sstatus s h) 1"
proof -
  have "sstatus s h AND SSTATUS_SIE \<noteq> 0 \<longleftrightarrow> (\<exists>n. bit (sstatus s h AND SSTATUS_SIE) n)"
    by (metis bit_eqI bit_0_eq bot_apply bot_bool_def)
  also have "\<dots> \<longleftrightarrow> bit (sstatus s h) 1"
    by (auto simp: bit_SSTATUS_SIE bit_and_iff)
  finally show ?thesis by (simp add: sie_get_def)
qed

lemma sie_get_on [simp]: "sie_get k (sie_on h s) \<longleftrightarrow> k = h \<or> sie_get k s"
  by (simp add: sie_get_bit sie_on_def bit_SSTATUS_SIE bit_or_iff)

lemma sie_get_off [simp]: "sie_get k (sie_off h s) \<longleftrightarrow> k \<noteq> h \<and> sie_get k s"
  by (simp add: sie_get_bit sie_off_def bit_SSTATUS_SIE bit_and_iff bit_not_iff)

lemma sie_fields [simp]:
  "locks (sie_on h s) = locks s" "cpus (sie_on h s) = cpus s"
  "locks (sie_off h s) = locks s" "cpus (sie_off h s) = cpus s"
  by (simp_all add: sie_on_def sie_off_def)

lemma sie_get_upd [simp]:
  "sie_get h (s\<lparr>locks := x\<rparr>) = sie_get h s" "sie_get h (s\<lparr>cpus := y\<rparr>) = sie_get h s"
  by (simp_all add: sie_get_def)

section \<open>The functions of spinlock.c\<close>

definition initlock :: "lock_id \<Rightarrow> string \<Rightarrow> smp \<Rightarrow> smp" where
  "initlock l nm s =
     s\<lparr>locks := (locks s)(l := \<lparr>lk_locked = 0, lk_name = nm, lk_cpu = None\<rparr>)\<rparr>"

definition spin_holding :: "nat \<Rightarrow> lock_id \<Rightarrow> smp \<Rightarrow> bool" where
  "spin_holding h l s \<longleftrightarrow> lk_locked (locks s l) \<noteq> 0 \<and> lk_cpu (locks s l) = Some h"

definition push_off :: "nat \<Rightarrow> smp \<Rightarrow> smp" where
  "push_off h s =
     (let old = sie_get h s;
          s = sie_off h s;
          c = cpus s h;
          c = (if c_noff c = 0 then c\<lparr>c_intena := old\<rparr> else c);
          c = c\<lparr>c_noff := c_noff c + 1\<rparr>
      in s\<lparr>cpus := (cpus s)(h := c)\<rparr>)"

definition pop_off :: "nat \<Rightarrow> smp \<Rightarrow> smp option" where
  "pop_off h s =
     (if sie_get h s then None \<comment> \<open>panic: pop_off - interruptible\<close>
      else if c_noff (cpus s h) < 1 then None \<comment> \<open>panic: pop_off\<close>
      else
        let c = cpus s h;
            c = c\<lparr>c_noff := c_noff c - 1\<rparr>;
            s = s\<lparr>cpus := (cpus s)(h := c)\<rparr>
        in Some (if c_noff c = 0 \<and> c_intena c then sie_on h s else s))"

text \<open>The atomic swap: store 1, return the old value.\<close>

definition test_and_set :: "lock_id \<Rightarrow> smp \<Rightarrow> uint32 \<times> smp" where
  "test_and_set l s =
     (lk_locked (locks s l), s\<lparr>locks := (locks s)(l := (locks s l)\<lparr>lk_locked := 1\<rparr>)\<rparr>)"

definition set_lk_cpu :: "lock_id \<Rightarrow> nat option \<Rightarrow> smp \<Rightarrow> smp" where
  "set_lk_cpu l c s = s\<lparr>locks := (locks s)(l := (locks s l)\<lparr>lk_cpu := c\<rparr>)\<rparr>"

definition lock_release :: "lock_id \<Rightarrow> smp \<Rightarrow> smp" where
  "lock_release l s = s\<lparr>locks := (locks s)(l := (locks s l)\<lparr>lk_locked := 0\<rparr>)\<rparr>"

text \<open>
  \<open>spin_acquire\<close> run with no other hart moving: if the lock is taken the loop spins for
  ever (\<^term>\<open>None\<close>), else the first swap wins.
\<close>

definition spin_acquire :: "nat \<Rightarrow> lock_id \<Rightarrow> smp \<Rightarrow> smp option" where
  "spin_acquire h l s =
     (let s = push_off h s
      in if spin_holding h l s then None \<comment> \<open>panic: acquire\<close>
         else let (old, s) = test_and_set l s
              in if old \<noteq> 0 then None \<comment> \<open>spin\<close>
                 else Some (set_lk_cpu l (Some h) s))"

definition spin_release :: "nat \<Rightarrow> lock_id \<Rightarrow> smp \<Rightarrow> smp option" where
  "spin_release h l s =
     (if \<not> spin_holding h l s then None \<comment> \<open>panic: release\<close>
      else pop_off h (lock_release l (set_lk_cpu l None s)))"

section \<open>push_off and pop_off nest\<close>

text \<open>
  \<open>cpu_ok h\<close>: the nesting depth is not negative, and interrupts are off while it is
  positive.
\<close>

definition cpu_ok :: "nat \<Rightarrow> smp \<Rightarrow> bool" where
  "cpu_ok h s \<longleftrightarrow> 0 \<le> c_noff (cpus s h) \<and> (0 < c_noff (cpus s h) \<longrightarrow> \<not> sie_get h s)"

lemma push_off_fields [simp]:
  "locks (push_off h s) = locks s"
  "k \<noteq> h \<Longrightarrow> cpus (push_off h s) k = cpus s k"
  "c_noff (cpus (push_off h s) k) = (if k = h then c_noff (cpus s h) + 1 else c_noff (cpus s k))"
  "c_intena (cpus (push_off h s) h) =
     (if c_noff (cpus s h) = 0 then sie_get h s else c_intena (cpus s h))"
  "sie_get k (push_off h s) \<longleftrightarrow> k \<noteq> h \<and> sie_get k s"
  by (simp_all add: push_off_def Let_def)

lemma test_and_set_fields:
  "test_and_set l s = (old, t) \<Longrightarrow>
     old = lk_locked (locks s l) \<and> cpus t = cpus s \<and> (\<forall>k. sie_get k t = sie_get k s) \<and>
     (\<forall>m. lk_locked (locks t m) = (if m = l then 1 else lk_locked (locks s m))) \<and>
     (\<forall>m. lk_cpu (locks t m) = lk_cpu (locks s m))"
  by (auto simp: test_and_set_def)

lemma set_lk_cpu_fields [simp]:
  "cpus (set_lk_cpu l c s) = cpus s" "sie_get k (set_lk_cpu l c s) = sie_get k s"
  "lk_locked (locks (set_lk_cpu l c s) m) = lk_locked (locks s m)"
  "lk_cpu (locks (set_lk_cpu l c s) m) = (if m = l then c else lk_cpu (locks s m))"
  by (simp_all add: set_lk_cpu_def)

lemma lock_release_fields [simp]:
  "cpus (lock_release l s) = cpus s" "sie_get k (lock_release l s) = sie_get k s"
  "lk_locked (locks (lock_release l s) m) = (if m = l then 0 else lk_locked (locks s m))"
  "lk_cpu (locks (lock_release l s) m) = lk_cpu (locks s m)"
  by (simp_all add: lock_release_def)

lemma pop_off_Some:
  "pop_off h s = Some t \<Longrightarrow>
     locks t = locks s \<and> (\<forall>k. k \<noteq> h \<longrightarrow> cpus t k = cpus s k) \<and>
     c_noff (cpus t h) = c_noff (cpus s h) - 1 \<and> c_intena (cpus t h) = c_intena (cpus s h) \<and>
     (\<forall>k. sie_get k t \<longleftrightarrow>
        (k = h \<and> c_noff (cpus s h) = 1 \<and> c_intena (cpus s h)) \<or> sie_get k s)"
  by (auto simp: pop_off_def Let_def split: if_splits)

lemma pop_off_total: "cpu_ok h s \<Longrightarrow> 0 < c_noff (cpus s h) \<Longrightarrow> \<exists>t. pop_off h s = Some t"
  by (auto simp: pop_off_def cpu_ok_def Let_def)

fun push_offs :: "nat \<Rightarrow> nat \<Rightarrow> smp \<Rightarrow> smp" where
  "push_offs h 0 s = s"
| "push_offs h (Suc n) s = push_offs h n (push_off h s)"

fun pop_offs :: "nat \<Rightarrow> nat \<Rightarrow> smp \<Rightarrow> smp option" where
  "pop_offs h 0 s = Some s"
| "pop_offs h (Suc n) s = do { s \<leftarrow> pop_off h s; pop_offs h n s }"

lemma push_offs_fields:
  "locks (push_offs h n s) = locks s \<and> (\<forall>k. k \<noteq> h \<longrightarrow> cpus (push_offs h n s) k = cpus s k) \<and>
   c_noff (cpus (push_offs h n s) h) = c_noff (cpus s h) + int n \<and>
   (0 \<le> c_noff (cpus s h) \<longrightarrow> c_intena (cpus (push_offs h n s) h) =
      (if c_noff (cpus s h) = 0 \<and> 0 < n then sie_get h s else c_intena (cpus s h))) \<and>
   (\<forall>k. sie_get k (push_offs h n s) \<longleftrightarrow> (k = h \<longrightarrow> n = 0) \<and> sie_get k s)"
  by (induction n arbitrary: s) auto

lemma pop_offs_fields:
  assumes "cpu_ok h s" and "int n \<le> c_noff (cpus s h)"
  shows "\<exists>t. pop_offs h n s = Some t \<and> locks t = locks s \<and>
    c_noff (cpus t h) = c_noff (cpus s h) - int n \<and>
    (\<forall>k. sie_get k t \<longleftrightarrow>
       (k = h \<and> 0 < n \<and> c_noff (cpus s h) = int n \<and> c_intena (cpus s h)) \<or> sie_get k s)"
  using assms
proof (induction n arbitrary: s)
  case 0
  then show ?case by simp
next
  case (Suc n)
  then obtain u where u: "pop_off h s = Some u" using pop_off_total [of h s] by auto
  note pu = pop_off_Some [OF u]
  have "cpu_ok h u" using Suc.prems pu by (auto simp: cpu_ok_def)
  moreover have "int n \<le> c_noff (cpus u h)" using Suc.prems pu by simp
  ultimately obtain t where "pop_offs h n u = Some t" "locks t = locks u"
    "c_noff (cpus t h) = c_noff (cpus u h) - int n"
    "\<forall>k. sie_get k t \<longleftrightarrow>
       (k = h \<and> 0 < n \<and> c_noff (cpus u h) = int n \<and> c_intena (cpus u h)) \<or> sie_get k u"
    using Suc.IH by blast
  with u pu Suc.prems show ?case by (cases "n = 0") (auto simp: cpu_ok_def)
qed

section \<open>Interleaved execution\<close>

text \<open>
  Each hart is either between lock operations, spinning in \<open>acquire\<close>, just past the
  winning swap, or in \<open>release\<close> after clearing \<open>lk->cpu\<close>. \<open>own\<close> lists the locks whose
  \<open>acquire\<close> has returned and whose \<open>release\<close> has not begun.
\<close>

datatype spin_pc = Idle | Spin lock_id | Got lock_id | Rel lock_id

record spin_sys =
  sys :: smp
  pc :: "nat \<Rightarrow> spin_pc"
  own :: "nat \<Rightarrow> lock_id list"

inductive spin_step :: "spin_sys \<Rightarrow> spin_sys \<Rightarrow> bool" where
  acq_begin: "pc S h = Idle \<Longrightarrow> \<not> spin_holding h l (push_off h (sys S)) \<Longrightarrow>
    spin_step S (S\<lparr>sys := push_off h (sys S), pc := (pc S)(h := Spin l)\<rparr>)"
| acq_fail: "pc S h = Spin l \<Longrightarrow> test_and_set l (sys S) = (old, s') \<Longrightarrow> old \<noteq> 0 \<Longrightarrow>
    spin_step S (S\<lparr>sys := s'\<rparr>)"
| acq_win: "pc S h = Spin l \<Longrightarrow> test_and_set l (sys S) = (0, s') \<Longrightarrow>
    spin_step S (S\<lparr>sys := s', pc := (pc S)(h := Got l)\<rparr>)"
| acq_end: "pc S h = Got l \<Longrightarrow>
    spin_step S (S\<lparr>sys := set_lk_cpu l (Some h) (sys S), pc := (pc S)(h := Idle),
                   own := (own S)(h := l # own S h)\<rparr>)"
| rel_begin: "pc S h = Idle \<Longrightarrow> spin_holding h l (sys S) \<Longrightarrow>
    spin_step S (S\<lparr>sys := set_lk_cpu l None (sys S), pc := (pc S)(h := Rel l),
                   own := (own S)(h := remove1 l (own S h))\<rparr>)"
| rel_end: "pc S h = Rel l \<Longrightarrow> pop_off h (lock_release l (sys S)) = Some s' \<Longrightarrow>
    spin_step S (S\<lparr>sys := s', pc := (pc S)(h := Idle)\<rparr>)"
| intr_on: "pc S h = Idle \<Longrightarrow> c_noff (cpus (sys S) h) = 0 \<Longrightarrow>
    spin_step S (S\<lparr>sys := sie_on h (sys S)\<rparr>)"
| intr_off: "pc S h = Idle \<Longrightarrow> spin_step S (S\<lparr>sys := sie_off h (sys S)\<rparr>)"

text \<open>The machine after boot: every lock initialised, no hart in a critical section.\<close>

definition spin_init :: "spin_sys \<Rightarrow> bool" where
  "spin_init S \<longleftrightarrow>
     (\<forall>l. lk_locked (locks (sys S) l) = 0 \<and> lk_cpu (locks (sys S) l) = None) \<and>
     (\<forall>h. c_noff (cpus (sys S) h) = 0 \<and> pc S h = Idle \<and> own S h = [])"

text \<open>The lock is in hart \<open>h\<close>'s hands: from the winning swap to the releasing store.\<close>

definition possesses :: "spin_sys \<Rightarrow> nat \<Rightarrow> lock_id \<Rightarrow> bool" where
  "possesses S h l \<longleftrightarrow> l \<in> set (own S h) \<or> pc S h = Got l \<or> pc S h = Rel l"

definition pending :: "spin_pc \<Rightarrow> int" where
  "pending p = (case p of Idle \<Rightarrow> 0 | _ \<Rightarrow> 1)"

definition spin_inv :: "spin_sys \<Rightarrow> bool" where
  "spin_inv S \<longleftrightarrow>
     (\<forall>l h k. possesses S h l \<longrightarrow> possesses S k l \<longrightarrow> h = k) \<and>
     (\<forall>l. lk_locked (locks (sys S) l) \<noteq> 0 \<longleftrightarrow> (\<exists>h. possesses S h l)) \<and>
     (\<forall>l h. lk_cpu (locks (sys S) l) = Some h \<longleftrightarrow> l \<in> set (own S h)) \<and>
     (\<forall>h. distinct (own S h)) \<and>
     (\<forall>h l. pc S h = Got l \<or> pc S h = Rel l \<longrightarrow> l \<notin> set (own S h)) \<and>
     (\<forall>h. c_noff (cpus (sys S) h) = int (length (own S h)) + pending (pc S h)) \<and>
     (\<forall>h. cpu_ok h (sys S))"

lemma possesses_locked:
  "spin_inv S \<Longrightarrow> possesses S h l \<Longrightarrow> lk_locked (locks (sys S) l) \<noteq> 0"
  unfolding spin_inv_def by blast

lemma spin_inv_exclusive:
  "spin_inv S \<Longrightarrow> possesses S h l \<Longrightarrow> possesses S k l \<Longrightarrow> h = k"
  unfolding spin_inv_def by blast

lemma spin_inv_noff:
  "spin_inv S \<Longrightarrow> c_noff (cpus (sys S) h) = int (length (own S h)) + pending (pc S h)"
  unfolding spin_inv_def by blast

lemma spin_inv_init: "spin_init S \<Longrightarrow> spin_inv S"
  by (simp add: spin_init_def spin_inv_def possesses_def pending_def cpu_ok_def)

text \<open>How each step changes who possesses what.\<close>

lemma possesses_upd:
  "possesses (S\<lparr>sys := x\<rparr>) k m = possesses S k m"
  "pc S h = Idle \<Longrightarrow> possesses (S\<lparr>sys := x, pc := (pc S)(h := Spin l)\<rparr>) k m = possesses S k m"
  "pc S h = Spin l' \<Longrightarrow> possesses (S\<lparr>sys := x, pc := (pc S)(h := Got l)\<rparr>) k m =
     (k = h \<and> m = l \<or> possesses S k m)"
  "pc S h = Got l \<Longrightarrow> possesses (S\<lparr>sys := x, pc := (pc S)(h := Idle),
     own := (own S)(h := l # own S h)\<rparr>) k m = possesses S k m"
  "pc S h = Idle \<Longrightarrow> distinct (own S h) \<Longrightarrow> l \<in> set (own S h) \<Longrightarrow>
     possesses (S\<lparr>sys := x, pc := (pc S)(h := Rel l),
       own := (own S)(h := remove1 l (own S h))\<rparr>) k m = possesses S k m"
  "pc S h = Rel l \<Longrightarrow> l \<notin> set (own S h) \<Longrightarrow>
     possesses (S\<lparr>sys := x, pc := (pc S)(h := Idle)\<rparr>) k m =
       (possesses S k m \<and> \<not> (k = h \<and> m = l))"
  by (auto simp: possesses_def)

lemma spin_inv_acq_begin:
  assumes "spin_inv S" "pc S h = Idle"
  shows "spin_inv (S\<lparr>sys := push_off h (sys S), pc := (pc S)(h := Spin l)\<rparr>)"
  using assms unfolding spin_inv_def possesses_upd(2) [OF assms(2)]
  by (auto simp: pending_def cpu_ok_def)

lemma spin_inv_acq_win:
  assumes "spin_inv S" "pc S h = Spin l" "test_and_set l (sys S) = (0, s')"
  shows "spin_inv (S\<lparr>sys := s', pc := (pc S)(h := Got l)\<rparr>)"
proof -
  note ts = test_and_set_fields [OF assms(3)]
  have free: "\<not> possesses S k l" for k
    using assms ts possesses_locked [of S k l] by auto
  then have "l \<notin> set (own S k)" for k by (auto simp: possesses_def)
  then show ?thesis
    using assms ts free unfolding spin_inv_def possesses_upd(3) [OF assms(2)]
    by (auto simp: pending_def cpu_ok_def)
qed

lemma spin_inv_acq_end:
  assumes "spin_inv S" "pc S h = Got l"
  shows "spin_inv (S\<lparr>sys := set_lk_cpu l (Some h) (sys S), pc := (pc S)(h := Idle),
           own := (own S)(h := l # own S h)\<rparr>)"
proof -
  have mine: "l \<notin> set (own S k)" for k
    using assms unfolding spin_inv_def possesses_def by blast
  show ?thesis
    using assms mine unfolding spin_inv_def possesses_upd(4) [OF assms(2)]
    by (auto simp: pending_def cpu_ok_def)
qed

lemma spin_inv_rel_begin:
  assumes "spin_inv S" "pc S h = Idle" "spin_holding h l (sys S)"
  shows "spin_inv (S\<lparr>sys := set_lk_cpu l None (sys S), pc := (pc S)(h := Rel l),
           own := (own S)(h := remove1 l (own S h))\<rparr>)"
proof -
  have l: "l \<in> set (own S h)" and d: "distinct (own S h)"
    using assms unfolding spin_inv_def spin_holding_def by blast+
  have mine: "l \<in> set (own S k) \<Longrightarrow> k = h" for k
    using assms l unfolding spin_inv_def possesses_def by blast
  have len: "int (length (remove1 l (own S h))) = int (length (own S h)) - 1"
    by (metis One_nat_def Suc_leI l length_pos_if_in_set length_remove1 of_nat_1 of_nat_diff)
  show ?thesis
    using assms mine d len unfolding spin_inv_def possesses_upd(5) [OF assms(2) d l]
    by (auto simp: pending_def cpu_ok_def)
qed

lemma spin_inv_rel_end:
  assumes "spin_inv S" "pc S h = Rel l" "pop_off h (lock_release l (sys S)) = Some s'"
  shows "spin_inv (S\<lparr>sys := s', pc := (pc S)(h := Idle)\<rparr>)"
proof -
  have n: "l \<notin> set (own S h)" using assms unfolding spin_inv_def by blast
  have only: "possesses S k l \<longleftrightarrow> k = h" for k
    using assms unfolding spin_inv_def possesses_def by blast
  note po = pop_off_Some [OF assms(3)]
  have len: "c_noff (cpus (sys S) h) = int (length (own S h)) + 1"
    using assms unfolding spin_inv_def pending_def by simp
  have rest: "c_noff (cpus s' k) = int (length (own S k)) + pending (((pc S)(h := Idle)) k) \<and>
      cpu_ok k s'" for k
    using assms len po unfolding spin_inv_def
    by (cases "k = h") (auto simp: pending_def cpu_ok_def)
  show ?thesis
    using assms only n rest unfolding spin_inv_def possesses_upd(6) [OF assms(2) n]
    by (auto simp: po)
qed

lemma spin_inv_step: "spin_step S T \<Longrightarrow> spin_inv S \<Longrightarrow> spin_inv T"
proof (induction rule: spin_step.induct)
  case (acq_begin S h l)
  then show ?case by (simp add: spin_inv_acq_begin)
next
  case (acq_fail S h l old s')
  then show ?case
    using test_and_set_fields [OF acq_fail(2)]
    by (auto simp: spin_inv_def possesses_upd cpu_ok_def)
next
  case (acq_win S h l s')
  then show ?case by (simp add: spin_inv_acq_win)
next
  case (acq_end S h l)
  then show ?case by (simp add: spin_inv_acq_end)
next
  case (rel_begin S h l)
  then show ?case by (simp add: spin_inv_rel_begin)
next
  case (rel_end S h l s')
  then show ?case by (simp add: spin_inv_rel_end)
next
  case (intr_on S h)
  then show ?case by (auto simp: spin_inv_def possesses_upd cpu_ok_def)
next
  case (intr_off S h)
  then show ?case by (auto simp: spin_inv_def possesses_upd cpu_ok_def)
qed

interpretation spin: step_system spin_init spin_step spin_inv
  by unfold_locales (auto intro: spin_inv_init spin_inv_step)

section \<open>The functions are runs of the step relation\<close>

lemma spin_acquire_Some:
  assumes "spin_acquire h l s = Some t"
  shows "\<not> spin_holding h l (push_off h s)"
    and "\<exists>u. test_and_set l (push_off h s) = (0, u) \<and> t = set_lk_cpu l (Some h) u"
  using assms by (auto simp: spin_acquire_def Let_def split: prod.splits if_splits)

lemma spin_release_Some:
  assumes "spin_release h l s = Some t"
  shows "spin_holding h l s" and "pop_off h (lock_release l (set_lk_cpu l None s)) = Some t"
  using assms by (auto simp: spin_release_def split: if_splits)

lemma spin_acquire_steps:
  assumes "pc S h = Idle" and "spin_acquire h l (sys S) = Some t"
  shows "spin_step\<^sup>*\<^sup>* S (S\<lparr>sys := t, own := (own S)(h := l # own S h)\<rparr>)"
proof -
  obtain u where u: "test_and_set l (push_off h (sys S)) = (0, u)" "t = set_lk_cpu l (Some h) u"
    using spin_acquire_Some(2) [OF assms(2)] by auto
  let ?A = "S\<lparr>sys := push_off h (sys S), pc := (pc S)(h := Spin l)\<rparr>"
  let ?B = "?A\<lparr>sys := u, pc := (pc ?A)(h := Got l)\<rparr>"
  have "spin_step S ?A" using acq_begin [OF assms(1) spin_acquire_Some(1) [OF assms(2)]] .
  moreover have "spin_step ?A ?B" using u(1) by (intro acq_win) simp_all
  moreover have "spin_step ?B (?B\<lparr>sys := set_lk_cpu l (Some h) (sys ?B),
      pc := (pc ?B)(h := Idle), own := (own ?B)(h := l # own ?B h)\<rparr>)"
    by (intro acq_end) simp
  moreover have "(pc S)(h := Idle) = pc S" using assms(1) by auto
  ultimately show ?thesis using u(2) by (simp add: converse_rtranclp_into_rtranclp)
qed

lemma spin_release_steps:
  assumes "pc S h = Idle" and "spin_release h l (sys S) = Some t"
  shows "spin_step\<^sup>*\<^sup>* S (S\<lparr>own := (own S)(h := remove1 l (own S h)), sys := t\<rparr>)"
proof -
  let ?A = "S\<lparr>sys := set_lk_cpu l None (sys S), pc := (pc S)(h := Rel l),
      own := (own S)(h := remove1 l (own S h))\<rparr>"
  have "spin_step S ?A" using rel_begin [OF assms(1) spin_release_Some(1) [OF assms(2)]] .
  moreover have "spin_step ?A (?A\<lparr>sys := t, pc := (pc ?A)(h := Idle)\<rparr>)"
    using spin_release_Some(2) [OF assms(2)] by (intro rel_end) simp_all
  moreover have "(pc S)(h := Idle) = pc S" using assms(1) by auto
  ultimately show ?thesis by (simp add: converse_rtranclp_into_rtranclp)
qed

section \<open>Refinement of the hart interface\<close>

text \<open>What hart \<open>h\<close> of the machine looks like through the interface of theory \<open>Hart\<close>.\<close>

definition hart_view :: "nat \<Rightarrow> spin_sys \<Rightarrow> hart" where
  "hart_view h S =
     \<lparr>held = own S h,
      intena = (if own S h = [] then sie_get h (sys S) else c_intena (cpus (sys S) h)),
      hartid = h, klog = []\<rparr>"

lemma idle_noff: "spin_inv S \<Longrightarrow> pc S h = Idle \<Longrightarrow> c_noff (cpus (sys S) h) = int (length (own S h))"
  unfolding spin_inv_def by (simp add: pending_def)

lemma idle_holding: "spin_inv S \<Longrightarrow> spin_holding h l (sys S) \<longleftrightarrow> l \<in> set (own S h)"
  unfolding spin_inv_def spin_holding_def possesses_def by blast

lemma owner_no_interrupts: "spin_inv S \<Longrightarrow> own S h \<noteq> [] \<Longrightarrow> \<not> sie_get h (sys S)"
  unfolding spin_inv_def cpu_ok_def by (force simp: pending_def split: spin_pc.splits)

lemma spin_acquire_view:
  assumes "spin_inv S" "pc S h = Idle" "spin_acquire h l (sys S) = Some t"
  shows "acquire l (hart_view h S) =
    Some (hart_view h (S\<lparr>sys := t, own := (own S)(h := l # own S h)\<rparr>))"
proof -
  obtain u where u: "test_and_set l (push_off h (sys S)) = (0, u)" "t = set_lk_cpu l (Some h) u"
    using spin_acquire_Some(2) [OF assms(3)] by auto
  have "l \<notin> set (own S h)"
    using spin_acquire_Some(1) [OF assms(3)] idle_holding [OF assms(1), of h l]
    by (auto simp: spin_holding_def)
  moreover have "c_intena (cpus t h) = intena (hart_view h S)"
    using test_and_set_fields [OF u(1)] u(2) idle_noff [OF assms(1,2)] by (simp add: hart_view_def)
  ultimately show ?thesis by (simp add: kernel_simps hart_view_def)
qed

lemma spin_release_view:
  assumes "spin_inv S" "pc S h = Idle" "spin_release h l (sys S) = Some t"
  shows "release l (hart_view h S) =
    Some (hart_view h (S\<lparr>own := (own S)(h := remove1 l (own S h)), sys := t\<rparr>))"
proof -
  have l: "l \<in> set (own S h)"
    using spin_release_Some(1) [OF assms(3)] idle_holding [OF assms(1)] by simp
  note po = pop_off_Some [OF spin_release_Some(2) [OF assms(3)]]
  have noff: "c_noff (cpus (sys S) h) = int (length (own S h))" by (rule idle_noff [OF assms(1,2)])
  have off: "\<not> sie_get h (sys S)" 
    using owner_no_interrupts [OF assms(1), of h] l by (cases "own S h") auto
  have "remove1 l (own S h) = [] \<longleftrightarrow> length (own S h) = 1"
    using l by (cases "own S h") (auto split: if_splits)
  then have "intena (hart_view h S) =
      (if remove1 l (own S h) = [] then sie_get h t else c_intena (cpus t h))"
    using po noff off l by (auto simp: hart_view_def)
  with l show ?thesis by (simp add: kernel_simps hart_view_def)
qed

section \<open>spinlock.c as a lock module\<close>

definition spin_ok :: "nat \<Rightarrow> smp \<Rightarrow> bool" where
  "spin_ok h s \<longleftrightarrow> cpu_ok h s \<and> finite {l. spin_holding h l s} \<and>
     int (card {l. spin_holding h l s}) \<le> c_noff (cpus s h)"

lemma spin_acquire_holding:
  "spin_acquire h l s = Some t \<Longrightarrow> spin_holding h k t \<longleftrightarrow> k = l \<or> spin_holding h k s"
  by (auto simp: spin_acquire_def Let_def spin_holding_def split: prod.splits if_splits
      dest!: test_and_set_fields)

lemma spin_release_holding:
  assumes "spin_release h l s = Some t"
  shows "spin_holding h k t \<longleftrightarrow> k \<noteq> l \<and> spin_holding h k s"
  using pop_off_Some [OF spin_release_Some(2) [OF assms]] by (simp add: spin_holding_def)

lemma spin_ok_acquire:
  assumes ok: "spin_ok h s" and t: "spin_acquire h l s = Some t"
  shows "spin_ok h t"
proof -
  obtain u where u: "test_and_set l (push_off h s) = (0, u)" "t = set_lk_cpu l (Some h) u"
    using spin_acquire_Some(2) [OF t] by auto
  have "{k. spin_holding h k t} = insert l {k. spin_holding h k s}"
    using spin_acquire_holding [OF t] by auto
  moreover have "l \<notin> {k. spin_holding h k s}"
    using spin_acquire_Some(1) [OF t] by (simp add: spin_holding_def)
  ultimately show ?thesis
    using ok test_and_set_fields [OF u(1)] u(2) by (simp add: spin_ok_def cpu_ok_def)
qed

lemma spin_ok_release:
  assumes ok: "spin_ok h s" and t: "spin_release h l s = Some t"
  shows "spin_ok h t"
proof -
  let ?K = "{k. spin_holding h k s}"
  have K: "{k. spin_holding h k t} = ?K - {l}"
    using spin_release_holding [OF t] by auto
  have l: "l \<in> ?K" and fin: "finite ?K"
    using spin_release_Some(1) [OF t] ok by (simp_all add: spin_ok_def)
  have card: "Suc (card (?K - {l})) = card ?K" using fin l by (rule card_Suc_Diff1)
  have noff: "int (card ?K) \<le> c_noff (cpus s h)" and ks: "cpu_ok h s"
    using ok by (simp_all add: spin_ok_def)
  note po = pop_off_Some [OF spin_release_Some(2) [OF t]]
  have "cpu_ok h t" using ks po card noff unfolding cpu_ok_def by auto
  moreover have "int (card (?K - {l})) \<le> c_noff (cpus t h)" using po card noff by simp
  ultimately show ?thesis using fin unfolding spin_ok_def K by simp
qed

lemma spin_release_total:
  assumes ok: "spin_ok h s" and l: "spin_holding h l s"
  shows "spin_release h l s \<noteq> None"
proof -
  have "0 < card {k. spin_holding h k s}" using ok l by (auto simp: spin_ok_def card_gt_0_iff)
  then have "0 < c_noff (cpus s h)" using ok by (simp add: spin_ok_def)
  then show ?thesis
    using ok l pop_off_total [of h "lock_release l (set_lk_cpu l None s)"]
    by (auto simp: spin_release_def spin_ok_def cpu_ok_def)
qed

interpretation spin_locks: lock_api "spin_acquire h" "spin_release h" "spin_holding h"
    "\<lambda>l s. lk_locked (locks s l) = 0" "spin_ok h" for h
proof unfold_locales
  fix s t k l
  show "lk_locked (locks s l) = 0 \<Longrightarrow> spin_acquire h l s \<noteq> None"
    by (auto simp: spin_acquire_def spin_holding_def Let_def test_and_set_def)
  show "spin_holding h l s \<Longrightarrow> spin_acquire h l s = None"
    by (simp add: spin_acquire_def spin_holding_def)
  show "spin_acquire h l s = Some t \<Longrightarrow> spin_holding h k t \<longleftrightarrow> k = l \<or> spin_holding h k s"
    by (rule spin_acquire_holding)
  show "spin_acquire h l s = Some t \<Longrightarrow> k \<noteq> l \<Longrightarrow>
      (lk_locked (locks t k) = 0) = (lk_locked (locks s k) = 0)"
    by (auto dest!: spin_acquire_Some(2) test_and_set_fields)
  show "\<not> spin_holding h l s \<Longrightarrow> spin_release h l s = None"
    by (simp add: spin_release_def)
  show "spin_release h l s = Some t \<Longrightarrow> spin_holding h k t \<longleftrightarrow> k \<noteq> l \<and> spin_holding h k s"
    by (rule spin_release_holding)
  assume ok: "spin_ok h s"
  show "spin_acquire h l s = Some t \<Longrightarrow> spin_ok h t"
    by (rule spin_ok_acquire [OF ok])
  show "spin_release h l s = Some t \<Longrightarrow> spin_ok h t"
    by (rule spin_ok_release [OF ok])
  show "spin_holding h l s \<Longrightarrow> spin_release h l s \<noteq> None"
    by (rule spin_release_total [OF ok])
qed

section \<open>Properties\<close>

text \<open>A machine at boot, and the same machine after hart 0 has taken \<open>pid_lock\<close>.\<close>

definition spin_boot :: spin_sys where
  "spin_boot =
     \<lparr>sys = \<lparr>locks = (\<lambda>_. \<lparr>lk_locked = 0, lk_name = '''', lk_cpu = None\<rparr>),
             cpus = (\<lambda>_. \<lparr>c_noff = 0, c_intena = False\<rparr>), sstatus = (\<lambda>_. SSTATUS_SIE)\<rparr>,
      pc = (\<lambda>_. Idle), own = (\<lambda>_. [])\<rparr>"

definition spin_taken :: spin_sys where
  "spin_taken = spin_boot
     \<lparr>sys := the (spin_acquire 0 L_pid (sys spin_boot)), own := (own spin_boot)(0 := [L_pid])\<rparr>"

lemma spin_boot_init: "spin_init spin_boot"
  by (simp add: spin_init_def spin_boot_def)

lemma spin_taken_acquire: "spin_acquire 0 L_pid (sys spin_boot) = Some (sys spin_taken)"
proof -
  have "spin_acquire 0 L_pid (sys spin_boot) \<noteq> None"
    by (auto simp: spin_boot_def spin_acquire_def spin_holding_def Let_def test_and_set_def)
  then show ?thesis by (auto simp: spin_taken_def)
qed

lemma spin_taken_steps: "spin_step\<^sup>*\<^sup>* spin_boot spin_taken"
  using spin_acquire_steps [OF _ spin_taken_acquire] by (simp add: spin_taken_def spin_boot_def)

text \<open>
  C6: mutual exclusion. In every interleaving of lock operations by any number of harts
  from boot, at most one hart is between winning the atomic swap of \<open>acquire\<close> and the
  releasing store of \<open>release\<close> for the same lock.
\<close>

theorem spin_mutual_exclusion:
  assumes "spin_init S" and "spin_step\<^sup>*\<^sup>* S T" and "possesses T h l" and "possesses T k l"
  shows "h = k"
  using spin_inv_exclusive [OF spin.inv_reachable [OF assms(1,2)] assms(3,4)] .

theorem spin_mutual_exclusion_witness:
  "spin_init spin_boot \<and> spin_step\<^sup>*\<^sup>* spin_boot spin_taken \<and> {k. possesses spin_taken k L_pid} = {0}"
proof -
  have p: "possesses spin_taken 0 L_pid" by (simp add: spin_taken_def possesses_def)
  show ?thesis
    using p spin_boot_init spin_taken_steps
      spin_mutual_exclusion [OF spin_boot_init spin_taken_steps p]
    by blast
qed

text \<open>
  C39: while a hart holds any lock its interrupts are disabled and its nesting depth counts
  exactly the locks it holds plus the lock operation in progress; \<open>holding\<close> answers for
  exactly the locks whose \<open>acquire\<close> has returned and whose \<open>release\<close> has not begun.
\<close>

theorem spin_holder_state:
  assumes "spin_init S" and "spin_step\<^sup>*\<^sup>* S T"
  shows "(spin_holding h l (sys T) \<longleftrightarrow> l \<in> set (own T h)) \<and>
    c_noff (cpus (sys T) h) = int (length (own T h)) + pending (pc T h) \<and>
    (own T h \<noteq> [] \<longrightarrow> \<not> sie_get h (sys T))"
proof -
  note inv = spin.inv_reachable [OF assms]
  show ?thesis
    using idle_holding [OF inv] spin_inv_noff [OF inv] owner_no_interrupts [OF inv] by simp
qed

theorem spin_holder_state_witness:
  "spin_init spin_boot \<and> spin_step\<^sup>*\<^sup>* spin_boot spin_taken \<and> spin_holding 0 L_pid (sys spin_taken) \<and>
   c_noff (cpus (sys spin_taken) 0) = 1 \<and> \<not> sie_get 0 (sys spin_taken)"
  using spin_boot_init spin_taken_steps
    spin_holder_state [OF spin_boot_init spin_taken_steps, of 0 L_pid]
  by (simp add: spin_taken_def spin_boot_def pending_def)

text \<open>
  C38: \<open>spin_acquire\<close> and \<open>spin_release\<close>, run by an idle hart of a reachable machine,
  are runs of the interleaved machine and implement \<open>acquire\<close> and \<open>release\<close> of the hart
  interface that the rest of the kernel model uses.
\<close>

theorem spinlock_refines_hart:
  assumes "spin_init S" and "spin_step\<^sup>*\<^sup>* S T" and "pc T h = Idle"
  shows "(spin_acquire h l (sys T) = Some t \<longrightarrow>
      (\<exists>T'. spin_step\<^sup>*\<^sup>* T T' \<and> sys T' = t \<and> pc T' h = Idle \<and>
        acquire l (hart_view h T) = Some (hart_view h T'))) \<and>
    (spin_release h l (sys T) = Some t \<longrightarrow>
      (\<exists>T'. spin_step\<^sup>*\<^sup>* T T' \<and> sys T' = t \<and> pc T' h = Idle \<and>
        release l (hart_view h T) = Some (hart_view h T')))"
proof (intro conjI impI)
  note inv = spin.inv_reachable [OF assms(1,2)]
  show "\<exists>T'. spin_step\<^sup>*\<^sup>* T T' \<and> sys T' = t \<and> pc T' h = Idle \<and>
      acquire l (hart_view h T) = Some (hart_view h T')" if "spin_acquire h l (sys T) = Some t"
    by (rule exI, rule conjI [OF spin_acquire_steps [OF assms(3) that]])
      (simp add: assms(3) spin_acquire_view [OF inv assms(3) that])
  show "\<exists>T'. spin_step\<^sup>*\<^sup>* T T' \<and> sys T' = t \<and> pc T' h = Idle \<and>
      release l (hart_view h T) = Some (hart_view h T')" if "spin_release h l (sys T) = Some t"
    by (rule exI, rule conjI [OF spin_release_steps [OF assms(3) that]])
      (simp add: assms(3) spin_release_view [OF inv assms(3) that])
qed

theorem spinlock_refines_hart_witness:
  "\<exists>T'. spin_step\<^sup>*\<^sup>* spin_boot T' \<and> sys T' = sys spin_taken \<and> pc T' 0 = Idle \<and>
     acquire L_pid (hart_view 0 spin_boot) = Some (hart_view 0 T')"
proof -
  have "pc spin_boot 0 = Idle" by (simp add: spin_boot_def)
  from spinlock_refines_hart [OF spin_boot_init rtranclp.rtrancl_refl this, of L_pid "sys spin_taken"]
  show ?thesis using spin_taken_acquire by blast
qed

text \<open>
  \<open>push_off\<close> and \<open>pop_off\<close> are matched: after any number of \<open>push_off\<close>s the same
  number of \<open>pop_off\<close>s does not panic and restores the nesting depth and the
  interrupt-enable bit of every hart.
\<close>

theorem push_pop_matched:
  assumes "cpu_ok h s"
  shows "\<exists>t. pop_offs h n (push_offs h n s) = Some t \<and> locks t = locks s \<and>
    c_noff (cpus t h) = c_noff (cpus s h) \<and> (\<forall>k. sie_get k t = sie_get k s)"
proof -
  note pf = push_offs_fields [of h n s]
  have ok: "cpu_ok h (push_offs h n s)" using assms pf by (auto simp: cpu_ok_def)
  have "int n \<le> c_noff (cpus (push_offs h n s) h)" using assms pf by (simp add: cpu_ok_def)
  from pop_offs_fields [OF ok this] show ?thesis
    using pf assms by (cases "n = 0") (auto simp: cpu_ok_def)
qed

theorem push_pop_matched_witness:
  "cpu_ok 0 (sys spin_boot) \<and> (\<exists>t. pop_offs 0 3 (push_offs 0 3 (sys spin_boot)) = Some t \<and>
     sie_get 0 t \<and> c_noff (cpus t 0) = 0)"
proof -
  have ok: "cpu_ok 0 (sys spin_boot)" by (simp add: cpu_ok_def spin_boot_def)
  have "sie_get 0 (sys spin_boot)" by (simp add: sie_get_bit spin_boot_def bit_SSTATUS_SIE)
  with push_pop_matched [OF ok, of 3] ok show ?thesis by (auto simp: spin_boot_def)
qed

end
