(* ===== verification/String_C.thy ===== *)
theory String_C
  imports Xv6_Prelude
begin

text \<open>
  \<^verbatim>\<open>kernel/string.c\<close>. Every function works on one byte memory; pointers are addresses
  in it, so source and destination may overlap. Loop counters of type \<open>uint\<close> are the
  remaining lengths.
\<close>

section \<open>The functions\<close>

fun memset :: "bytes \<Rightarrow> nat \<Rightarrow> uint8 \<Rightarrow> nat \<Rightarrow> bytes" where
  "memset m dst c 0 = m"
| "memset m dst c (Suc n) = (memset m dst c n)(dst + n := c)"

fun memcmp :: "bytes \<Rightarrow> nat \<Rightarrow> nat \<Rightarrow> nat \<Rightarrow> int" where
  "memcmp m s1 s2 0 = 0"
| "memcmp m s1 s2 (Suc n) =
     (if m s1 \<noteq> m s2 then uint (m s1) - uint (m s2) else memcmp m (s1 + 1) (s2 + 1) n)"

text \<open>\<^verbatim>\<open>while(n-- > 0) *d++ = *s++;\<close> and \<^verbatim>\<open>while(n-- > 0) *--d = *--s;\<close>\<close>

fun copy_up :: "bytes \<Rightarrow> nat \<Rightarrow> nat \<Rightarrow> nat \<Rightarrow> bytes" where
  "copy_up m d s 0 = m"
| "copy_up m d s (Suc n) = copy_up (m(d := m s)) (d + 1) (s + 1) n"

fun copy_down :: "bytes \<Rightarrow> nat \<Rightarrow> nat \<Rightarrow> nat \<Rightarrow> bytes" where
  "copy_down m d s 0 = m"
| "copy_down m d s (Suc n) = copy_down (m(d - 1 := m (s - 1))) (d - 1) (s - 1) n"

definition memmove :: "bytes \<Rightarrow> nat \<Rightarrow> nat \<Rightarrow> nat \<Rightarrow> bytes" where
  "memmove m dst src n =
     (if n = 0 then m
      else if src < dst \<and> src + n > dst then copy_down m (dst + n) (src + n) n
      else copy_up m dst src n)"

definition memcpy :: "bytes \<Rightarrow> nat \<Rightarrow> nat \<Rightarrow> nat \<Rightarrow> bytes" where
  "memcpy m dst src n = memmove m dst src n"

fun strncmp :: "bytes \<Rightarrow> nat \<Rightarrow> nat \<Rightarrow> nat \<Rightarrow> int" where
  "strncmp m p q 0 = 0"
| "strncmp m p q (Suc n) =
     (if m p \<noteq> 0 \<and> m p = m q then strncmp m (p + 1) (q + 1) n
      else uint (m p) - uint (m q))"

text \<open>
  The two loops of \<open>strncpy\<close>: copy up to and including the NUL, then fill with zeros. A
  non-positive \<open>n\<close> copies nothing.
\<close>

fun strncpy_fill :: "bytes \<Rightarrow> nat \<Rightarrow> nat \<Rightarrow> bytes" where
  "strncpy_fill m s 0 = m"
| "strncpy_fill m s (Suc n) = strncpy_fill (m(s := 0)) (s + 1) n"

fun strncpy_copy :: "bytes \<Rightarrow> nat \<Rightarrow> nat \<Rightarrow> nat \<Rightarrow> bytes" where
  "strncpy_copy m s t 0 = m"
| "strncpy_copy m s t (Suc n) =
     (let c = m t; m = m(s := c)
      in if c \<noteq> 0 then strncpy_copy m (s + 1) (t + 1) n else strncpy_fill m (s + 1) n)"

definition strncpy :: "bytes \<Rightarrow> nat \<Rightarrow> nat \<Rightarrow> int \<Rightarrow> bytes" where
  "strncpy m s t n = strncpy_copy m s t (nat n)"

fun safestrcpy_copy :: "bytes \<Rightarrow> nat \<Rightarrow> nat \<Rightarrow> nat \<Rightarrow> bytes" where
  "safestrcpy_copy m s t 0 = m(s := 0)"
| "safestrcpy_copy m s t (Suc n) =
     (let c = m t; m = m(s := c)
      in if c \<noteq> 0 then safestrcpy_copy m (s + 1) (t + 1) n else m(s + 1 := 0))"

definition safestrcpy :: "bytes \<Rightarrow> nat \<Rightarrow> nat \<Rightarrow> int \<Rightarrow> bytes" where
  "safestrcpy m s t n = (if n \<le> 0 then m else safestrcpy_copy m s t (nat (n - 1)))"

text \<open>\<open>strlen\<close> runs until it meets a NUL byte: it may never return.\<close>

partial_function (option) strlen_from :: "bytes \<Rightarrow> nat \<Rightarrow> nat \<Rightarrow> nat option" where
  "strlen_from m s n = (if m (s + n) \<noteq> 0 then strlen_from m s (n + 1) else Some n)"

definition strlen :: "bytes \<Rightarrow> nat \<Rightarrow> nat option" where
  "strlen m s = strlen_from m s 0"

section \<open>Block operations\<close>

lemma memset_apply: "memset m d c n x = (if d \<le> x \<and> x < d + n then c else m x)"
  by (induction n) auto

lemma memset_ldn_zero: "d \<le> a \<Longrightarrow> a + k \<le> d + n \<Longrightarrow> ldn k (memset m d 0 n) a = 0"
  by (rule bit_eqI) (auto simp: bit_ldn memset_apply)

lemma memset_ldn_disjoint: "a + k \<le> d \<or> d + n \<le> a \<Longrightarrow> ldn k (memset m d c n) a = ldn k m a"
  by (rule ldn_cong) (auto simp: memset_apply)

lemma copy_up_apply:
  "d \<le> s \<or> s + n \<le> d \<Longrightarrow>
    copy_up m d s n x = (if d \<le> x \<and> x < d + n then m (s + (x - d)) else m x)"
proof (induction n arbitrary: m d s)
  case 0
  then show ?case by auto
next
  case (Suc n)
  let ?m = "m(d := m s)"
  have "copy_up ?m (d + 1) (s + 1) n x =
      (if d + 1 \<le> x \<and> x < d + 1 + n then ?m (s + 1 + (x - (d + 1))) else ?m x)"
    by (rule Suc.IH) (use Suc.prems in auto)
  also have "\<dots> = (if d \<le> x \<and> x < d + Suc n then m (s + (x - d)) else m x)"
  proof (cases "d + 1 \<le> x \<and> x < d + 1 + n")
    case True
    then have "s + 1 + (x - (d + 1)) = s + (x - d)" by arith
    with True Suc.prems show ?thesis by auto
  next
    case False
    then show ?thesis by auto
  qed
  finally show ?case by simp
qed

lemma copy_down_apply:
  "s \<le> d \<Longrightarrow> n \<le> s \<Longrightarrow>
    copy_down m d s n x = (if d - n \<le> x \<and> x < d then m (s - (d - x)) else m x)"
proof (induction n arbitrary: m d s)
  case 0
  then show ?case by auto
next
  case (Suc n)
  let ?m = "m(d - 1 := m (s - 1))"
  have "copy_down ?m (d - 1) (s - 1) n x =
      (if d - 1 - n \<le> x \<and> x < d - 1 then ?m (s - 1 - (d - 1 - x)) else ?m x)"
    by (rule Suc.IH) (use Suc.prems in auto)
  also have "\<dots> = (if d - Suc n \<le> x \<and> x < d then m (s - (d - x)) else m x)"
    using Suc.prems by (cases "x = d - 1") auto
  finally show ?case by simp
qed

lemma memmove_apply:
  "memmove m d s n x = (if d \<le> x \<and> x < d + n then m (s + (x - d)) else m x)"
proof (cases "n = 0 \<or> s < d \<and> s + n > d")
  case True
  show ?thesis
  proof (cases "n = 0")
    case False
    with True have ov: "s < d" "s + n > d" by auto
    have "copy_down m (d + n) (s + n) n x =
        (if d \<le> x \<and> x < d + n then m (s + n - (d + n - x)) else m x)"
      using ov by (simp add: copy_down_apply)
    moreover have "d \<le> x \<Longrightarrow> x < d + n \<Longrightarrow> s + n - (d + n - x) = s + (x - d)" by simp
    ultimately show ?thesis using ov False by (simp add: memmove_def)
  qed (auto simp: memmove_def)
next
  case False
  then show ?thesis by (auto simp: memmove_def copy_up_apply)
qed

lemma memcmp_zero_iff: "memcmp m a b n = 0 \<longleftrightarrow> (\<forall>i < n. m (a + i) = m (b + i))"
proof (induction n arbitrary: a b)
  case 0
  then show ?case by simp
next
  case (Suc n)
  then show ?case by (auto simp: less_Suc_eq_0_disj word_uint_eq_iff [symmetric])
qed

section \<open>Strings\<close>

text \<open>The C string of at most \<open>n\<close> bytes at address \<open>a\<close>: the bytes before the first NUL.\<close>

fun cstrn :: "bytes \<Rightarrow> nat \<Rightarrow> nat \<Rightarrow> uint8 list" where
  "cstrn m a 0 = []"
| "cstrn m a (Suc n) = (if m a = 0 then [] else m a # cstrn m (a + 1) n)"

lemma cstrn_numeral [simp]:
  "cstrn m a (numeral k) = (if m a = 0 then [] else m a # cstrn m (a + 1) (pred_numeral k))"
  by (simp add: numeral_eq_Suc)

lemma strncmp_numeral [simp]:
  "strncmp m p q (numeral k) =
     (if m p \<noteq> 0 \<and> m p = m q then strncmp m (p + 1) (q + 1) (pred_numeral k)
      else uint (m p) - uint (m q))"
  by (simp add: numeral_eq_Suc)

lemma cstrn_cong: "(\<And>i. i < n \<Longrightarrow> m (a + i) = m' (b + i)) \<Longrightarrow> cstrn m a n = cstrn m' b n"
proof (induction n arbitrary: a b)
  case 0
  then show ?case by simp
next
  case (Suc n)
  have "cstrn m (a + 1) n = cstrn m' (b + 1) n"
    by (rule Suc.IH) (use Suc.prems [of "Suc _"] in simp)
  with Suc.prems [of 0] show ?case by simp
qed

lemma length_cstrn: "length (cstrn m a n) \<le> n"
  by (induction n arbitrary: a) auto

lemma strncmp_zero_iff: "strncmp m p q n = 0 \<longleftrightarrow> cstrn m p n = cstrn m q n"
  by (induction n arbitrary: p q) (auto simp: word_uint_eq_iff [symmetric] uint_0_iff)

lemma strncpy_fill_apply:
  "strncpy_fill m s n x = (if s \<le> x \<and> x < s + n then 0 else m x)"
  by (induction n arbitrary: m s) auto

lemma strncpy_copy_outside: "x < s \<or> s + n \<le> x \<Longrightarrow> strncpy_copy m s t n x = m x"
  by (induction n arbitrary: m s t) (auto simp: Let_def strncpy_fill_apply)

lemma strncpy_copy_cstrn:
  "s + n \<le> t \<or> t + n \<le> s \<Longrightarrow> cstrn (strncpy_copy m s t n) s n = cstrn m t n"
proof (induction n arbitrary: m s t)
  case 0
  then show ?case by simp
next
  case (Suc n)
  let ?m = "m(s := m t)"
  show ?case
  proof (cases "m t = 0")
    case True
    then show ?thesis by (simp add: Let_def strncpy_fill_apply)
  next
    case False
    have "cstrn (strncpy_copy ?m (s + 1) (t + 1) n) (s + 1) n = cstrn ?m (t + 1) n"
      using Suc.prems by (intro Suc.IH) auto
    also have "\<dots> = cstrn m (t + 1) n"
      using Suc.prems by (intro cstrn_cong) auto
    finally show ?thesis
      using False by (simp add: Let_def strncpy_copy_outside)
  qed
qed

lemma safestrcpy_copy_outside: "x < s \<or> s + n < x \<Longrightarrow> safestrcpy_copy m s t n x = m x"
  by (induction n arbitrary: m s t) (auto simp: Let_def)

lemma safestrcpy_copy_cstrn:
  "s + n < t \<or> t + n \<le> s \<Longrightarrow> cstrn (safestrcpy_copy m s t n) s (Suc n) = cstrn m t n"
proof (induction n arbitrary: m s t)
  case 0
  then show ?case by simp
next
  case (Suc n)
  let ?m = "m(s := m t)"
  show ?case
  proof (cases "m t = 0")
    case True
    then show ?thesis by (simp add: Let_def)
  next
    case False
    have "cstrn (safestrcpy_copy ?m (s + 1) (t + 1) n) (s + 1) (Suc n) = cstrn ?m (t + 1) n"
      using Suc.prems by (intro Suc.IH) auto
    also have "\<dots> = cstrn m (t + 1) n"
      using Suc.prems by (intro cstrn_cong) auto
    finally show ?thesis
      using False by (simp add: Let_def safestrcpy_copy_outside)
  qed
qed

lemma strlen_from_eq:
  "(\<And>i. i < k \<Longrightarrow> m (s + (n + i)) \<noteq> 0) \<Longrightarrow> m (s + (n + k)) = 0 \<Longrightarrow> strlen_from m s n = Some (n + k)"
proof (induction k arbitrary: n)
  case 0
  then show ?case by (simp add: strlen_from.simps)
next
  case (Suc k)
  have "strlen_from m s (n + 1) = Some (n + 1 + k)"
    using Suc.prems(1) [of "Suc _"] Suc.prems(2) by (intro Suc.IH) auto
  with Suc.prems(1) [of 0] show ?case by (subst strlen_from.simps) simp
qed

section \<open>Properties\<close>

text \<open>
  \<open>safestrcpy\<close> with a positive size writes only its \<open>n\<close> bytes and leaves there a
  NUL-terminated string, the source string cut to \<open>n - 1\<close> bytes, when the two areas do
  not overlap.
\<close>

theorem safestrcpy_terminated:
  assumes "0 < n" and "s + nat n \<le> t \<or> t + nat n \<le> s"
  shows "cstrn (safestrcpy m s t n) s (nat n) = cstrn m t (nat (n - 1)) \<and>
    length (cstrn (safestrcpy m s t n) s (nat n)) < nat n \<and>
    (\<forall>x. x < s \<or> s + nat n \<le> x \<longrightarrow> safestrcpy m s t n x = m x)"
proof -
  have n: "nat n = Suc (nat (n - 1))" using assms(1) by simp
  have "s + nat (n - 1) < t \<or> t + nat (n - 1) \<le> s" using assms n by auto
  from safestrcpy_copy_cstrn [OF this, of m]
  have eq: "cstrn (safestrcpy m s t n) s (nat n) = cstrn m t (nat (n - 1))"
    using assms(1) n by (simp add: safestrcpy_def)
  have "\<forall>x. x < s \<or> s + nat n \<le> x \<longrightarrow> safestrcpy m s t n x = m x"
    using assms(1) by (auto simp: safestrcpy_def safestrcpy_copy_outside)
  moreover have "length (cstrn m t (nat (n - 1))) < nat n"
    using length_cstrn [of m t "nat (n - 1)"] n by linarith
  ultimately show ?thesis using eq by simp
qed

theorem safestrcpy_terminated_witness:
  "cstrn (safestrcpy (\<lambda>a. if a < 20 then 97 else 0) 100 0 4) 100 4 = [97, 97, 97]"
proof -
  have "cstrn (safestrcpy (\<lambda>a. if a < 20 then 97 else 0) 100 0 4) 100 (nat 4) =
      cstrn (\<lambda>a. if a < 20 then 97 else 0) 0 (nat (4 - 1))"
    using safestrcpy_terminated [of 4 100 0 "\<lambda>a. if a < 20 then 97 else 0"] by auto
  also have "\<dots> = [97, 97, 97]" by simp
  finally show ?thesis by simp
qed

text \<open>
  \<open>strncpy\<close> into a fixed-size field and \<open>strncmp\<close> over that size agree: after
  copying a name into a field, comparing the field with any other name gives 0 exactly
  when the names agree up to the field size (directory entries rely on this).
\<close>

theorem strncpy_strncmp:
  assumes "s + nat n \<le> t \<or> t + nat n \<le> s" and "s + nat n \<le> q \<or> q + nat n \<le> s"
  shows "strncmp (strncpy m s t n) q s (nat n) = 0 \<longleftrightarrow> strncmp m q t (nat n) = 0"
proof -
  have "cstrn (strncpy m s t n) s (nat n) = cstrn m t (nat n)"
    unfolding strncpy_def by (rule strncpy_copy_cstrn [OF assms(1)])
  moreover have "cstrn (strncpy m s t n) q (nat n) = cstrn m q (nat n)"
    using assms(2) by (intro cstrn_cong) (auto simp: strncpy_def strncpy_copy_outside)
  ultimately show ?thesis by (simp add: strncmp_zero_iff)
qed

theorem strncpy_strncmp_witness:
  "strncmp (strncpy (\<lambda>a. if a = 0 \<or> a = 200 then 97 else 0) 100 0 14) 200 100 14 = 0"
  using strncpy_strncmp [of 100 14 0 200 "\<lambda>a. if a = 0 \<or> a = 200 then 97 else 0"]
  by simp

text \<open>
  \<open>strlen\<close> returns the number of bytes before the first NUL whenever there is one.
\<close>

theorem strlen_first_nul:
  assumes "m (s + k) = 0" and "\<forall>i < k. m (s + i) \<noteq> 0"
  shows "strlen m s = Some k"
  using strlen_from_eq [of k m s 0] assms by (simp add: strlen_def)

theorem strlen_first_nul_witness: "strlen (\<lambda>a. if a < 5 then 97 else 0) 2 = Some 3"
  by (rule strlen_first_nul) auto

end
