(* ===== verification/Kalloc.thy ===== *)
theory Kalloc
  imports Hart Riscv String_C
begin

text \<open>
  \<^verbatim>\<open>kernel/kalloc.c\<close>: the physical page allocator. Memory is one array of bytes; the free
  list is threaded through the free pages themselves, each holding the address of the
  next in its first eight bytes. \<open>kend\<close> is the linker symbol \<open>end\<close>.

  \<open>flist\<close> abstracts the linked list to a HOL list; the specifications of \<open>kalloc\<close> and
  \<open>kfree\<close> are stated on it, and the locale \<open>page_allocator\<close> is the interface clients use.
\<close>

record mach = hart +
  mem :: bytes
  freelist :: uint64
  kend :: uint64

section \<open>The functions of kalloc.c\<close>

definition kfree :: "uint64 \<Rightarrow> 'z mach_scheme \<Rightarrow> 'z mach_scheme option" where
  "kfree pa s =
     (if pa mod PGSIZE \<noteq> 0 \<or> pa < kend s \<or> pa \<ge> PHYSTOP then None \<comment> \<open>panic: kfree\<close>
      else do {
        let s = s\<lparr>mem := memset (mem s) (unat pa) 1 (unat PGSIZE)\<rparr>;
        s \<leftarrow> acquire L_kmem s;
        let s = s\<lparr>mem := st64 (mem s) (unat pa) (freelist s)\<rparr>;
        let s = s\<lparr>freelist := pa\<rparr>;
        release L_kmem s })"

definition kalloc :: "'z mach_scheme \<Rightarrow> (uint64 \<times> 'z mach_scheme) option" where
  "kalloc s =
     do { s \<leftarrow> acquire L_kmem s;
          let r = freelist s;
          let s = (if r \<noteq> 0 then s\<lparr>freelist := ld64 (mem s) (unat r)\<rparr> else s);
          s \<leftarrow> release L_kmem s;
          let s = (if r \<noteq> 0 then s\<lparr>mem := memset (mem s) (unat r) 5 (unat PGSIZE)\<rparr> else s);
          Some (r, s) }"

lemma kfree_below: "kfree pa s = Some t \<Longrightarrow> pa < PHYSTOP"
  by (auto simp: kfree_def split: if_splits)

function freerange_from :: "uint64 \<Rightarrow> uint64 \<Rightarrow> 'z mach_scheme \<Rightarrow> 'z mach_scheme option" where
  "freerange_from p pa_end s =
     (if p + PGSIZE \<le> pa_end
      then do { s \<leftarrow> kfree p s; freerange_from (p + PGSIZE) pa_end s }
      else Some s)"
  by pat_completeness auto
termination
proof (relation "measure (\<lambda>(p, e, s). 2 ^ 64 - unat p)")
  fix p e :: uint64 and s t :: "'z mach_scheme"
  assume "kfree p s = Some t"
  then have "unat p < unat PHYSTOP" using kfree_below word_less_nat_alt by blast
  then have "unat (p + PGSIZE) = unat p + 4096"
    by (simp add: PGSIZE_def PHYSTOP_def KERNBASE_def unat_word_ariths)
  then show "((p + PGSIZE, e, t), p, e, s) \<in> measure (\<lambda>(p, e, s). 2 ^ 64 - unat p)"
    using unat_bound64 [of p] by simp
qed simp

declare freerange_from.simps [simp del]

definition freerange :: "uint64 \<Rightarrow> uint64 \<Rightarrow> 'z mach_scheme \<Rightarrow> 'z mach_scheme option" where
  "freerange pa_start pa_end s = freerange_from (PGROUNDUP pa_start) pa_end s"

definition kinit :: "'z mach_scheme \<Rightarrow> 'z mach_scheme option" where
  "kinit s = freerange (kend s) PHYSTOP s"

section \<open>Pages\<close>

definition page_ok :: "'z mach_scheme \<Rightarrow> uint64 \<Rightarrow> bool" where
  "page_ok s pa \<longleftrightarrow> pa mod PGSIZE = 0 \<and> kend s \<le> pa \<and> pa < PHYSTOP"

lemma page_ok_frame [simp]:
  "page_ok (s\<lparr>mem := m\<rparr>) = page_ok s" "page_ok (s\<lparr>freelist := f\<rparr>) = page_ok s"
  "page_ok (s\<lparr>held := h\<rparr>) = page_ok s"
  by (simp_all add: page_ok_def fun_eq_iff)

lemma aligned_unat: "pa mod PGSIZE = 0 \<longleftrightarrow> 4096 dvd unat pa"
  by (simp add: PGSIZE_def unat_arith_simps unat_mod dvd_eq_mod_eq_0)

lemma aligned_disjoint:
  "a mod PGSIZE = 0 \<Longrightarrow> b mod PGSIZE = 0 \<Longrightarrow> a \<noteq> b \<Longrightarrow>
    unat a + 4096 \<le> unat b \<or> unat b + 4096 \<le> unat a"
proof -
  assume "a mod PGSIZE = 0" "b mod PGSIZE = 0" and ne: "a \<noteq> b"
  then obtain i j where i: "unat a = 4096 * i" and j: "unat b = 4096 * j"
    by (auto simp: aligned_unat elim!: dvdE)
  have "i \<noteq> j" using ne i j by (metis word_unat_eq_iff)
  then show ?thesis using i j by auto
qed

lemma PGSIZE_unat [simp]: "unat PGSIZE = 4096"
  by (simp add: PGSIZE_def)

section \<open>The free list as a HOL list\<close>

primrec flist :: "bytes \<Rightarrow> uint64 \<Rightarrow> uint64 list \<Rightarrow> bool" where
  "flist m p [] \<longleftrightarrow> p = 0"
| "flist m p (x # xs) \<longleftrightarrow> p = x \<and> x \<noteq> 0 \<and> flist m (ld64 m (unat x)) xs"

definition free_pages :: "'z mach_scheme \<Rightarrow> uint64 list \<Rightarrow> bool" where
  "free_pages s xs \<longleftrightarrow> L_kmem \<notin> set (held s) \<and> flist (mem s) (freelist s) xs \<and> distinct xs \<and>
     (\<forall>x \<in> set xs. page_ok s x)"

lemma flist_cong:
  "(\<And>x. x \<in> set xs \<Longrightarrow> ld64 m (unat x) = ld64 m' (unat x)) \<Longrightarrow> flist m p xs = flist m' p xs"
  by (induction xs arbitrary: p) auto

lemma flist_nonzero: "flist m p xs \<Longrightarrow> 0 \<notin> set xs"
  by (induction xs arbitrary: p) auto

text \<open>Writes confined to one page leave a free list that does not contain the page alone.\<close>

lemma flist_frame:
  assumes "\<And>a. a < unat p \<or> unat p + 4096 \<le> a \<Longrightarrow> m' a = m a" and "p mod PGSIZE = 0"
    and "p \<notin> set xs" and "\<forall>x \<in> set xs. x mod PGSIZE = 0"
  shows "flist m' q xs = flist m q xs"
proof (rule flist_cong, rule ldn_cong)
  fix x i assume "x \<in> set xs" "i < (8::nat)"
  then have "x mod PGSIZE = 0" "x \<noteq> p" using assms(3,4) by auto
  then have "unat x + 4096 \<le> unat p \<or> unat p + 4096 \<le> unat x"
    using assms(2) by (intro aligned_disjoint)
  with \<open>i < 8\<close> show "m' (unat x + i) = m (unat x + i)" by (intro assms(1)) auto
qed

lemma free_pages_frame:
  assumes "free_pages s xs" "\<And>a. a < unat p \<or> unat p + 4096 \<le> a \<Longrightarrow> mem t a = mem s a"
    and "p mod PGSIZE = 0" "p \<notin> set xs" "freelist t = freelist s" "kend t = kend s" "held t = held s"
  shows "free_pages t xs"
proof -
  have "\<forall>x \<in> set xs. x mod PGSIZE = 0" using assms(1) by (simp add: free_pages_def page_ok_def)
  then have "flist (mem t) q xs = flist (mem s) q xs" for q
    by (intro flist_frame [OF assms(2,3,4)])
  then show ?thesis using assms by (simp add: free_pages_def page_ok_def)
qed

section \<open>Specifications\<close>

lemma kalloc_empty: "free_pages s [] \<Longrightarrow> kalloc s = Some (0, s)"
  by (simp add: kalloc_def free_pages_def kernel_simps Let_def)

lemma kalloc_cons:
  assumes "free_pages s (x # xs)"
  shows "kalloc s = Some (x, s\<lparr>freelist := ld64 (mem s) (unat x),
      mem := memset (mem s) (unat x) 5 4096\<rparr>)"
proof -
  have "freelist s = x" "x \<noteq> 0" "L_kmem \<notin> set (held s)"
    using assms by (simp_all add: free_pages_def)
  then show ?thesis
    by (cases s) (simp add: kalloc_def kernel_simps Let_def)
qed

lemma kalloc_cons_free:
  assumes "free_pages s (x # xs)"
  shows "free_pages (s\<lparr>freelist := ld64 (mem s) (unat x),
      mem := memset (mem s) (unat x) 5 4096\<rparr>) xs"
proof -
  let ?s = "s\<lparr>freelist := ld64 (mem s) (unat x)\<rparr>"
  have f: "free_pages ?s xs" and x: "x mod PGSIZE = 0" "x \<notin> set xs"
    using assms by (auto simp: free_pages_def page_ok_def)
  show ?thesis by (rule free_pages_frame [OF f _ x]) (auto simp: memset_apply)
qed

lemma kfree_eq:
  assumes "page_ok s pa" and "L_kmem \<notin> set (held s)"
  shows "kfree pa s = Some (s\<lparr>mem := st64 (memset (mem s) (unat pa) 1 4096) (unat pa) (freelist s),
      freelist := pa\<rparr>)"
proof -
  have "\<not> (pa mod PGSIZE \<noteq> 0 \<or> pa < kend s \<or> pa \<ge> PHYSTOP)"
    using assms(1) by (auto simp: page_ok_def)
  then show ?thesis using assms(2) by (cases s) (simp add: kfree_def kernel_simps Let_def)
qed

lemma kfree_panics:
  assumes "\<not> page_ok s pa"
  shows "kfree pa s = None"
proof -
  have "pa mod PGSIZE \<noteq> 0 \<or> pa < kend s \<or> pa \<ge> PHYSTOP"
    using assms unfolding page_ok_def by (meson not_le)
  then show ?thesis by (simp only: kfree_def if_True)
qed

lemma kfree_free:
  assumes "free_pages s xs" "page_ok s pa" "pa \<notin> set xs" "pa \<noteq> 0"
  shows "free_pages (s\<lparr>mem := st64 (memset (mem s) (unat pa) 1 4096) (unat pa) (freelist s),
      freelist := pa\<rparr>) (pa # xs)"
proof -
  let ?m = "st64 (memset (mem s) (unat pa) 1 4096) (unat pa) (freelist s)"
  have "free_pages (s\<lparr>mem := ?m\<rparr>) xs"
    using assms(2,3)
    by (intro free_pages_frame [OF assms(1), of pa])
      (auto simp: page_ok_def stn_apply memset_apply)
  moreover have "ld64 ?m (unat pa) = freelist s" by (rule ldn_stn_same) simp
  ultimately show ?thesis using assms by (simp add: free_pages_def)
qed

section \<open>The interface of a page allocator\<close>

locale page_allocator =
  fixes alloc :: "'s \<Rightarrow> ('p \<times> 's) option" and dealloc :: "'p \<Rightarrow> 's \<Rightarrow> 's option"
    and null :: 'p and avail :: "'s \<Rightarrow> 'p list \<Rightarrow> bool" and valid :: "'s \<Rightarrow> 'p \<Rightarrow> bool"
  assumes avail_distinct: "avail s xs \<Longrightarrow> distinct xs"
    and avail_valid: "avail s xs \<Longrightarrow> x \<in> set xs \<Longrightarrow> valid s x \<and> x \<noteq> null"
    and alloc_none: "avail s [] \<Longrightarrow> alloc s = Some (null, s)"
    and alloc_some: "avail s (x # xs) \<Longrightarrow>
      \<exists>t. alloc s = Some (x, t) \<and> avail t xs \<and> valid t = valid s"
    and dealloc_some: "avail s xs \<Longrightarrow> valid s p \<Longrightarrow> p \<notin> set xs \<Longrightarrow> p \<noteq> null \<Longrightarrow>
      \<exists>t. dealloc p s = Some t \<and> avail t (p # xs) \<and> valid t = valid s"
    and dealloc_invalid: "\<not> valid s p \<Longrightarrow> dealloc p s = None"
begin

primrec allocs :: "nat \<Rightarrow> 's \<Rightarrow> ('p list \<times> 's) option" where
  "allocs 0 s = Some ([], s)"
| "allocs (Suc n) s = do { (p, s) \<leftarrow> alloc s; (ps, s) \<leftarrow> allocs n s; Some (p # ps, s) }"

text \<open>\<open>n\<close> allocations hand out the first \<open>n\<close> free pages: all different, none of them null.\<close>

lemma allocs_take:
  "avail s xs \<Longrightarrow> n \<le> length xs \<Longrightarrow>
    \<exists>t. allocs n s = Some (take n xs, t) \<and> avail t (drop n xs) \<and> valid t = valid s"
proof (induction n arbitrary: s xs)
  case 0
  then show ?case by simp
next
  case (Suc n)
  then obtain x ys where xs: "xs = x # ys" by (cases xs) auto
  obtain u where u: "alloc s = Some (x, u)" "avail u ys" "valid u = valid s"
    using alloc_some Suc.prems(1) xs by blast
  with Suc.IH [OF u(2)] Suc.prems(2) xs show ?case by auto
qed

text \<open>Freeing pages that are valid and not free puts them all on the list.\<close>

lemma deallocs_rev:
  "avail s xs \<Longrightarrow> distinct (ps @ xs) \<Longrightarrow> (\<And>p. p \<in> set ps \<Longrightarrow> valid s p \<and> p \<noteq> null) \<Longrightarrow>
    \<exists>t. for_each dealloc ps s = Some t \<and> avail t (rev ps @ xs) \<and> valid t = valid s"
proof (induction ps arbitrary: s xs)
  case Nil
  then show ?case by simp
next
  case (Cons p ps)
  obtain u where u: "dealloc p s = Some u" "avail u (p # xs)" "valid u = valid s"
    using dealloc_some [OF Cons.prems(1), of p] Cons.prems(2,3) by auto
  have "distinct (ps @ p # xs)" using Cons.prems(2) by auto
  with Cons.IH [OF u(2) this] Cons.prems(3) u show ?case by auto
qed

text \<open>No page is lost: allocating \<open>n\<close> pages and freeing them restores the set of free pages.\<close>

lemma allocs_deallocs:
  assumes "avail s xs" and "n \<le> length xs"
  shows "\<exists>ps u t. allocs n s = Some (ps, u) \<and> for_each dealloc ps u = Some t \<and>
    distinct ps \<and> avail t (rev ps @ drop n xs) \<and> ps = take n xs"
proof -
  obtain u where u: "allocs n s = Some (take n xs, u)" "avail u (drop n xs)" "valid u = valid s"
    using allocs_take [OF assms] by blast
  have "distinct (take n xs @ drop n xs)" using avail_distinct [OF assms(1)] by simp
  moreover have "\<And>p. p \<in> set (take n xs) \<Longrightarrow> valid u p \<and> p \<noteq> null"
    using avail_valid [OF assms(1)] u(3) in_set_takeD by metis
  ultimately obtain t where "for_each dealloc (take n xs) u = Some t"
      "avail t (rev (take n xs) @ drop n xs)"
    using deallocs_rev [OF u(2)] by blast
  with u avail_distinct [OF assms(1)] show ?thesis by auto
qed

end

interpretation kmem: page_allocator kalloc kfree 0 free_pages page_ok
proof unfold_locales
  fix s :: "'z mach_scheme" and x p xs
  show "free_pages s xs \<Longrightarrow> distinct xs" by (simp add: free_pages_def)
  show "free_pages s xs \<Longrightarrow> x \<in> set xs \<Longrightarrow> page_ok s x \<and> x \<noteq> 0"
    using flist_nonzero by (auto simp: free_pages_def)
  show "free_pages s [] \<Longrightarrow> kalloc s = Some (0, s)" by (rule kalloc_empty)
  show "free_pages s (x # xs) \<Longrightarrow>
      \<exists>t. kalloc s = Some (x, t) \<and> free_pages t xs \<and> page_ok t = page_ok s"
    by (auto simp: kalloc_cons kalloc_cons_free)
  show "free_pages s xs \<Longrightarrow> page_ok s p \<Longrightarrow> p \<notin> set xs \<Longrightarrow> p \<noteq> 0 \<Longrightarrow>
      \<exists>t. kfree p s = Some t \<and> free_pages t (p # xs) \<and> page_ok t = page_ok s"
    using kfree_free [of s xs p] by (auto simp: kfree_eq free_pages_def)
  show "\<not> page_ok s p \<Longrightarrow> kfree p s = None" by (rule kfree_panics)
qed

section \<open>Initialisation\<close>

lemma PHYSTOP_unat: "unat PHYSTOP = 4096 * 557056"
  by (simp add: PHYSTOP_def KERNBASE_def)

lemma next_page_unat: "p < PHYSTOP \<Longrightarrow> unat (p + PGSIZE) = unat p + 4096"
  using PHYSTOP_unat by (simp add: PGSIZE_def word_less_nat_alt unat_word_ariths)

lemma pages_below_next:
  assumes "page_ok s p" "page_ok s pa"
  shows "pa < p + PGSIZE \<longleftrightarrow> pa = p \<or> pa < p"
proof -
  have a: "p mod PGSIZE = 0" "pa mod PGSIZE = 0" "p < PHYSTOP"
    using assms by (simp_all only: page_ok_def)
  have "unat pa = unat p \<or> unat pa + 4096 \<le> unat p \<or> unat p + 4096 \<le> unat pa"
    using aligned_disjoint [OF a(2,1)] by (cases "pa = p") auto
  then show ?thesis
    using next_page_unat [OF a(3)] unfolding word_less_nat_alt word_unat_eq_iff by linarith
qed

lemma freerange_from_all:
  fixes s :: "'z mach_scheme"
  assumes "unat p + 4096 * n = unat PHYSTOP" "p mod PGSIZE = 0" "kend s \<le> p" "p \<noteq> 0"
    and "free_pages s xs" "set xs = {pa. page_ok s pa \<and> pa < p}"
  shows "\<exists>t ys. freerange_from p PHYSTOP s = Some t \<and> free_pages t ys \<and>
    set ys = {pa. page_ok s pa} \<and> page_ok t = page_ok s"
  using assms
proof (induction n arbitrary: p s xs)
  case 0
  then have "p = PHYSTOP" by (simp add: word_unat_eq_iff)
  moreover have "\<not> PHYSTOP + PGSIZE \<le> PHYSTOP"
    by (simp add: PHYSTOP_def KERNBASE_def PGSIZE_def)
  moreover have "set xs = {pa. page_ok s pa}"
    using 0 calculation(1) by (auto simp: page_ok_def)
  ultimately show ?case using 0 by (auto simp: freerange_from.simps [of PHYSTOP])
next
  case (Suc n)
  then have lt: "p < PHYSTOP" by (simp add: word_less_nat_alt)
  then have ok: "page_ok s p" using Suc.prems by (simp add: page_ok_def)
  have "p \<notin> set xs" using Suc.prems(6) by auto
  then obtain u where u: "kfree p s = Some u" "free_pages u (p # xs)" "page_ok u = page_ok s"
    using kmem.dealloc_some [OF Suc.prems(5) ok] Suc.prems(4) by blast
  have kend: "kend u = kend s" using u(1) ok Suc.prems(5) by (auto simp: kfree_eq free_pages_def)
  have nx: "unat (p + PGSIZE) = unat p + 4096" by (rule next_page_unat [OF lt])
  have "\<exists>t ys. freerange_from (p + PGSIZE) PHYSTOP u = Some t \<and> free_pages t ys \<and>
    set ys = {pa. page_ok u pa} \<and> page_ok t = page_ok u"
  proof (rule Suc.IH [OF _ _ _ _ u(2)])
    show "unat (p + PGSIZE) + 4096 * n = unat PHYSTOP" using Suc.prems(1) nx by simp
    show "(p + PGSIZE) mod PGSIZE = 0" using Suc.prems(2) nx unfolding aligned_unat by simp
    show "kend u \<le> p + PGSIZE" using Suc.prems(3) kend nx by (simp add: word_le_nat_alt)
    show "p + PGSIZE \<noteq> 0" using nx by (metis add_is_0 unat_0 zero_neq_numeral)
    show "set (p # xs) = {pa. page_ok u pa \<and> pa < p + PGSIZE}"
      using Suc.prems(6) ok u(3) pages_below_next [OF ok] by auto
  qed
  moreover have "p + PGSIZE \<le> PHYSTOP" using nx Suc.prems(1) by (simp add: word_le_nat_alt)
  ultimately show ?case using u(1,3) by (simp add: freerange_from.simps [of p])
qed

lemma PGROUNDUP_kend:
  assumes "kend s \<le> PHYSTOP"
  shows "PGROUNDUP (kend s) mod PGSIZE = 0" "kend s \<le> PGROUNDUP (kend s)"
    "PGROUNDUP (kend s) \<le> PHYSTOP" "page_ok s pa \<Longrightarrow> PGROUNDUP (kend s) \<le> pa"
proof -
  have le: "unat (kend s) \<le> 4096 * 557056"
    using assms PHYSTOP_unat by (simp add: word_le_nat_alt)
  then have u: "unat (PGROUNDUP (kend s)) = (unat (kend s) + 4095) div 4096 * 4096"
    by (intro PGROUNDUP_unat) simp
  show "PGROUNDUP (kend s) mod PGSIZE = 0" using u unfolding aligned_unat by simp
  show "kend s \<le> PGROUNDUP (kend s)" using u unfolding word_le_nat_alt by linarith
  have "(unat (kend s) + 4095) div 4096 \<le> 557056" using le by linarith
  then show "PGROUNDUP (kend s) \<le> PHYSTOP"
    using u PHYSTOP_unat unfolding word_le_nat_alt by simp
  assume "page_ok s pa"
  then have "4096 dvd unat pa" "unat (kend s) \<le> unat pa"
    unfolding page_ok_def aligned_unat word_le_nat_alt by auto
  then show "PGROUNDUP (kend s) \<le> pa" using u unfolding word_le_nat_alt by (auto elim!: dvdE)
qed

section \<open>Properties\<close>

text \<open>
  \<open>kinit\<close> returns, and afterwards the free list holds, each exactly once, all the
  page-aligned pages between the end of the kernel and \<open>PHYSTOP\<close>.
\<close>

theorem kinit_frees_all:
  assumes "freelist s = 0" and "L_kmem \<notin> set (held s)" and "0 < kend s" and "kend s \<le> PHYSTOP"
  shows "\<exists>t ys. kinit s = Some t \<and> free_pages t ys \<and> set ys = {pa. page_ok s pa}"
proof -
  let ?p = "PGROUNDUP (kend s)"
  note p = PGROUNDUP_kend [OF assms(4)]
  obtain i where i: "unat ?p = 4096 * i" using p(1) by (auto simp: aligned_unat elim!: dvdE)
  have "unat ?p \<le> unat PHYSTOP" using p(3) by (simp add: word_le_nat_alt)
  then have "unat ?p + 4096 * (557056 - i) = unat PHYSTOP" using i PHYSTOP_unat by simp
  moreover have "?p \<noteq> 0" using p(2) assms(3) by auto
  moreover have "free_pages s []" using assms(1,2) by (simp add: free_pages_def)
  moreover have "set [] = {pa. page_ok s pa \<and> pa < ?p}" using p(4) by fastforce
  ultimately obtain t ys where "freerange_from ?p PHYSTOP s = Some t" "free_pages t ys"
      "set ys = {pa. page_ok s pa}"
    using freerange_from_all [OF _ p(1,2)] by blast
  then show ?thesis by (auto simp: kinit_def freerange_def)
qed

text \<open>A machine just before \<open>kinit\<close> whose kernel ends two pages below \<open>PHYSTOP\<close>.\<close>

definition mach0 :: mach where
  "mach0 = \<lparr>held = [], intena = True, hartid = 0, klog = [], mem = (\<lambda>_. 0), freelist = 0,
     kend = PHYSTOP - 2 * PGSIZE\<rparr>"

lemma mach0_kend: "0 < kend mach0" "kend mach0 \<le> PHYSTOP"
  by (simp_all add: mach0_def PHYSTOP_def KERNBASE_def PGSIZE_def)

theorem kinit_frees_all_witness:
  "\<exists>t ys. kinit mach0 = Some t \<and> free_pages t ys \<and> set ys = {pa. page_ok mach0 pa}"
  by (rule kinit_frees_all [OF _ _ mach0_kend]) (simp_all add: mach0_def)

text \<open>
  \<open>kalloc\<close> takes the first free page, fills it with junk, touches no other byte and
  no lock, and returns 0 without any effect when the list is empty.
\<close>

theorem kalloc_spec:
  assumes "free_pages s xs"
  shows "case xs of
      [] \<Rightarrow> kalloc s = Some (0, s)
    | x # ys \<Rightarrow> \<exists>t. kalloc s = Some (x, t) \<and> x \<noteq> 0 \<and> page_ok s x \<and> free_pages t ys \<and>
        held t = held s \<and>
        (\<forall>a. mem t a = (if unat x \<le> a \<and> a < unat x + 4096 then 5 else mem s a))"
proof (cases xs)
  case Nil
  then show ?thesis using assms by (simp add: kalloc_empty)
next
  case (Cons x ys)
  then show ?thesis
    using assms kalloc_cons [of s x ys] kalloc_cons_free [of s x ys]
    by (simp add: memset_apply) (simp add: free_pages_def)
qed

theorem kalloc_spec_witness: "free_pages mach0 [] \<and> kalloc mach0 = Some (0, mach0)"
proof -
  have f: "free_pages mach0 []" by (simp add: free_pages_def mach0_def)
  show ?thesis using f kalloc_spec [OF f] by simp
qed

text \<open>
  C37: \<open>kfree\<close> panics exactly on an address that is not a page of the allocator; freeing
  a page that is not on the list puts it at the front, so the next \<open>kalloc\<close> returns it.
\<close>

theorem kfree_kalloc:
  "(\<not> page_ok s pa \<longrightarrow> kfree pa s = None) \<and>
   (free_pages s xs \<and> page_ok s pa \<and> pa \<notin> set xs \<and> pa \<noteq> 0 \<longrightarrow>
     (\<exists>t u. kfree pa s = Some t \<and> free_pages t (pa # xs) \<and>
        (\<forall>a. a < unat pa \<or> unat pa + 4096 \<le> a \<longrightarrow> mem t a = mem s a) \<and>
        kalloc t = Some (pa, u) \<and> free_pages u xs))"
proof (intro conjI impI)
  show "\<not> page_ok s pa \<Longrightarrow> kfree pa s = None" by (rule kfree_panics)
  assume a: "free_pages s xs \<and> page_ok s pa \<and> pa \<notin> set xs \<and> pa \<noteq> 0"
  let ?t = "s\<lparr>mem := st64 (memset (mem s) (unat pa) 1 4096) (unat pa) (freelist s), freelist := pa\<rparr>"
  have t: "kfree pa s = Some ?t" and f: "free_pages ?t (pa # xs)"
    using a kfree_eq [of s pa] kfree_free [of s xs pa] by (auto simp: free_pages_def)
  have "\<forall>a. a < unat pa \<or> unat pa + 4096 \<le> a \<longrightarrow> mem ?t a = mem s a"
    by (auto simp: stn_apply memset_apply)
  with t f kalloc_cons [OF f] kalloc_cons_free [OF f]
  show "\<exists>t u. kfree pa s = Some t \<and> free_pages t (pa # xs) \<and>
        (\<forall>a. a < unat pa \<or> unat pa + 4096 \<le> a \<longrightarrow> mem t a = mem s a) \<and>
        kalloc t = Some (pa, u) \<and> free_pages u xs"
    by blast
qed

theorem kfree_kalloc_witness:
  "kfree 0 mach0 = None \<and>
   (\<exists>t u. kfree (PHYSTOP - PGSIZE) mach0 = Some t \<and> kalloc t = Some (PHYSTOP - PGSIZE, u) \<and>
     free_pages u [])"
proof -
  have "\<not> page_ok mach0 0" "page_ok mach0 (PHYSTOP - PGSIZE)" "free_pages mach0 []"
      "PHYSTOP - PGSIZE \<noteq> 0"
    by (simp_all add: page_ok_def free_pages_def mach0_def PHYSTOP_def KERNBASE_def PGSIZE_def)
  then show ?thesis
    using kfree_kalloc [of mach0 0 "[]"] kfree_kalloc [of mach0 "PHYSTOP - PGSIZE" "[]"] by auto
qed



end
