(* ===== verification/Proc.thy ===== *)
theory Proc
  imports Kalloc
begin

text \<open>
  The process table of \<^verbatim>\<open>kernel/proc.c\<close> and \<^verbatim>\<open>kernel/proc.h\<close>: \<open>struct proc\<close> with the
  accounting fields of the aging project, aging and starvation detection, and the operations that move a process between states.

  \<open>swtch\<close> is assembly: every operation that gives up the processor takes a parameter
  \<open>sw\<close>, what happens between the call of \<open>swtch\<close> and its return. Dereferencing a null
  \<open>myproc()\<close> faults, which is a branch with no result.
\<close>

section \<open>Data\<close>

datatype procstate = UNUSED | USED | SLEEPING | RUNNABLE | RUNNING | ZOMBIE

text \<open>\<open>c_s i\<close> is the callee-saved register \<open>s\<close>\<open>i\<close>.\<close>

record kcontext =
  c_ra :: uint64
  c_sp :: uint64
  c_s :: "nat \<Rightarrow> uint64"

record proc =
  p_rtime :: int
  p_wtime :: int
  p_nrun :: int
  p_priority :: int
  p_dyn_prio :: int
  p_starving :: int
  p_stime :: int
  p_ctime :: uint64
  p_etime :: uint64
  p_pbs_rtime :: uint64
  p_pbs_stime :: uint64
  p_state :: procstate
  p_chan :: "chan option"
  p_killed :: int
  p_xstate :: int
  p_pid :: int
  p_parent :: "nat option"
  p_kstack :: uint64
  p_sz :: uint64
  p_pagetable :: uint64
  p_trapframe :: uint64
  p_context :: kcontext
  p_ofile :: "nat \<Rightarrow> nat option"
  p_cwd :: "nat option"
  p_name :: bytes

text \<open>
  The kernel's process state: the table, each processor's current process, the globals of
  \<^verbatim>\<open>proc.c\<close> and \<open>ticks\<close> of \<^verbatim>\<open>trap.c\<close>, the supervisor registers of this hart (of
  \<open>sstatus\<close> the interrupt-enable bit is \<open>intr_get\<close>) and the addresses the linker assigns.
\<close>

record csr_regs =
  csr_sstatus :: uint64
  csr_sepc :: uint64
  csr_scause :: uint64
  csr_stval :: uint64
  csr_stvec :: uint64
  csr_satp :: uint64
  csr_stimecmp :: uint64
  csr_time :: uint64

text \<open>Addresses of assembly code and of functions whose address the kernel takes.\<close>

record ksyms =
  sym_trampoline :: uint64
  sym_uservec :: uint64
  sym_userret :: uint64
  sym_kernelvec :: uint64
  sym_usertrap :: uint64
  sym_forkret :: uint64

record kern = mach +
  procs :: "nat \<Rightarrow> proc"
  cpu_proc :: "nat \<Rightarrow> nat option"
  initproc :: "nat option"
  nextpid :: int
  ticks :: uint32
  csr :: csr_regs
  syms :: ksyms

definition upd_proc :: "nat \<Rightarrow> (proc \<Rightarrow> proc) \<Rightarrow> 'z kern_scheme \<Rightarrow> 'z kern_scheme" where
  "upd_proc p f s = s\<lparr>procs := (procs s)(p := f (procs s p))\<rparr>"

abbreviation set_state :: "nat \<Rightarrow> procstate \<Rightarrow> 'z kern_scheme \<Rightarrow> 'z kern_scheme" where
  "set_state p st \<equiv> upd_proc p (\<lambda>q. q\<lparr>p_state := st\<rparr>)"

abbreviation pstate :: "'z kern_scheme \<Rightarrow> nat \<Rightarrow> procstate" where
  "pstate s p \<equiv> p_state (procs s p)"

abbreviation proc_ids :: "nat list" where
  "proc_ids \<equiv> [0..<NPROC]"

section \<open>Initialisation, current process, process identifiers\<close>

definition procinit :: "'z kern_scheme \<Rightarrow> 'z kern_scheme option" where
  "procinit s =
     for_each (\<lambda>p s. Some (upd_proc p (\<lambda>q. q\<lparr>p_state := UNUSED, p_kstack := KSTACK p\<rparr>) s))
       proc_ids s"

definition cpuid :: "'z kern_scheme \<Rightarrow> nat" where
  "cpuid s = hartid s"

definition myproc :: "'z kern_scheme \<Rightarrow> nat option" where
  "myproc s = cpu_proc s (cpuid s)"

definition allocpid :: "'z kern_scheme \<Rightarrow> (int \<times> 'z kern_scheme) option" where
  "allocpid s =
     do { s \<leftarrow> acquire L_pid s;
          let pid = nextpid s;
          let s = s\<lparr>nextpid := nextpid s + 1\<rparr>;
          s \<leftarrow> release L_pid s;
          Some (pid, s) }"

section \<open>Aging and starvation detection\<close>

text \<open>The change \<open>aging_update\<close> makes to the structure, between its two debug blocks.\<close>

definition aging_boost :: "proc \<Rightarrow> proc" where
  "aging_boost q =
     (if p_wtime q > AGING_THRESHOLD then
        let q = (if p_priority q > MIN_PRIORITY then
                   let q = q\<lparr>p_priority := p_priority q - AGING_STEP\<rparr>
                   in if p_priority q < MIN_PRIORITY then q\<lparr>p_priority := MIN_PRIORITY\<rparr> else q
                 else q)
        in q\<lparr>p_wtime := 0\<rparr>
      else q)"

text \<open>\<^verbatim>\<open>param.h\<close> defines \<open>DEBUG_AGING\<close>, so both \<^verbatim>\<open>#ifdef\<close> blocks are compiled in.\<close>

definition aging_update :: "nat \<Rightarrow> 'z kern_scheme \<Rightarrow> 'z kern_scheme option" where
  "aging_update p s =
     (if pstate s p \<noteq> RUNNABLE then Some s
      else
        let old_prio = p_priority (procs s p);
            old_starving = p_starving (procs s p);
            s = upd_proc p aging_boost s
        in do {
          s \<leftarrow> (if p_priority (procs s p) \<noteq> old_prio
               then kprintf ''[AGING] pid=%d priority changed %d -> %d\<newline>''
                      [KInt (p_pid (procs s p)), KInt old_prio, KInt (p_priority (procs s p))] s
               else Some s);
          (if p_starving (procs s p) \<noteq> old_starving \<and> p_starving (procs s p) = 1
           then kprintf ''[STARVE] pid=%d is starving (wtime=%d)\<newline>''
                  [KInt (p_pid (procs s p)), KInt (p_wtime (procs s p))] s
           else Some s) })"

definition detect_starving :: "nat \<Rightarrow> 'z kern_scheme \<Rightarrow> 'z kern_scheme" where
  "detect_starving p s =
     (if p_wtime (procs s p) > STARVING_THRESHOLD
      then upd_proc p (\<lambda>q. q\<lparr>p_starving := 1\<rparr>) s else s)"

section \<open>Giving up the processor\<close>

definition sched :: "('z kern_scheme \<Rightarrow> 'z kern_scheme option) \<Rightarrow> 'z kern_scheme \<Rightarrow>
    'z kern_scheme option" where
  "sched sw s =
     do { p \<leftarrow> myproc s;
          if \<not> holding (L_proc p) s then None
          else if noff s \<noteq> 1 then None
          else if pstate s p = RUNNING then None
          else if intr_get s then None
          else do { let ie = intena s;
                    s \<leftarrow> sw s;
                    Some (s\<lparr>intena := ie\<rparr>) } }"

definition yield :: "('z kern_scheme \<Rightarrow> 'z kern_scheme option) \<Rightarrow> 'z kern_scheme \<Rightarrow>
    'z kern_scheme option" where
  "yield sw s =
     do { p \<leftarrow> myproc s;
          s \<leftarrow> acquire (L_proc p) s;
          let s = set_state p RUNNABLE s;
          s \<leftarrow> sched sw s;
          release (L_proc p) s }"

text \<open>\<open>sleep\<close> up to its call of \<open>sched\<close>, and the whole function.\<close>

definition sleep_enter :: "chan \<Rightarrow> lock_id \<Rightarrow> nat \<Rightarrow> 'z kern_scheme \<Rightarrow> 'z kern_scheme option" where
  "sleep_enter ch lk p s =
     do { s \<leftarrow> acquire (L_proc p) s;
          s \<leftarrow> release lk s;
          let s = upd_proc p (\<lambda>q. q\<lparr>p_chan := Some ch\<rparr>) s;
          Some (set_state p SLEEPING s) }"

definition sleep :: "('z kern_scheme \<Rightarrow> 'z kern_scheme option) \<Rightarrow> chan \<Rightarrow> lock_id \<Rightarrow>
    'z kern_scheme \<Rightarrow> 'z kern_scheme option" where
  "sleep sw ch lk s =
     do { p \<leftarrow> myproc s;
          s \<leftarrow> sleep_enter ch lk p s;
          s \<leftarrow> sched sw s;
          let s = upd_proc p (\<lambda>q. q\<lparr>p_chan := None\<rparr>) s;
          s \<leftarrow> release (L_proc p) s;
          acquire lk s }"

text \<open>A channel is a pointer, so \<open>wakeup\<close> may be called with a null one.\<close>

definition wakeup :: "chan option \<Rightarrow> 'z kern_scheme \<Rightarrow> 'z kern_scheme option" where
  "wakeup ch s =
     for_each (\<lambda>p s.
       if Some p \<noteq> myproc s then
         do { s \<leftarrow> acquire (L_proc p) s;
              let s = (if pstate s p = SLEEPING \<and> p_chan (procs s p) = ch
                       then set_state p RUNNABLE s else s);
              release (L_proc p) s }
       else Some s) proc_ids s"

section \<open>Killing and reparenting\<close>

definition kkill :: "int \<Rightarrow> 'z kern_scheme \<Rightarrow> (int \<times> 'z kern_scheme) option" where
  "kkill pid s =
     do { (r, s) \<leftarrow> scan (\<lambda>p s.
            do { s \<leftarrow> acquire (L_proc p) s;
                 if p_pid (procs s p) = pid then
                   do { let s = upd_proc p (\<lambda>q. q\<lparr>p_killed := 1\<rparr>) s;
                        let s = (if pstate s p = SLEEPING then set_state p RUNNABLE s else s);
                        s \<leftarrow> release (L_proc p) s;
                        Some (Some 0, s) }
                 else do { s \<leftarrow> release (L_proc p) s; Some (None, s) } }) proc_ids s;
          Some (case r of None \<Rightarrow> -1 | Some r \<Rightarrow> r, s) }"

definition setkilled :: "nat \<Rightarrow> 'z kern_scheme \<Rightarrow> 'z kern_scheme option" where
  "setkilled p s =
     do { s \<leftarrow> acquire (L_proc p) s;
          let s = upd_proc p (\<lambda>q. q\<lparr>p_killed := 1\<rparr>) s;
          release (L_proc p) s }"

definition killed :: "nat \<Rightarrow> 'z kern_scheme \<Rightarrow> (int \<times> 'z kern_scheme) option" where
  "killed p s =
     do { s \<leftarrow> acquire (L_proc p) s;
          let k = p_killed (procs s p);
          s \<leftarrow> release (L_proc p) s;
          Some (k, s) }"

definition reparent :: "nat \<Rightarrow> 'z kern_scheme \<Rightarrow> 'z kern_scheme option" where
  "reparent p s =
     for_each (\<lambda>pp s.
       if p_parent (procs s pp) = Some p then
         do { let s = upd_proc pp (\<lambda>q. q\<lparr>p_parent := initproc s\<rparr>) s;
              wakeup (map_option C_proc (initproc s)) s }
       else Some s) proc_ids s"

section \<open>Process listing\<close>

definition procdump_state :: "procstate \<Rightarrow> string option" where
  "procdump_state st = (case st of
       UNUSED \<Rightarrow> Some ''unused'' | USED \<Rightarrow> None | SLEEPING \<Rightarrow> Some ''sleep''
     | RUNNABLE \<Rightarrow> Some ''runble'' | RUNNING \<Rightarrow> Some ''run'' | ZOMBIE \<Rightarrow> Some ''zombie'')"

definition cname :: "bytes \<Rightarrow> string" where
  "cname b = map (\<lambda>c. char_of (unat c)) (cstrn b 0 16)"

text \<open>Columns separated by tabs, as in the format strings.\<close>

definition tab_line :: "string list \<Rightarrow> string" where
  "tab_line cols = foldr (\<lambda>c r. if r = [] then c else c @ CHR 0x09 # r) cols [] @ ''\<newline>''"

definition procdump :: "'z kern_scheme \<Rightarrow> 'z kern_scheme option" where
  "procdump s =
     do { s \<leftarrow> kprintf ''\<newline>'' [] s;
          s \<leftarrow> kprintf (tab_line [''PID'', ''STATE'', ''NAME'', ''PRIO'', ''RTIME'', ''WTIME'', ''NRUN'',
                              ''STARVING'']) [] s;
          for_each (\<lambda>p s.
            let q = procs s p in
            if p_state q = UNUSED then Some s
            else
              let state = (case procdump_state (p_state q) of None \<Rightarrow> ''???'' | Some x \<Rightarrow> x)
              in kprintf (tab_line [''%d'', ''%s'', ''%s'', ''%d'', ''%d'', ''%d'', ''%d'', ''%d''])
                   [KInt (p_pid q), KStr state, KStr (cname (p_name q)), KInt (p_priority q),
                    KInt (p_rtime q), KInt (p_wtime q), KInt (p_nrun q), KInt (p_starving q)] s)
            proc_ids s }"

section \<open>Evaluation rules\<close>

lemma upd_proc_fields [simp, kernel_simps]:
  "held (upd_proc p f s) = held s" "intena (upd_proc p f s) = intena s"
  "hartid (upd_proc p f s) = hartid s" "klog (upd_proc p f s) = klog s"
  "mem (upd_proc p f s) = mem s" "freelist (upd_proc p f s) = freelist s"
  "kend (upd_proc p f s) = kend s" "cpu_proc (upd_proc p f s) = cpu_proc s"
  "initproc (upd_proc p f s) = initproc s" "nextpid (upd_proc p f s) = nextpid s"
  "ticks (upd_proc p f s) = ticks s" "csr (upd_proc p f s) = csr s" "syms (upd_proc p f s) = syms s"
  "kern.more (upd_proc p f s) = kern.more s"
  "procs (upd_proc p f s) = (procs s)(p := f (procs s p))"
  by (simp_all add: upd_proc_def)

lemma upd_proc_held [simp]: "upd_proc p f (s\<lparr>held := h\<rparr>) = (upd_proc p f s)\<lparr>held := h\<rparr>"
  by (simp add: upd_proc_def)

lemma upd_proc_klog [simp]: "upd_proc p f (s\<lparr>klog := l\<rparr>) = (upd_proc p f s)\<lparr>klog := l\<rparr>"
  by (simp add: upd_proc_def)

lemma upd_proc_self [simp]: "f (procs s p) = procs s p \<Longrightarrow> upd_proc p f s = s"
  by (simp add: upd_proc_def)

lemma upd_proc_twice [simp]: "upd_proc p f (upd_proc p g s) = upd_proc p (\<lambda>q. f (g q)) s"
  by (simp add: upd_proc_def)

lemma myproc_frame [simp, kernel_simps]:
  "myproc (s\<lparr>held := h\<rparr>) = myproc s" "myproc (s\<lparr>intena := ie\<rparr>) = myproc s"
  "myproc (s\<lparr>klog := l\<rparr>) = myproc s" "myproc (upd_proc p f s) = myproc s"
  "myproc (s\<lparr>ticks := tk\<rparr>) = myproc s" "myproc (s\<lparr>procs := ps\<rparr>) = myproc s"
  "myproc (s\<lparr>csr := cs\<rparr>) = myproc s" "myproc (s\<lparr>mem := mm\<rparr>) = myproc s"
  by (simp_all add: myproc_def cpuid_def)

text \<open>A loop over the table whose body changes each entry and perhaps prints.\<close>

lemma for_each_table:
  assumes "distinct is"
    and step: "\<And>p s. p \<in> set is \<Longrightarrow> P s \<Longrightarrow>
      f p s = Some ((upd_proc p (g p) s)\<lparr>klog := klog s @ msgs p (procs s p)\<rparr>)"
    and frame: "\<And>s ps l. P s \<Longrightarrow> P (s\<lparr>procs := ps, klog := l\<rparr>)" and "P s"
  shows "for_each f is s = Some (s\<lparr>
     procs := (\<lambda>p. if p \<in> set is then g p (procs s p) else procs s p),
     klog := klog s @ concat (map (\<lambda>p. msgs p (procs s p)) is)\<rparr>)"
  using assms(1,4) step
proof (induction "is" arbitrary: s)
  case Nil
  then show ?case by simp
next
  case (Cons p "is")
  let ?t = "(upd_proc p (g p) s)\<lparr>klog := klog s @ msgs p (procs s p)\<rparr>"
  have t: "?t = s\<lparr>procs := (procs s)(p := g p (procs s p)), klog := klog s @ msgs p (procs s p)\<rparr>"
    by (simp add: upd_proc_def)
  have "P ?t" unfolding t using Cons.prems(2) by (rule frame)
  then have ih: "for_each f is ?t = Some (?t\<lparr>
      procs := (\<lambda>q. if q \<in> set is then g q (procs ?t q) else procs ?t q),
      klog := klog ?t @ concat (map (\<lambda>q. msgs q (procs ?t q)) is)\<rparr>)"
    using Cons.prems(1,3) by (intro Cons.IH) auto
  have m: "map (\<lambda>q. msgs q (procs ?t q)) is = map (\<lambda>q. msgs q (procs s q)) is"
    using Cons.prems(1) by auto
  have ps: "(\<lambda>q. if q \<in> set is then g q (procs ?t q) else procs ?t q) =
      (\<lambda>q. if q \<in> set (p # is) then g q (procs s q) else procs s q)"
    using Cons.prems(1) by auto
  have "f p s = Some ?t" using Cons.prems(2,3) by simp
  with ih show ?case unfolding m ps by (simp add: upd_proc_def)
qed

lemma for_each_procs:
  assumes step: "\<And>p s. p < NPROC \<Longrightarrow> P s \<Longrightarrow> f p s = Some (upd_proc p (g p) s)"
    and frame: "\<And>s ps l. P s \<Longrightarrow> P (s\<lparr>procs := ps, klog := l\<rparr>)" and "P s"
  shows "for_each f proc_ids s =
    Some (s\<lparr>procs := (\<lambda>p. if p < NPROC then g p (procs s p) else procs s p)\<rparr>)"
proof -
  have "concat (map (\<lambda>_. []) proc_ids) = []" by simp
  then show ?thesis
    using for_each_table [of proc_ids P f "\<lambda>_ _. []" g s] assms by (simp add: upd_proc_def)
qed

section \<open>Wake-up, kill, identifiers\<close>

text \<open>No lock of another process is held, as every caller of these operations ensures.\<close>

definition others_free :: "'z kern_scheme \<Rightarrow> bool" where
  "others_free s \<longleftrightarrow> (\<forall>p < NPROC. Some p \<noteq> myproc s \<longrightarrow> L_proc p \<notin> set (held s))"

lemma others_free_frame [simp]:
  "others_free (s\<lparr>procs := ps\<rparr>) = others_free s" "others_free (s\<lparr>klog := l\<rparr>) = others_free s"
  "others_free (upd_proc p f s) = others_free s" "others_free (s\<lparr>ticks := t\<rparr>) = others_free s"
  by (simp_all add: others_free_def)

definition woken :: "chan option \<Rightarrow> nat option \<Rightarrow> nat \<Rightarrow> proc \<Rightarrow> proc" where
  "woken ch me p q =
     (if Some p \<noteq> me \<and> p_state q = SLEEPING \<and> p_chan q = ch then q\<lparr>p_state := RUNNABLE\<rparr> else q)"

lemma wakeup_eq [kernel_simps]:
  assumes "others_free s"
  shows "wakeup ch s =
    Some (s\<lparr>procs := (\<lambda>p. if p < NPROC then woken ch (myproc s) p (procs s p) else procs s p)\<rparr>)"
  unfolding wakeup_def
proof (rule for_each_procs [where P = "\<lambda>t. others_free t \<and> myproc t = myproc s"])
  fix p and t :: "'a kern_scheme"
  assume "p < NPROC" "others_free t \<and> myproc t = myproc s"
  then show "(if Some p \<noteq> myproc t then
         do { t \<leftarrow> acquire (L_proc p) t;
              let t = (if pstate t p = SLEEPING \<and> p_chan (procs t p) = ch
                       then set_state p RUNNABLE t else t);
              release (L_proc p) t }
       else Some t) = Some (upd_proc p (woken ch (myproc s) p) t)"
    by (auto simp: others_free_def kernel_simps woken_def)
qed (use assms in auto)

definition procs_free :: "'z hart_scheme \<Rightarrow> bool" where
  "procs_free s \<longleftrightarrow> (\<forall>p < NPROC. L_proc p \<notin> set (held s))"

lemma procs_free_others [simp]: "procs_free s \<Longrightarrow> others_free s"
  by (simp add: procs_free_def others_free_def)

lemma kkill_eq:
  assumes "procs_free s"
  shows "kkill pid s = Some (case find (\<lambda>p. p_pid (procs s p) = pid) proc_ids of
      None \<Rightarrow> (-1, s)
    | Some p \<Rightarrow> (0, upd_proc p (\<lambda>q. q\<lparr>p_killed := 1,
         p_state := (if p_state q = SLEEPING then RUNNABLE else p_state q)\<rparr>) s))"
proof -
  have "scan (\<lambda>p s.
            do { s \<leftarrow> acquire (L_proc p) s;
                 if p_pid (procs s p) = pid then
                   do { let s = upd_proc p (\<lambda>q. q\<lparr>p_killed := 1\<rparr>) s;
                        let s = (if pstate s p = SLEEPING then set_state p RUNNABLE s else s);
                        s \<leftarrow> release (L_proc p) s;
                        Some (Some (0::int), s) }
                 else do { s \<leftarrow> release (L_proc p) s; Some (None, s) } }) proc_ids s =
    (case find (\<lambda>p. p_pid (procs s p) = pid) proc_ids of
       None \<Rightarrow> Some (None, s)
     | Some p \<Rightarrow> Some (Some 0, upd_proc p (\<lambda>q. q\<lparr>p_killed := 1,
         p_state := (if p_state q = SLEEPING then RUNNABLE else p_state q)\<rparr>) s))"
    using assms by (intro scan_find) (auto simp: procs_free_def kernel_simps upd_proc_def)
  then show ?thesis by (simp add: kkill_def split: option.splits)
qed

lemma setkilled_eq [kernel_simps]:
  "L_proc p \<notin> set (held s) \<Longrightarrow> setkilled p s = Some (upd_proc p (\<lambda>q. q\<lparr>p_killed := 1\<rparr>) s)"
  by (simp add: setkilled_def kernel_simps)

lemma killed_eq [kernel_simps]:
  "L_proc p \<notin> set (held s) \<Longrightarrow> killed p s = Some (p_killed (procs s p), s)"
  by (simp add: killed_def kernel_simps)

lemma allocpid_eq [kernel_simps]:
  "L_pid \<notin> set (held s) \<Longrightarrow> allocpid s = Some (nextpid s, s\<lparr>nextpid := nextpid s + 1\<rparr>)"
  by (simp add: allocpid_def kernel_simps)

section \<open>A concrete state\<close>

text \<open>An empty table on hart 0, with the allocator of \<open>mach0\<close>, for the examples.\<close>

definition proc0 :: proc where
  "proc0 = \<lparr>p_rtime = 0, p_wtime = 0, p_nrun = 0, p_priority = 0, p_dyn_prio = 0,
     p_starving = 0, p_stime = 0, p_ctime = 0, p_etime = 0, p_pbs_rtime = 0, p_pbs_stime = 0,
     p_state = UNUSED, p_chan = None, p_killed = 0, p_xstate = 0, p_pid = 0, p_parent = None,
     p_kstack = 0, p_sz = 0, p_pagetable = 0, p_trapframe = 0,
     p_context = \<lparr>c_ra = 0, c_sp = 0, c_s = (\<lambda>_. 0)\<rparr>, p_ofile = (\<lambda>_. None), p_cwd = None,
     p_name = (\<lambda>_. 0)\<rparr>"

lemma proc0_fields [simp]:
  "p_rtime proc0 = 0" "p_wtime proc0 = 0" "p_nrun proc0 = 0" "p_priority proc0 = 0"
  "p_starving proc0 = 0" "p_stime proc0 = 0" "p_ctime proc0 = 0" "p_pbs_rtime proc0 = 0"
  "p_pbs_stime proc0 = 0" "p_state proc0 = UNUSED" "p_chan proc0 = None" "p_killed proc0 = 0"
  "p_pid proc0 = 0" "p_parent proc0 = None" "p_sz proc0 = 0" "p_pagetable proc0 = 0"
  "p_trapframe proc0 = 0"
  by (simp_all add: proc0_def)

definition kern0 :: kern where
  "kern0 = \<lparr>held = [], intena = True, hartid = 0, klog = [], mem = (\<lambda>_. 0), freelist = 0,
     kend = PHYSTOP - 2 * PGSIZE, procs = (\<lambda>_. proc0), cpu_proc = (\<lambda>_. None),
     initproc = None, nextpid = 1, ticks = 0,
     csr = \<lparr>csr_sstatus = 0, csr_sepc = 0, csr_scause = 0, csr_stval = 0, csr_stvec = 0,
            csr_satp = 0, csr_stimecmp = 0, csr_time = 0\<rparr>,
     syms = \<lparr>sym_trampoline = 0x80007000, sym_uservec = 0x80007000, sym_userret = 0x8000709a,
             sym_kernelvec = 0x80005000, sym_usertrap = 0x80002000, sym_forkret = 0x80001800\<rparr>\<rparr>"

lemma kern0_fields [simp]:
  "held kern0 = []" "intena kern0 = True" "hartid kern0 = 0" "procs kern0 = (\<lambda>_. proc0)"
  "cpu_proc kern0 = (\<lambda>_. None)" "klog kern0 = []" "ticks kern0 = 0" "myproc kern0 = None"
  by (simp_all add: kern0_def myproc_def)

end
