(* ===== verification/Scheduler.thy ===== *)
theory Scheduler
  imports Proc "HOL-Library.Product_Lexorder"
begin

text \<open>
  The endless loop \<open>scheduler\<close> of \<^verbatim>\<open>kernel/proc.c\<close> with its three compile-time policies,
  round robin, first come first served and priority based; what each of them selects,
  and the contract between the scheduler and the processes at \<open>swtch\<close>.
\<close>

section \<open>The scheduling policies\<close>

text \<open>
  One pass of each of the three loops of \<open>scheduler\<close>. \<open>sw p\<close> is what happens from
  \<open>swtch(&c->context, &p->context)\<close> until process \<open>p\<close> switches back.
\<close>

definition set_cpu_proc :: "nat option \<Rightarrow> 'z kern_scheme \<Rightarrow> 'z kern_scheme" where
  "set_cpu_proc v s = s\<lparr>cpu_proc := (cpu_proc s)(cpuid s := v)\<rparr>"

definition rr_step ::
  "(nat \<Rightarrow> 'z kern_scheme \<Rightarrow> 'z kern_scheme option) \<Rightarrow> nat \<Rightarrow> 'z kern_scheme \<Rightarrow>
   'z kern_scheme option" where
  "rr_step sw p s =
     do { s \<leftarrow> acquire (L_proc p) s;
          s \<leftarrow> (if pstate s p = RUNNABLE then
                 do { let s = set_state p RUNNING s;
                      let s = set_cpu_proc (Some p) s;
                      let s = upd_proc p (\<lambda>q. q\<lparr>p_nrun := p_nrun q + 1\<rparr>) s;
                      s \<leftarrow> sw p s;
                      Some (set_cpu_proc None s) }
               else Some s);
          release (L_proc p) s }"

definition rr_pass ::
  "(nat \<Rightarrow> 'z kern_scheme \<Rightarrow> 'z kern_scheme option) \<Rightarrow> 'z kern_scheme \<Rightarrow> 'z kern_scheme option" where
  "rr_pass sw s = for_each (rr_step sw) proc_ids s"

text \<open>FCFS: the loop variable \<open>firstProcess\<close> is the first component of the loop state.\<close>

definition fcfs_step ::
  "nat \<Rightarrow> nat option \<times> 'z kern_scheme \<Rightarrow> (nat option \<times> 'z kern_scheme) option" where
  "fcfs_step p fs = (case fs of (first, s) \<Rightarrow>
     do { s \<leftarrow> acquire (L_proc p) s;
          if pstate s p = RUNNABLE \<and>
             (case first of None \<Rightarrow> True
              | Some f \<Rightarrow> p_ctime (procs s p) < p_ctime (procs s f))
          then do { s \<leftarrow> (case first of None \<Rightarrow> Some s | Some f \<Rightarrow> release (L_proc f) s);
                    Some (Some p, s) }
          else do { s \<leftarrow> release (L_proc p) s; Some (first, s) } })"

definition fcfs_select :: "'z kern_scheme \<Rightarrow> (nat option \<times> 'z kern_scheme) option" where
  "fcfs_select s = for_each fcfs_step proc_ids (None, s)"

definition fcfs_dispatch ::
  "(nat \<Rightarrow> 'z kern_scheme \<Rightarrow> 'z kern_scheme option) \<Rightarrow> nat \<Rightarrow> 'z kern_scheme \<Rightarrow>
   'z kern_scheme option" where
  "fcfs_dispatch sw p s =
     do { let s = set_state p RUNNING s;
          let s = set_cpu_proc (Some p) s;
          let s = upd_proc p (\<lambda>q. q\<lparr>p_nrun := p_nrun q + 1\<rparr>) s;
          s \<leftarrow> sw p s;
          let s = set_cpu_proc None s;
          release (L_proc p) s }"

definition fcfs_pass ::
  "(nat \<Rightarrow> 'z kern_scheme \<Rightarrow> 'z kern_scheme option) \<Rightarrow> 'z kern_scheme \<Rightarrow> 'z kern_scheme option" where
  "fcfs_pass sw s =
     do { (first, s) \<leftarrow> fcfs_select s;
          case first of None \<Rightarrow> Some s | Some p \<Rightarrow> fcfs_dispatch sw p s }"

text \<open>
  PBS: \<open>niceness\<close> is computed in \<open>uint64\<close> and converted to \<open>int\<close>, so the model keeps the
  wrap-around of the sum and of the product.
\<close>

definition pbs_niceness :: "proc \<Rightarrow> int" where
  "pbs_niceness q =
     (let run = p_pbs_rtime q; slp = p_pbs_stime q
      in if run + slp \<noteq> 0
         then sint (ucast ((slp * 10) div (run + slp)) :: 32 word)
         else 5)"

definition pbs_dp :: "proc \<Rightarrow> int" where
  "pbs_dp q =
     (let val = p_priority q - pbs_niceness q + 5;
          val = (if val > 100 then 100 else val);
          val = (if val < 0 then 0 else val)
      in val)"

definition pbs_better :: "nat \<Rightarrow> nat option \<Rightarrow> int \<Rightarrow> int \<Rightarrow> 'z kern_scheme \<Rightarrow> bool" where
  "pbs_better p best dp processDp s = (case best of None \<Rightarrow> True | Some b \<Rightarrow>
     dp > processDp \<or>
     (dp = processDp \<and> p_ctime (procs s p) < p_ctime (procs s b)) \<or>
     (dp = processDp \<and> p_ctime (procs s p) = p_ctime (procs s b) \<and>
        p_nrun (procs s p) < p_nrun (procs s b)))"

definition pbs_step ::
  "nat \<Rightarrow> (nat option \<times> int) \<times> 'z kern_scheme \<Rightarrow> ((nat option \<times> int) \<times> 'z kern_scheme) option" where
  "pbs_step p bs = (case bs of ((best, dp), s) \<Rightarrow>
     do { s \<leftarrow> acquire (L_proc p) s;
          if pstate s p \<noteq> RUNNABLE
          then do { s \<leftarrow> release (L_proc p) s; Some ((best, dp), s) }
          else
            let processDp = pbs_dp (procs s p)
            in if pbs_better p best dp processDp s
               then do { s \<leftarrow> (case best of None \<Rightarrow> Some s | Some b \<Rightarrow> release (L_proc b) s);
                         Some ((Some p, processDp), s) }
               else do { s \<leftarrow> release (L_proc p) s; Some ((best, dp), s) } })"

definition pbs_select :: "'z kern_scheme \<Rightarrow> ((nat option \<times> int) \<times> 'z kern_scheme) option" where
  "pbs_select s = for_each pbs_step proc_ids ((None, 101), s)"

definition pbs_dispatch ::
  "(nat \<Rightarrow> 'z kern_scheme \<Rightarrow> 'z kern_scheme option) \<Rightarrow> nat \<Rightarrow> 'z kern_scheme \<Rightarrow>
   'z kern_scheme option" where
  "pbs_dispatch sw p s =
     do { let s = upd_proc p (\<lambda>q. q\<lparr>p_nrun := p_nrun q + 1\<rparr>) s;
          let s = upd_proc p (\<lambda>q. q\<lparr>p_starving := 0\<rparr>) s;
          let s = set_state p RUNNING s;
          let s = set_cpu_proc (Some p) s;
          s \<leftarrow> sw p s;
          let s = set_cpu_proc None s;
          release (L_proc p) s }"

definition pbs_pass ::
  "(nat \<Rightarrow> 'z kern_scheme \<Rightarrow> 'z kern_scheme option) \<Rightarrow> 'z kern_scheme \<Rightarrow> 'z kern_scheme option" where
  "pbs_pass sw s =
     do { ((best, dp), s) \<leftarrow> pbs_select s;
          case best of None \<Rightarrow> Some s | Some p \<Rightarrow> pbs_dispatch sw p s }"

text \<open>
  The policy is chosen when the kernel is compiled; \<open>scheduler n\<close> is the first \<open>n\<close> turns
  of the endless loop.
\<close>

datatype policy = RR | FCFS | PBS

definition scheduler_round ::
  "policy \<Rightarrow> (nat \<Rightarrow> 'z kern_scheme \<Rightarrow> 'z kern_scheme option) \<Rightarrow> 'z kern_scheme \<Rightarrow>
   'z kern_scheme option" where
  "scheduler_round pol sw s =
     (let s = intr_on s
      in case pol of RR \<Rightarrow> rr_pass sw s | FCFS \<Rightarrow> fcfs_pass sw s | PBS \<Rightarrow> pbs_pass sw s)"

definition scheduler ::
  "nat \<Rightarrow> policy \<Rightarrow> (nat \<Rightarrow> 'z kern_scheme \<Rightarrow> 'z kern_scheme option) \<Rightarrow> 'z kern_scheme \<Rightarrow>
   'z kern_scheme option" where
  "scheduler n pol sw s =
     (let s = set_cpu_proc None s in for_each (\<lambda>_. scheduler_round pol sw) [0..<n] s)"

section \<open>Evaluation rules\<close>

lemma set_cpu_proc_fields [simp, kernel_simps]:
  "held (set_cpu_proc v s) = held s" "intena (set_cpu_proc v s) = intena s"
  "hartid (set_cpu_proc v s) = hartid s" "procs (set_cpu_proc v s) = procs s"
  "ticks (set_cpu_proc v s) = ticks s" "klog (set_cpu_proc v s) = klog s"
  "myproc (set_cpu_proc v s) = v"
  by (simp_all add: set_cpu_proc_def myproc_def cpuid_def)

lemma intr_on_fields [simp]:
  "held (intr_on s) = held s" "procs (intr_on s) = procs s" "hartid (intr_on s) = hartid s"
  "cpu_proc (intr_on s) = cpu_proc s" "myproc (intr_on s) = myproc s"
  by (simp_all add: intr_on_def)

section \<open>Selection by a scan of the table\<close>

text \<open>
  FCFS and PBS walk the table once and keep the lock of the best candidate so far. The
  interface: one step either leaves everything as it was or replaces the best candidate.
\<close>

definition best_lock :: "nat option \<Rightarrow> lock_id list" where
  "best_lock b = (case b of None \<Rightarrow> [] | Some q \<Rightarrow> [L_proc q])"

locale table_selection =
  fixes step :: "nat \<Rightarrow> 'b \<times> 'z kern_scheme \<Rightarrow> ('b \<times> 'z kern_scheme) option"
    and best :: "'b \<Rightarrow> nat option"
    and good :: "'b \<Rightarrow> (nat \<Rightarrow> proc) \<Rightarrow> bool"
    and key :: "proc \<Rightarrow> 'k :: linorder"
  assumes reject: "good b (procs s) \<Longrightarrow> held s = best_lock (best b) \<Longrightarrow> best b \<noteq> Some p \<Longrightarrow>
      pstate s p \<noteq> RUNNABLE \<or> (\<exists>q. best b = Some q \<and> key (procs s q) \<le> key (procs s p)) \<Longrightarrow>
      step p (b, s) = Some (b, s)"
    and accept: "good b (procs s) \<Longrightarrow> held s = best_lock (best b) \<Longrightarrow> best b \<noteq> Some p \<Longrightarrow>
      pstate s p = RUNNABLE \<Longrightarrow>
      best b = None \<or> (\<exists>q. best b = Some q \<and> key (procs s p) < key (procs s q)) \<Longrightarrow>
      \<exists>b'. step p (b, s) = Some (b', s\<lparr>held := [L_proc p]\<rparr>) \<and> best b' = Some p \<and> good b' (procs s)"
begin

definition chosen :: "nat \<Rightarrow> (nat \<Rightarrow> proc) \<Rightarrow> nat option \<Rightarrow> bool" where
  "chosen n ps c = (case c of
      None \<Rightarrow> \<forall>p < n. p_state (ps p) \<noteq> RUNNABLE
    | Some q \<Rightarrow> q < n \<and> p_state (ps q) = RUNNABLE \<and>
        (\<forall>p < n. p_state (ps p) = RUNNABLE \<longrightarrow>
           key (ps q) < key (ps p) \<or> key (ps q) = key (ps p) \<and> q \<le> p))"

lemma select:
  assumes "best b = None" "good b (procs s)" "held s = []"
  shows "\<exists>b'. for_each step [0..<n] (b, s) = Some (b', s\<lparr>held := best_lock (best b')\<rparr>) \<and>
    good b' (procs s) \<and> chosen n (procs s) (best b')"
proof (induction n)
  case 0
  then show ?case using assms by (simp add: chosen_def best_lock_def)
next
  case (Suc n)
  then obtain c where c: "for_each step [0..<n] (b, s) = Some (c, s\<lparr>held := best_lock (best c)\<rparr>)"
      "good c (procs s)" "chosen n (procs s) (best c)" by blast
  let ?t = "s\<lparr>held := best_lock (best c)\<rparr>"
  have ne: "best c \<noteq> Some n" using c(3) by (auto simp: chosen_def)
  have run: "for_each step [0..<Suc n] (b, s) = step n (c, ?t)"
    using c(1) by (simp add: for_each_append del: upt_Suc add: upt_Suc_append)
  show ?case
  proof (cases "pstate s n = RUNNABLE \<and>
      (best c = None \<or> (\<exists>q. best c = Some q \<and> key (procs s n) < key (procs s q)))")
    case True
    then obtain d where d: "step n (c, ?t) = Some (d, ?t\<lparr>held := [L_proc n]\<rparr>)"
        "best d = Some n" "good d (procs s)"
      using accept [of c ?t n] c(2) ne by auto
    have "chosen (Suc n) (procs s) (best d)"
      using True c(3) d(2)
      by (auto simp: chosen_def less_Suc_eq split: option.splits
        dest: order.strict_trans less_le_trans)
    then show ?thesis using run d by (auto simp: best_lock_def)
  next
    case False
    then have "step n (c, ?t) = Some (c, ?t)"
      using c(2) ne by (intro reject) (cases "best c"; auto simp: not_less)+
    moreover have "chosen (Suc n) (procs s) (best c)"
      using False c(3) by (auto simp: chosen_def less_Suc_eq not_less le_less split: option.splits)
    ultimately show ?thesis using run c(2) by auto
  qed
qed

end

interpretation fcfs: table_selection fcfs_step "\<lambda>b. b" "\<lambda>_ _. True" p_ctime
proof unfold_locales
  fix b :: "nat option" and s :: "'a kern_scheme" and p
  assume "held s = best_lock b" "b \<noteq> Some p"
    "pstate s p \<noteq> RUNNABLE \<or> (\<exists>q. b = Some q \<and> p_ctime (procs s q) \<le> p_ctime (procs s p))"
  then show "fcfs_step p (b, s) = Some (b, s)"
    by (cases b) (auto simp: fcfs_step_def kernel_simps best_lock_def)
next
  fix b :: "nat option" and s :: "'a kern_scheme" and p
  assume "held s = best_lock b" "b \<noteq> Some p" "pstate s p = RUNNABLE"
    "b = None \<or> (\<exists>q. b = Some q \<and> p_ctime (procs s p) < p_ctime (procs s q))"
  then show "\<exists>b'. fcfs_step p (b, s) = Some (b', s\<lparr>held := [L_proc p]\<rparr>) \<and> b' = Some p \<and> True"
    by (cases b) (auto simp: fcfs_step_def kernel_simps best_lock_def)
qed

text \<open>The order in which PBS prefers processes: \<open>dp\<close>, then creation time, then fewer runs.\<close>

definition pbs_key :: "proc \<Rightarrow> int \<times> uint64 \<times> int" where
  "pbs_key q = (pbs_dp q, p_ctime q, p_nrun q)"

definition pbs_good :: "nat option \<times> int \<Rightarrow> (nat \<Rightarrow> proc) \<Rightarrow> bool" where
  "pbs_good b ps = (case fst b of None \<Rightarrow> True | Some q \<Rightarrow> snd b = pbs_dp (ps q))"

lemma pbs_better_key:
  "pbs_good (best, dp) (procs s) \<Longrightarrow>
     pbs_better p best dp (pbs_dp (procs s p)) s \<longleftrightarrow>
       best = None \<or> (\<exists>q. best = Some q \<and> pbs_key (procs s p) < pbs_key (procs s q))"
  by (auto simp: pbs_better_def pbs_good_def pbs_key_def less_prod_def' split: option.splits)

interpretation pbs: table_selection pbs_step fst pbs_good pbs_key
proof unfold_locales
  fix b :: "nat option \<times> int" and s :: "'a kern_scheme" and p
  assume a: "pbs_good b (procs s)" "held s = best_lock (fst b)" "fst b \<noteq> Some p"
    "pstate s p \<noteq> RUNNABLE \<or>
       (\<exists>q. fst b = Some q \<and> pbs_key (procs s q) \<le> pbs_key (procs s p))"
  obtain best dp where b: "b = (best, dp)" by (cases b)
  have "pstate s p = RUNNABLE \<Longrightarrow> \<not> pbs_better p best dp (pbs_dp (procs s p)) s"
    using a b by (auto simp: pbs_better_key not_less)
  then show "pbs_step p (b, s) = Some (b, s)"
    using a(2,3) unfolding b
    by (cases best) (auto simp: pbs_step_def kernel_simps best_lock_def pbs_better_def)
next
  fix b :: "nat option \<times> int" and s :: "'a kern_scheme" and p
  assume a: "pbs_good b (procs s)" "held s = best_lock (fst b)" "fst b \<noteq> Some p"
    "pstate s p = RUNNABLE"
    "fst b = None \<or> (\<exists>q. fst b = Some q \<and> pbs_key (procs s p) < pbs_key (procs s q))"
  obtain best dp where b: "b = (best, dp)" by (cases b)
  have "pbs_better p best dp (pbs_dp (procs s p)) s" using a b by (simp add: pbs_better_key)
  then show "\<exists>b'. pbs_step p (b, s) = Some (b', s\<lparr>held := [L_proc p]\<rparr>) \<and> fst b' = Some p \<and>
      pbs_good b' (procs s)"
    using a(2-4) unfolding b
    by (cases best) (auto simp: pbs_step_def kernel_simps best_lock_def pbs_better_def pbs_good_def)
qed

section \<open>What the policies select\<close>

text \<open>
  C2: with no lock held, the PBS loop returns and selects the runnable process that comes
  first in the order dynamic priority, creation time, number of runs, index in the table;
  it selects none exactly when no process is runnable. It returns with the lock of the
  selected process, and no other, held, and with nothing else changed.
\<close>

theorem pbs_selects_minimum:
  assumes "held s = []"
  shows "\<exists>c dp. pbs_select s = Some ((c, dp), s\<lparr>held := best_lock c\<rparr>) \<and>
    (case c of
       None \<Rightarrow> \<forall>p < NPROC. pstate s p \<noteq> RUNNABLE
     | Some q \<Rightarrow> q < NPROC \<and> pstate s q = RUNNABLE \<and> dp = pbs_dp (procs s q) \<and>
         (\<forall>p < NPROC. pstate s p = RUNNABLE \<longrightarrow>
            pbs_key (procs s q) < pbs_key (procs s p) \<or>
            pbs_key (procs s q) = pbs_key (procs s p) \<and> q \<le> p))"
proof -
  obtain c dp where "pbs_select s = Some ((c, dp), s\<lparr>held := best_lock c\<rparr>)"
      "pbs_good (c, dp) (procs s)" "pbs.chosen NPROC (procs s) c"
    using pbs.select [of "(None, 101)" s NPROC] assms
    by (auto simp: pbs_select_def pbs_good_def)
  then show ?thesis by (auto simp: pbs.chosen_def pbs_good_def split: option.splits)
qed

text \<open>
  C27: FCFS selects the runnable process created first, the one of lowest index among those
  created at the same tick, and none exactly when no process is runnable.
\<close>

theorem fcfs_selects_earliest:
  assumes "held s = []"
  shows "\<exists>c. fcfs_select s = Some (c, s\<lparr>held := best_lock c\<rparr>) \<and>
    (case c of
       None \<Rightarrow> \<forall>p < NPROC. pstate s p \<noteq> RUNNABLE
     | Some q \<Rightarrow> q < NPROC \<and> pstate s q = RUNNABLE \<and>
         (\<forall>p < NPROC. pstate s p = RUNNABLE \<longrightarrow>
            p_ctime (procs s q) < p_ctime (procs s p) \<or>
            p_ctime (procs s q) = p_ctime (procs s p) \<and> q \<le> p))"
proof -
  obtain c where "fcfs_select s = Some (c, s\<lparr>held := best_lock c\<rparr>)"
      "fcfs.chosen NPROC (procs s) c"
    using fcfs.select [of None s NPROC] assms by (auto simp: fcfs_select_def)
  then show ?thesis by (auto simp: fcfs.chosen_def split: option.splits)
qed

section \<open>The contract at swtch\<close>

text \<open>
  \<open>entered p\<close>: what holds when the scheduler has switched to process \<open>p\<close>. \<open>switches_back\<close>:
  from such a state \<open>sw p\<close> comes back on the same processor with just \<open>p\<close>'s lock held, as
  \<open>sched\<close> guarantees; nothing is required of \<open>sw\<close> in other states.
\<close>

definition entered :: "nat \<Rightarrow> 'z kern_scheme \<Rightarrow> bool" where
  "entered p s \<longleftrightarrow> held s = [L_proc p] \<and> myproc s = Some p \<and> pstate s p = RUNNING"

definition switches_back :: "(nat \<Rightarrow> 'z kern_scheme \<Rightarrow> 'z kern_scheme option) \<Rightarrow> bool" where
  "switches_back sw \<longleftrightarrow> (\<forall>p s. p < NPROC \<and> entered p s \<longrightarrow>
     (\<exists>t. sw p s = Some t \<and> held t = [L_proc p] \<and> hartid t = hartid s))"

definition idle :: "nat \<Rightarrow> 'z kern_scheme \<Rightarrow> bool" where
  "idle h s \<longleftrightarrow> held s = [] \<and> hartid s = h \<and> myproc s = None"

lemma switches_backD:
  "switches_back sw \<Longrightarrow> p < NPROC \<Longrightarrow> entered p s \<Longrightarrow>
    \<exists>t. sw p s = Some t \<and> held t = [L_proc p] \<and> hartid t = hartid s"
  unfolding switches_back_def by blast

text \<open>The part of the three policies from the choice of a process to its return.\<close>

lemma run_chosen:
  assumes "switches_back sw" "p < NPROC" "entered p s" "hartid s = h"
  shows "\<exists>t. sw p s = Some t \<and>
    (\<exists>u. release (L_proc p) (set_cpu_proc None t) = Some u \<and> idle h u)"
proof -
  obtain t where "sw p s = Some t" "held t = [L_proc p]" "hartid t = h"
    using switches_backD [OF assms(1-3)] assms(4) by blast
  then show ?thesis by (simp add: release_head idle_def myproc_frame)
qed

lemma rr_step_idle:
  assumes "switches_back sw" "p < NPROC" "idle h s"
  shows "\<exists>t. rr_step sw p s = Some t \<and> idle h t"
proof (cases "pstate s p = RUNNABLE")
  case True
  let ?u = "upd_proc p (\<lambda>q. q\<lparr>p_nrun := p_nrun q + 1\<rparr>)
     (set_cpu_proc (Some p) (set_state p RUNNING (s\<lparr>held := [L_proc p]\<rparr>)))"
  have "entered p ?u" "hartid ?u = h" using assms(3) by (simp_all add: entered_def idle_def)
  then obtain t u where t: "sw p ?u = Some t" "release (L_proc p) (set_cpu_proc None t) = Some u"
      "idle h u"
    using run_chosen [OF assms(1,2)] by blast
  have "rr_step sw p s = Some u"
    using t(2) True assms(3) unfolding rr_step_def
    by (simp add: acquire_free idle_def t(1) [simplified])
  then show ?thesis using t(3) by simp
next
  case False
  then show ?thesis using assms(3) by (simp add: rr_step_def acquire_free release_head idle_def)
qed

lemma fcfs_dispatch_idle:
  assumes "switches_back sw" "p < NPROC" "held s = [L_proc p]" "hartid s = h"
  shows "\<exists>t. fcfs_dispatch sw p s = Some t \<and> idle h t"
proof -
  let ?u = "upd_proc p (\<lambda>q. q\<lparr>p_nrun := p_nrun q + 1\<rparr>)
     (set_cpu_proc (Some p) (set_state p RUNNING s))"
  have "entered p ?u" "hartid ?u = h" using assms(3,4) by (simp_all add: entered_def)
  then obtain t u where t: "sw p ?u = Some t" "release (L_proc p) (set_cpu_proc None t) = Some u"
      "idle h u"
    using run_chosen [OF assms(1,2)] by blast
  then show ?thesis by (simp add: fcfs_dispatch_def)
qed

lemma pbs_dispatch_idle:
  assumes "switches_back sw" "p < NPROC" "held s = [L_proc p]" "hartid s = h"
  shows "\<exists>t. pbs_dispatch sw p s = Some t \<and> idle h t"
proof -
  let ?u = "set_cpu_proc (Some p) (set_state p RUNNING (upd_proc p (\<lambda>q. q\<lparr>p_starving := 0\<rparr>)
     (upd_proc p (\<lambda>q. q\<lparr>p_nrun := p_nrun q + 1\<rparr>) s)))"
  have "entered p ?u" "hartid ?u = h" using assms(3,4) by (simp_all add: entered_def)
  then obtain t u where "sw p ?u = Some t" "release (L_proc p) (set_cpu_proc None t) = Some u"
      "idle h u"
    using run_chosen [OF assms(1,2)] by blast
  then show ?thesis by (simp add: pbs_dispatch_def)
qed

lemma scheduler_round_idle:
  assumes "switches_back sw" "idle h s"
  shows "\<exists>t. scheduler_round pol sw s = Some t \<and> idle h t"
proof -
  let ?s = "intr_on s"
  have s: "idle h ?s" "held ?s = []" using assms(2) by (simp_all add: idle_def)
  show ?thesis
  proof (cases pol)
    case RR
    then show ?thesis
      using for_each_total [of "idle h" ?s proc_ids "rr_step sw"] rr_step_idle [OF assms(1)] s(1)
      by (auto simp: scheduler_round_def rr_pass_def)
  next
    case FCFS
    obtain c where "fcfs_select ?s = Some (c, ?s\<lparr>held := best_lock c\<rparr>)"
        "fcfs.chosen NPROC (procs ?s) c"
      using fcfs.select [of None ?s NPROC] s(2) by (auto simp: fcfs_select_def)
    then show ?thesis using FCFS s fcfs_dispatch_idle [OF assms(1)]
      by (cases c) (auto simp: scheduler_round_def fcfs_pass_def best_lock_def idle_def
        fcfs.chosen_def)
  next
    case PBS
    obtain c dp where "pbs_select ?s = Some ((c, dp), ?s\<lparr>held := best_lock c\<rparr>)"
        "pbs.chosen NPROC (procs ?s) c"
      using pbs.select [of "(None, 101)" ?s NPROC] s(2) by (auto simp: pbs_select_def pbs_good_def)
    then show ?thesis using PBS s pbs_dispatch_idle [OF assms(1)]
      by (cases c) (auto simp: scheduler_round_def pbs_pass_def best_lock_def idle_def
        pbs.chosen_def)
  qed
qed

text \<open>
  C5: under every policy and for any number of turns the scheduler never panics or blocks
  on a lock of its own, provided each process that is switched to in the right state
  switches back as \<open>sched\<close> does: it switches only to a process it has marked \<open>RUNNING\<close>,
  made current, and whose lock alone it holds, and ends each turn with no lock held and
  no current process.
\<close>

theorem scheduler_swtch_contract:
  assumes "switches_back sw" and "held s = []"
  shows "\<exists>t. scheduler n pol sw s = Some t \<and> held t = [] \<and> myproc t = None \<and> hartid t = hartid s"
proof -
  let ?s = "set_cpu_proc None s"
  have "idle (hartid s) ?s" using assms(2) by (simp add: idle_def)
  then have "\<exists>t. for_each (\<lambda>_. scheduler_round pol sw) [0..<n] ?s = Some t \<and> idle (hartid s) t"
    by (rule for_each_total) (rule scheduler_round_idle [OF assms(1)])
  then show ?thesis by (auto simp: scheduler_def idle_def)
qed

section \<open>The other side of swtch\<close>

text \<open>
  \<open>left p\<close>: what holds when process \<open>p\<close> calls \<open>swtch\<close> in \<open>sched\<close>, the state \<open>switches_back\<close>
  expects; \<open>resumes p sw\<close>: the scheduler later switches to \<open>p\<close> again, as above.
\<close>

definition left :: "nat \<Rightarrow> 'z kern_scheme \<Rightarrow> bool" where
  "left p s \<longleftrightarrow> held s = [L_proc p] \<and> myproc s = Some p \<and> pstate s p \<noteq> RUNNING"

definition resumes ::
  "(proc \<Rightarrow> bool) \<Rightarrow> nat \<Rightarrow> ('z kern_scheme \<Rightarrow> 'z kern_scheme option) \<Rightarrow> bool" where
  "resumes P p sw \<longleftrightarrow> (\<forall>s. left p s \<and> P (procs s p) \<longrightarrow> (\<exists>t. sw s = Some t \<and> entered p t))"

lemma resumesD:
  "resumes P p sw \<Longrightarrow> left p s \<Longrightarrow> P (procs s p) \<Longrightarrow> \<exists>t. sw s = Some t \<and> entered p t"
  unfolding resumes_def by blast

lemma sched_resumes:
  assumes "resumes P p sw" "left p s" "P (procs s p)"
  shows "\<exists>t. sched sw s = Some t \<and> entered p t \<and> intena t = intena s"
proof -
  obtain t where "sw s = Some t" "entered p t" using resumesD [OF assms] by blast
  then show ?thesis
    using assms(2) by (auto simp: sched_def left_def entered_def holding_def noff_def intr_get_def)
qed

text \<open>
  C30: a process that holds no lock can call \<open>yield\<close>: none of the panics of \<open>sched\<close> is
  reached, it is \<open>RUNNABLE\<close> when it switches away, and once resumed it has released its
  lock again and has its interrupt setting back.
\<close>

theorem yield_contract:
  assumes "myproc s = Some p" and "held s = []"
    and "resumes (\<lambda>q. p_state q = RUNNABLE) p sw"
  shows "\<exists>t. yield sw s = Some t \<and> held t = [] \<and> myproc t = Some p \<and> pstate t p = RUNNING \<and>
    intena t = intena s"
proof -
  let ?u = "set_state p RUNNABLE (s\<lparr>held := [L_proc p]\<rparr>)"
  have "left p ?u" using assms(1) by (simp add: left_def)
  then obtain t where t: "sched sw ?u = Some t" "entered p t" "intena t = intena s"
    using sched_resumes [OF assms(3)] by fastforce
  have "yield sw s = Some (t\<lparr>held := []\<rparr>)"
    using assms(1,2) t(1,2) by (simp add: yield_def acquire_free release_head entered_def)
  then show ?thesis using t(2,3) by (simp add: entered_def)
qed

text \<open>
  C28: a process that holds only the condition lock can sleep on a channel: it switches
  away marked \<open>SLEEPING\<close> on that channel with the condition lock already released, no panic
  of \<open>sched\<close> is reached, and once woken and resumed it holds the condition lock alone and
  sleeps on no channel.
\<close>

theorem sleep_contract:
  assumes "myproc s = Some p" and "held s = [lk]" and "lk \<noteq> L_proc p"
    and "resumes (\<lambda>q. p_state q = SLEEPING \<and> p_chan q = Some ch) p sw"
  shows "\<exists>t. sleep sw ch lk s = Some t \<and> held t = [lk] \<and> myproc t = Some p \<and>
    pstate t p = RUNNING \<and> p_chan (procs t p) = None \<and> intena t = intena s"
proof -
  let ?u = "upd_proc p (\<lambda>q. q\<lparr>p_chan := Some ch, p_state := SLEEPING\<rparr>) (s\<lparr>held := [L_proc p]\<rparr>)"
  have u: "sleep_enter ch lk p s = Some ?u"
    using assms(2,3) by (simp add: sleep_enter_def acquire_free release_held upd_proc_def)
  have l: "left p ?u" using assms(1) by (simp add: left_def)
  have "pstate ?u p = SLEEPING \<and> p_chan (procs ?u p) = Some ch" by simp
  from sched_resumes [OF assms(4) l this]
  obtain t where t: "sched sw ?u = Some t" "entered p t" "intena t = intena ?u" by blast
  let ?v = "upd_proc p (\<lambda>q. q\<lparr>p_chan := None\<rparr>) t"
  have "held ?v = [L_proc p]" using t(2) by (simp add: entered_def)
  then have "sleep sw ch lk s = acquire lk (?v\<lparr>held := []\<rparr>)"
    by (simp only: sleep_def assms(1) u t(1) bind.bind_lunit Let_def release_head)
  also have "\<dots> = Some (?v\<lparr>held := [lk]\<rparr>)" by (simp add: acquire_free)
  finally show ?thesis using t(2,3) by (simp add: entered_def)
qed


section \<open>Round robin\<close>

text \<open>A stretch of \<open>p\<close>'s run that dispatches nobody else and un-readies nobody else.\<close>

definition runs_only :: "(nat \<Rightarrow> 'z kern_scheme \<Rightarrow> 'z kern_scheme option) \<Rightarrow> bool" where
  "runs_only sw \<longleftrightarrow> (\<forall>p s t. sw p s = Some t \<longrightarrow>
     (\<forall>q. p_nrun (procs t q) = p_nrun (procs s q)) \<and>
     (\<forall>q. q \<noteq> p \<and> pstate s q = RUNNABLE \<longrightarrow> pstate t q = RUNNABLE))"








section \<open>Examples\<close>

text \<open>
  Three runnable processes: the first of low priority, the others of equal dynamic priority,
  the last of them older.
\<close>

definition sched_ex :: kern where
  "sched_ex = kern0\<lparr>procs := (\<lambda>_. proc0)(
      0 := proc0\<lparr>p_state := RUNNABLE, p_priority := 60\<rparr>,
      1 := proc0\<lparr>p_state := RUNNABLE, p_priority := 50, p_ctime := 7\<rparr>,
      2 := proc0\<lparr>p_state := RUNNABLE, p_priority := 50, p_ctime := 5\<rparr>)\<rparr>"

lemma sched_ex_runnable: "pstate sched_ex p = RUNNABLE \<longleftrightarrow> p = 0 \<or> p = 1 \<or> p = 2"
  by (simp add: sched_ex_def)

lemma sched_ex_keys:
  "pbs_key (procs sched_ex 0) = (60, 0, 0)" "pbs_key (procs sched_ex (Suc 0)) = (50, 7, 0)"
  "pbs_key (procs sched_ex 2) = (50, 5, 0)"
  by (simp_all add: sched_ex_def pbs_key_def pbs_dp_def pbs_niceness_def)

lemma sched_ex_held: "held sched_ex = []"
  by (simp add: sched_ex_def)

theorem pbs_selects_minimum_witness:
  "\<exists>dp. pbs_select sched_ex = Some ((Some 2, dp), sched_ex\<lparr>held := [L_proc 2]\<rparr>)"
proof -
  obtain c dp where *: "pbs_select sched_ex = Some ((c, dp), sched_ex\<lparr>held := best_lock c\<rparr>)"
    "case c of
       None \<Rightarrow> \<forall>p < NPROC. pstate sched_ex p \<noteq> RUNNABLE
     | Some q \<Rightarrow> q < NPROC \<and> pstate sched_ex q = RUNNABLE \<and> dp = pbs_dp (procs sched_ex q) \<and>
         (\<forall>p < NPROC. pstate sched_ex p = RUNNABLE \<longrightarrow>
            pbs_key (procs sched_ex q) < pbs_key (procs sched_ex p) \<or>
            pbs_key (procs sched_ex q) = pbs_key (procs sched_ex p) \<and> q \<le> p)"
    using pbs_selects_minimum [OF sched_ex_held] by blast
  have "c = Some 2"
    using *(2) by (auto simp: sched_ex_runnable sched_ex_keys NPROC_def split: option.splits
      dest: spec [of _ 2])
  then show ?thesis using *(1) by (auto simp: best_lock_def)
qed

theorem fcfs_selects_earliest_witness:
  "fcfs_select sched_ex = Some (Some 0, sched_ex\<lparr>held := [L_proc 0]\<rparr>)"
proof -
  obtain c where *: "fcfs_select sched_ex = Some (c, sched_ex\<lparr>held := best_lock c\<rparr>)"
    "case c of
       None \<Rightarrow> \<forall>p < NPROC. pstate sched_ex p \<noteq> RUNNABLE
     | Some q \<Rightarrow> q < NPROC \<and> pstate sched_ex q = RUNNABLE \<and>
         (\<forall>p < NPROC. pstate sched_ex p = RUNNABLE \<longrightarrow>
            p_ctime (procs sched_ex q) < p_ctime (procs sched_ex p) \<or>
            p_ctime (procs sched_ex q) = p_ctime (procs sched_ex p) \<and> q \<le> p)"
    using fcfs_selects_earliest [OF sched_ex_held] by blast
  have "p_ctime (procs sched_ex 0) = 0" "p_ctime (procs sched_ex (Suc 0)) = 7"
    "p_ctime (procs sched_ex 2) = 5" by (simp_all add: sched_ex_def)
  then have "c = Some 0"
    using *(2) by (auto simp: sched_ex_runnable NPROC_def split: option.splits dest: spec [of _ 0])
  then show ?thesis using *(1) by (simp add: best_lock_def)
qed

text \<open>A process that runs for a while and then yields.\<close>

definition yielder :: "nat \<Rightarrow> kern \<Rightarrow> kern option" where
  "yielder p s = (if entered p s then Some (set_state p RUNNABLE s) else None)"

lemma yielder_back: "switches_back yielder" "runs_only yielder"
  by (simp_all add: switches_back_def runs_only_def yielder_def entered_def)

theorem scheduler_swtch_contract_witness:
  "\<exists>t. scheduler 3 PBS yielder sched_ex = Some t \<and> held t = [] \<and> myproc t = None"
  using scheduler_swtch_contract [OF yielder_back(1) sched_ex_held, of 3 PBS] by blast


text \<open>A running process on hart 0, and a scheduler that resumes it at once.\<close>

definition running_ex :: kern where
  "running_ex = kern0\<lparr>cpu_proc := (\<lambda>_. Some 3),
     procs := (\<lambda>_. proc0)(3 := proc0\<lparr>p_state := RUNNING\<rparr>)\<rparr>"

definition resumer :: "kern \<Rightarrow> kern option" where
  "resumer s = (if left 3 s then Some (set_state 3 RUNNING s) else None)"

lemma resumer_resumes: "resumes P 3 resumer"
  by (simp add: resumes_def resumer_def left_def entered_def)

lemma running_ex_fields: "myproc running_ex = Some 3" "held running_ex = []"
  by (simp_all add: running_ex_def myproc_def)

theorem yield_contract_witness:
  "\<exists>t. yield resumer running_ex = Some t \<and> held t = [] \<and> pstate t 3 = RUNNING"
  using yield_contract [OF running_ex_fields resumer_resumes] by blast

theorem sleep_contract_witness:
  "\<exists>t. sleep resumer C_ticks L_ticks (running_ex\<lparr>held := [L_ticks]\<rparr>) = Some t \<and>
     held t = [L_ticks] \<and> p_chan (procs t 3) = None"
  using sleep_contract [of "running_ex\<lparr>held := [L_ticks]\<rparr>" 3 L_ticks C_ticks resumer]
    running_ex_fields resumer_resumes by auto


section \<open>Dynamic priority\<close>

lemma sint_ucast_small: "unat (w :: uint64) \<le> 10 \<Longrightarrow> sint (ucast w :: 32 word) = int (unat w)"
proof -
  assume "unat w \<le> 10"
  then have "unat w \<in> {0, 1, 2, 3, 4, 5, 6, 7, 8, 9, 10}"
    unfolding insert_iff empty_iff by presburger
  then have "w \<in> {0, 1, 2, 3, 4, 5, 6, 7, 8, 9, 10}" by (simp add: word_unat_eq_iff)
  then show ?thesis by auto
qed

text \<open>
  C31: as long as the run and sleep times of a process stay below \<open>2\<^sup>6\<^sup>0\<close> ticks, niceness is
  the share of its time it slept, in tenths rounded down, and 5 for a process with no
  history; it lies in 0..10, and the dynamic priority of a process whose priority is in
  0..100 lies in 0..100 and within 5 of the priority.
\<close>

theorem pbs_dynamic_priority:
  assumes "unat (p_pbs_rtime q) < 2 ^ 60" and "unat (p_pbs_stime q) < 2 ^ 60"
    and "0 \<le> p_priority q" and "p_priority q \<le> 100"
  shows "pbs_niceness q =
      (if p_pbs_rtime q = 0 \<and> p_pbs_stime q = 0 then 5
       else int (unat (p_pbs_stime q) * 10 div (unat (p_pbs_rtime q) + unat (p_pbs_stime q)))) \<and>
    0 \<le> pbs_niceness q \<and> pbs_niceness q \<le> 10 \<and>
    0 \<le> pbs_dp q \<and> pbs_dp q \<le> 100 \<and> \<bar>pbs_dp q - p_priority q\<bar> \<le> 5"
proof -
  let ?r = "p_pbs_rtime q" and ?s = "p_pbs_stime q"
  have sum: "unat (?r + ?s) = unat ?r + unat ?s" and prod: "unat (?s * 10) = unat ?s * 10"
    using assms(1,2) by (simp_all add: unat_word_ariths)
  have z: "?r + ?s = 0 \<longleftrightarrow> ?r = 0 \<and> ?s = 0"
    using sum by (simp add: word_unat_eq_iff)
  let ?n = "unat ?s * 10 div (unat ?r + unat ?s)"
  have n: "unat ((?s * 10) div (?r + ?s)) = ?n" by (simp add: unat_div sum prod)
  have "?n \<le> 10 * (unat ?r + unat ?s) div (unat ?r + unat ?s)" by (intro div_le_mono) simp
  also have "\<dots> \<le> 10" by (metis div_mult_self_is_m le0 le_refl mult.commute div_by_0 not_gr_zero)
  finally have le: "?n \<le> 10" .
  have nice: "pbs_niceness q = (if ?r = 0 \<and> ?s = 0 then 5 else int ?n)"
    unfolding pbs_niceness_def Let_def using n le sint_ucast_small [of "(?s * 10) div (?r + ?s)"] z
    by simp
  have "0 \<le> pbs_niceness q \<and> pbs_niceness q \<le> 10" using le by (simp add: nice)
  then show ?thesis using nice assms(3,4) by (auto simp: pbs_dp_def Let_def)
qed

theorem pbs_dynamic_priority_witness:
  "pbs_niceness (proc0\<lparr>p_pbs_rtime := 30, p_pbs_stime := 10, p_priority := 60\<rparr>) = 2"
  using pbs_dynamic_priority [of "proc0\<lparr>p_pbs_rtime := 30, p_pbs_stime := 10, p_priority := 60\<rparr>"]
  by simp

end
