(* ===== verification/Sleeplock.thy ===== *)
theory Sleeplock
  imports Scheduler
begin

text \<open>
  Sleep locks, \<^verbatim>\<open>kernel/sleeplock.c\<close>. A lock is identified by the object that contains it;
  \<open>locked\<close> and \<open>pid\<close> are the fields of the structure, whose inner spin lock is
  \<open>L_sleep lk\<close> and whose address is the channel \<open>C_sleeplock lk\<close>.
\<close>

section \<open>Operations\<close>

record sleeplock =
  sl_locked :: bool
  sl_pid :: int

record slk = kern +
  slocks :: "sleeplock_id \<Rightarrow> sleeplock"

definition upd_slock :: "sleeplock_id \<Rightarrow> sleeplock \<Rightarrow> 'z slk_scheme \<Rightarrow> 'z slk_scheme" where
  "upd_slock lk v s = s\<lparr>slocks := (slocks s)(lk := v)\<rparr>"

definition initsleeplock :: "sleeplock_id \<Rightarrow> 'z slk_scheme \<Rightarrow> 'z slk_scheme" where
  "initsleeplock lk s = upd_slock lk \<lparr>sl_locked = False, sl_pid = 0\<rparr> s"

text \<open>The loop of \<open>acquiresleep\<close>; it has no result if the lock is never found free.\<close>

partial_function (option) acquiresleep_wait ::
  "('z slk_scheme \<Rightarrow> 'z slk_scheme option) \<Rightarrow> sleeplock_id \<Rightarrow> 'z slk_scheme \<Rightarrow> 'z slk_scheme option" where
  "acquiresleep_wait sw lk s =
     (if sl_locked (slocks s lk)
      then do { s \<leftarrow> sleep sw (C_sleeplock lk) (L_sleep lk) s; acquiresleep_wait sw lk s }
      else Some s)"

definition acquiresleep ::
  "('z slk_scheme \<Rightarrow> 'z slk_scheme option) \<Rightarrow> sleeplock_id \<Rightarrow> 'z slk_scheme \<Rightarrow> 'z slk_scheme option" where
  "acquiresleep sw lk s =
     do { s \<leftarrow> acquire (L_sleep lk) s;
          s \<leftarrow> acquiresleep_wait sw lk s;
          p \<leftarrow> myproc s;
          let s = upd_slock lk \<lparr>sl_locked = True, sl_pid = p_pid (procs s p)\<rparr> s;
          release (L_sleep lk) s }"

definition releasesleep :: "sleeplock_id \<Rightarrow> 'z slk_scheme \<Rightarrow> 'z slk_scheme option" where
  "releasesleep lk s =
     do { s \<leftarrow> acquire (L_sleep lk) s;
          let s = upd_slock lk \<lparr>sl_locked = False, sl_pid = 0\<rparr> s;
          s \<leftarrow> wakeup (Some (C_sleeplock lk)) s;
          release (L_sleep lk) s }"

definition holdingsleep :: "sleeplock_id \<Rightarrow> 'z slk_scheme \<Rightarrow> (bool \<times> 'z slk_scheme) option" where
  "holdingsleep lk s =
     do { s \<leftarrow> acquire (L_sleep lk) s;
          r \<leftarrow> (if sl_locked (slocks s lk)
               then do { p \<leftarrow> myproc s; Some (sl_pid (slocks s lk) = p_pid (procs s p)) }
               else Some False);
          s \<leftarrow> release (L_sleep lk) s;
          Some (r, s) }"

text \<open>The state with no sleep lock taken.\<close>

definition slk0 :: slk where
  "slk0 = kern.extend kern0 (slk.fields (\<lambda>_. \<lparr>sl_locked = False, sl_pid = 0\<rparr>))"

lemma slk0_fields [simp]:
  "held slk0 = []" "intena slk0 = True" "hartid slk0 = 0" "procs slk0 = (\<lambda>_. proc0)"
  "cpu_proc slk0 = (\<lambda>_. None)" "klog slk0 = []" "ticks slk0 = 0" "myproc slk0 = None"
  "slocks slk0 = (\<lambda>_. \<lparr>sl_locked = False, sl_pid = 0\<rparr>)"
  by (simp_all add: slk0_def kern.defs slk.defs kern0_def myproc_def cpuid_def)

end
