(* ===== verification/Vm.thy ===== *)
theory Vm
  imports Kalloc
begin

text \<open>
  Page tables, \<^verbatim>\<open>kernel/vm.c\<close>: the three-level Sv39 walk on tables stored in physical
  memory, mapping and unmapping, user address spaces and the copies between kernel and
  user memory. A \<open>pte_t *\<close> is the physical address of the entry, 0 when there is none.
  Loops that run until an address is reached are partial functions: a loop that does not
  end has no result, like a panic.
\<close>

section \<open>Walking\<close>

definition ld_pte :: "'z mach_scheme \<Rightarrow> uint64 \<Rightarrow> uint64" where
  "ld_pte s pte = ld64 (mem s) (unat pte)"

definition st_pte :: "uint64 \<Rightarrow> uint64 \<Rightarrow> 'z mach_scheme \<Rightarrow> 'z mach_scheme" where
  "st_pte pte v s = s\<lparr>mem := st64 (mem s) (unat pte) v\<rparr>"

definition zero_page :: "uint64 \<Rightarrow> 'z mach_scheme \<Rightarrow> 'z mach_scheme" where
  "zero_page pa s = s\<lparr>mem := memset (mem s) (unat pa) 0 (unat PGSIZE)\<rparr>"

text \<open>\<open>&pagetable[PX(level, va)]\<close>\<close>

definition pte_addr :: "uint64 \<Rightarrow> nat \<Rightarrow> uint64 \<Rightarrow> uint64" where
  "pte_addr pagetable level va = pagetable + 8 * PX level va"

text \<open>The loop of \<open>walk\<close>, entered with the table of the given level.\<close>

fun walk_from :: "nat \<Rightarrow> uint64 \<Rightarrow> uint64 \<Rightarrow> bool \<Rightarrow> 'z mach_scheme \<Rightarrow>
    (uint64 \<times> 'z mach_scheme) option" where
  "walk_from 0 pagetable va alloc s = Some (pte_addr pagetable 0 va, s)"
| "walk_from (Suc l) pagetable va alloc s =
     (let pte = pte_addr pagetable (Suc l) va
      in if ld_pte s pte AND PTE_V \<noteq> 0 then walk_from l (PTE2PA (ld_pte s pte)) va alloc s
         else if \<not> alloc then Some (0, s)
         else do { (pg, s) \<leftarrow> kalloc s;
                   if pg = 0 then Some (0, s)
                   else do { let s = zero_page pg s;
                             let s = st_pte pte (PA2PTE pg OR PTE_V) s;
                             walk_from l pg va alloc s } })"

definition walk :: "uint64 \<Rightarrow> uint64 \<Rightarrow> bool \<Rightarrow> 'z mach_scheme \<Rightarrow>
    (uint64 \<times> 'z mach_scheme) option" where
  "walk pagetable va alloc s =
     (if va \<ge> MAXVA then None else walk_from 2 pagetable va alloc s)"

definition walkaddr :: "uint64 \<Rightarrow> uint64 \<Rightarrow> 'z mach_scheme \<Rightarrow> (uint64 \<times> 'z mach_scheme) option" where
  "walkaddr pagetable va s =
     (if va \<ge> MAXVA then Some (0, s)
      else do { (pte, s) \<leftarrow> walk pagetable va False s;
                if pte = 0 then Some (0, s)
                else if ld_pte s pte AND PTE_V = 0 then Some (0, s)
                else if ld_pte s pte AND PTE_U = 0 then Some (0, s)
                else Some (PTE2PA (ld_pte s pte), s) })"

definition ismapped :: "uint64 \<Rightarrow> uint64 \<Rightarrow> 'z mach_scheme \<Rightarrow> (bool \<times> 'z mach_scheme) option" where
  "ismapped pagetable va s =
     do { (pte, s) \<leftarrow> walk pagetable va False s;
          if pte = 0 then Some (False, s)
          else if ld_pte s pte AND PTE_V \<noteq> 0 then Some (True, s)
          else Some (False, s) }"

section \<open>Mapping\<close>

partial_function (option) mappages_from ::
  "uint64 \<Rightarrow> uint64 \<Rightarrow> uint64 \<Rightarrow> uint64 \<Rightarrow> uint64 \<Rightarrow> 'z mach_scheme \<Rightarrow>
   (int \<times> 'z mach_scheme) option" where
  "mappages_from pagetable a final pa perm s =
     do { (pte, s) \<leftarrow> walk pagetable a True s;
          if pte = 0 then Some (-1, s)
          else if ld_pte s pte AND PTE_V \<noteq> 0 then None
          else do { let s = st_pte pte (PA2PTE pa OR perm OR PTE_V) s;
                    if a = final then Some (0, s)
                    else mappages_from pagetable (a + PGSIZE) final (pa + PGSIZE) perm s } }"

definition mappages :: "uint64 \<Rightarrow> uint64 \<Rightarrow> uint64 \<Rightarrow> uint64 \<Rightarrow> uint64 \<Rightarrow> 'z mach_scheme \<Rightarrow>
    (int \<times> 'z mach_scheme) option" where
  "mappages pagetable va sz pa perm s =
     (if va mod PGSIZE \<noteq> 0 then None
      else if sz mod PGSIZE \<noteq> 0 then None
      else if sz = 0 then None
      else mappages_from pagetable va (va + sz - PGSIZE) pa perm s)"

definition kvmmap :: "uint64 \<Rightarrow> uint64 \<Rightarrow> uint64 \<Rightarrow> uint64 \<Rightarrow> uint64 \<Rightarrow> 'z mach_scheme \<Rightarrow>
    'z mach_scheme option" where
  "kvmmap kpgtbl va pa sz perm s =
     do { (r, s) \<leftarrow> mappages kpgtbl va sz pa perm s;
          if r \<noteq> 0 then None else Some s }"

section \<open>User address spaces\<close>

definition uvmcreate :: "'z mach_scheme \<Rightarrow> (uint64 \<times> 'z mach_scheme) option" where
  "uvmcreate s =
     do { (pagetable, s) \<leftarrow> kalloc s;
          if pagetable = 0 then Some (0, s)
          else Some (pagetable, zero_page pagetable s) }"

text \<open>One page of the loop of \<open>uvmunmap\<close>.\<close>

definition unmap_page :: "uint64 \<Rightarrow> uint64 \<Rightarrow> bool \<Rightarrow> 'z mach_scheme \<Rightarrow> 'z mach_scheme option" where
  "unmap_page pagetable a do_free s =
     do { (pte, s) \<leftarrow> walk pagetable a False s;
          if pte = 0 then Some s
          else if ld_pte s pte AND PTE_V = 0 then Some s
          else do { s \<leftarrow> (if do_free then kfree (PTE2PA (ld_pte s pte)) s else Some s);
                    Some (st_pte pte 0 s) } }"

partial_function (option) uvmunmap_from ::
  "uint64 \<Rightarrow> uint64 \<Rightarrow> uint64 \<Rightarrow> bool \<Rightarrow> 'z mach_scheme \<Rightarrow> 'z mach_scheme option" where
  "uvmunmap_from pagetable a end do_free s =
     (if a < end
      then do { s \<leftarrow> unmap_page pagetable a do_free s;
                uvmunmap_from pagetable (a + PGSIZE) end do_free s }
      else Some s)"

definition uvmunmap :: "uint64 \<Rightarrow> uint64 \<Rightarrow> uint64 \<Rightarrow> bool \<Rightarrow> 'z mach_scheme \<Rightarrow>
    'z mach_scheme option" where
  "uvmunmap pagetable va npages do_free s =
     (if va mod PGSIZE \<noteq> 0 then None
      else uvmunmap_from pagetable va (va + npages * PGSIZE) do_free s)"

text \<open>\<open>npages\<close> is an \<open>int\<close>, so the quotient is narrowed to 32 bits and sign-extended again.\<close>

definition uvmdealloc :: "uint64 \<Rightarrow> uint64 \<Rightarrow> uint64 \<Rightarrow> 'z mach_scheme \<Rightarrow>
    (uint64 \<times> 'z mach_scheme) option" where
  "uvmdealloc pagetable oldsz newsz s =
     (if newsz \<ge> oldsz then Some (oldsz, s)
      else do {
        s \<leftarrow> (if PGROUNDUP newsz < PGROUNDUP oldsz then
               let npages = scast (ucast ((PGROUNDUP oldsz - PGROUNDUP newsz) div PGSIZE) :: 32 word)
               in uvmunmap pagetable (PGROUNDUP newsz) npages True s
             else Some s);
        Some (newsz, s) })"

partial_function (option) uvmalloc_from ::
  "uint64 \<Rightarrow> uint64 \<Rightarrow> uint64 \<Rightarrow> uint64 \<Rightarrow> uint64 \<Rightarrow> 'z mach_scheme \<Rightarrow>
   (uint64 \<times> 'z mach_scheme) option" where
  "uvmalloc_from pagetable a oldsz newsz xperm s =
     (if a < newsz then
        do { (pg, s) \<leftarrow> kalloc s;
             if pg = 0
             then do { (_, s) \<leftarrow> uvmdealloc pagetable a oldsz s; Some (0, s) }
             else do {
               let s = zero_page pg s;
               (r, s) \<leftarrow> mappages pagetable a PGSIZE pg (PTE_R OR PTE_U OR xperm) s;
               if r \<noteq> 0
               then do { s \<leftarrow> kfree pg s;
                         (_, s) \<leftarrow> uvmdealloc pagetable a oldsz s;
                         Some (0, s) }
               else uvmalloc_from pagetable (a + PGSIZE) oldsz newsz xperm s } }
      else Some (newsz, s))"

definition uvmalloc :: "uint64 \<Rightarrow> uint64 \<Rightarrow> uint64 \<Rightarrow> uint64 \<Rightarrow> 'z mach_scheme \<Rightarrow>
    (uint64 \<times> 'z mach_scheme) option" where
  "uvmalloc pagetable oldsz newsz xperm s =
     (if newsz < oldsz then Some (oldsz, s)
      else uvmalloc_from pagetable (PGROUNDUP oldsz) (PGROUNDUP oldsz) newsz xperm s)"

lemma for_each_mono [partial_function_mono]:
  assumes "\<And>i s. mono_option (\<lambda>f. B f i s)"
  shows "mono_option (\<lambda>f. for_each (B f) is s)"
proof (induction "is" arbitrary: s)
  case Nil
  show ?case by (simp add: option.const_mono)
next
  case (Cons i "is")
  show ?case by (simp add: bind_mono assms Cons)
qed

partial_function (option) freewalk :: "uint64 \<Rightarrow> 'z mach_scheme \<Rightarrow> 'z mach_scheme option" where
  "freewalk pagetable s =
     do { s \<leftarrow> for_each (\<lambda>i s.
            let pte = ld_pte s (pagetable + 8 * of_nat i)
            in if pte AND PTE_V \<noteq> 0 \<and> pte AND (PTE_R OR PTE_W OR PTE_X) = 0
               then do { s \<leftarrow> freewalk (PTE2PA pte) s;
                         Some (st_pte (pagetable + 8 * of_nat i) 0 s) }
               else if pte AND PTE_V \<noteq> 0 then None
               else Some s) [0..<512] s;
          kfree pagetable s }"

definition uvmfree :: "uint64 \<Rightarrow> uint64 \<Rightarrow> 'z mach_scheme \<Rightarrow> 'z mach_scheme option" where
  "uvmfree pagetable sz s =
     do { s \<leftarrow> (if sz > 0 then uvmunmap pagetable 0 (PGROUNDUP sz div PGSIZE) True s else Some s);
          freewalk pagetable s }"

partial_function (option) uvmcopy_from ::
  "uint64 \<Rightarrow> uint64 \<Rightarrow> uint64 \<Rightarrow> uint64 \<Rightarrow> 'z mach_scheme \<Rightarrow> (int \<times> 'z mach_scheme) option" where
  "uvmcopy_from old new i sz s =
     (if i < sz then
        do { (pte, s) \<leftarrow> walk old i False s;
             if pte = 0 \<or> ld_pte s pte AND PTE_V = 0 then uvmcopy_from old new (i + PGSIZE) sz s
             else do {
               let pa = PTE2PA (ld_pte s pte);
               let flags = PTE_FLAGS (ld_pte s pte);
               (pg, s) \<leftarrow> kalloc s;
               if pg = 0
               then do { s \<leftarrow> uvmunmap new 0 (i div PGSIZE) True s; Some (-1, s) }
               else do {
                 let s = s\<lparr>mem := memmove (mem s) (unat pg) (unat pa) (unat PGSIZE)\<rparr>;
                 (r, s) \<leftarrow> mappages new i PGSIZE pg flags s;
                 if r \<noteq> 0
                 then do { s \<leftarrow> kfree pg s;
                           s \<leftarrow> uvmunmap new 0 (i div PGSIZE) True s;
                           Some (-1, s) }
                 else uvmcopy_from old new (i + PGSIZE) sz s } } }
      else Some (0, s))"

definition uvmcopy :: "uint64 \<Rightarrow> uint64 \<Rightarrow> uint64 \<Rightarrow> 'z mach_scheme \<Rightarrow> (int \<times> 'z mach_scheme) option" where
  "uvmcopy old new sz s = uvmcopy_from old new 0 sz s"

definition uvmclear :: "uint64 \<Rightarrow> uint64 \<Rightarrow> 'z mach_scheme \<Rightarrow> 'z mach_scheme option" where
  "uvmclear pagetable va s =
     do { (pte, s) \<leftarrow> walk pagetable va False s;
          if pte = 0 then None
          else Some (st_pte pte (ld_pte s pte AND NOT PTE_U) s) }"

section \<open>Frame: only memory and the free list change\<close>

text \<open>
  The state with memory and free list blanked out. Every function above leaves it alone,
  whatever its result; so the process table, the locks held and all else are unchanged.
\<close>

definition rest :: "'z mach_scheme \<Rightarrow> 'z mach_scheme" where
  "rest s = s\<lparr>mem := (\<lambda>_. 0), freelist := 0\<rparr>"

lemma rest_upd [simp]: "rest (s\<lparr>mem := m\<rparr>) = rest s" "rest (s\<lparr>freelist := f\<rparr>) = rest s"
  by (simp_all add: rest_def)

lemma rest_st [simp]: "rest (st_pte pte v s) = rest s" "rest (zero_page pa s) = rest s"
  by (simp_all add: st_pte_def zero_page_def)

lemma rest_fields:
  assumes "rest t = rest s"
  shows "held t = held s" "intena t = intena s" "hartid t = hartid s" "klog t = klog s"
    "kend t = kend s" "mach.more t = mach.more s"
proof -
  have "held (rest s) = held s" "intena (rest s) = intena s" "hartid (rest s) = hartid s"
    "klog (rest s) = klog s" "kend (rest s) = kend s" "mach.more (rest s) = mach.more s" for s :: "'a mach_scheme"
    by (simp_all add: rest_def)
  then show "held t = held s" "intena t = intena s" "hartid t = hartid s" "klog t = klog s"
    "kend t = kend s" "mach.more t = mach.more s" using assms by metis+
qed

lemma rest_eqI:
  assumes "held t = held s" "intena t = intena s" "hartid t = hartid s" "klog t = klog s"
    "kend t = kend s" "mach.more t = mach.more s"
  shows "rest t = rest s"
  using assms by (simp add: rest_def)

lemma kalloc_rest: "kalloc s = Some (p, t) \<Longrightarrow> rest t = rest s"
  by (auto simp: kalloc_def acquire_Some_iff release_Some_iff Let_def rest_def split: Option.bind_splits if_splits)

lemma kfree_rest: "kfree p s = Some t \<Longrightarrow> rest t = rest s"
  by (auto simp: kfree_def acquire_Some_iff release_Some_iff Let_def rest_def split: Option.bind_splits if_splits)

lemma walk_from_rest: "walk_from l pt va al s = Some (p, t) \<Longrightarrow> rest t = rest s"
  by (induction l pt va al s rule: walk_from.induct)
     (auto simp: Let_def dest!: kalloc_rest split: Option.bind_splits if_splits prod.splits)

lemma walk_rest: "walk pt va al s = Some (p, t) \<Longrightarrow> rest t = rest s"
  by (auto simp: walk_def dest: walk_from_rest split: if_splits)


lemmas bind_frames = Option.bind_splits if_splits prod.splits

lemma mappages_from_rest:
  assumes "mappages_from pt a final pa perm s = Some y"
  shows "rest (snd y) = rest s"
  using assms
  by (rule mappages_from.raw_induct [where P = "\<lambda>_ _ _ _ _ s y. rest (snd y) = rest s", rotated])
     (auto simp: Let_def dest!: walk_rest split: bind_frames)

lemma mappages_rest: "mappages pt va sz pa perm s = Some (r, t) \<Longrightarrow> rest t = rest s"
  by (auto simp: mappages_def dest: mappages_from_rest split: if_splits)

lemma kvmmap_rest: "kvmmap pt va pa sz perm s = Some t \<Longrightarrow> rest t = rest s"
  by (auto simp: kvmmap_def dest: mappages_rest split: bind_frames)

lemma uvmcreate_rest: "uvmcreate s = Some (p, t) \<Longrightarrow> rest t = rest s"
  by (auto simp: uvmcreate_def dest: kalloc_rest split: bind_frames)

lemma unmap_page_rest: "unmap_page pt a fr s = Some t \<Longrightarrow> rest t = rest s"
  by (auto simp: unmap_page_def dest!: walk_rest kfree_rest split: bind_frames)

lemma uvmunmap_from_rest:
  assumes "uvmunmap_from pt a e fr s = Some t"
  shows "rest t = rest s"
  using assms
  by (rule uvmunmap_from.raw_induct [where P = "\<lambda>_ _ _ _ s t. rest t = rest s", rotated])
     (auto dest!: unmap_page_rest split: bind_frames)

lemma uvmunmap_rest: "uvmunmap pt va n fr s = Some t \<Longrightarrow> rest t = rest s"
  by (auto simp: uvmunmap_def dest: uvmunmap_from_rest split: if_splits)

lemma uvmdealloc_rest: "uvmdealloc pt o' n s = Some (r, t) \<Longrightarrow> rest t = rest s"
  by (auto simp: uvmdealloc_def Let_def dest: uvmunmap_rest split: bind_frames)

lemma uvmalloc_from_rest:
  assumes "uvmalloc_from pt a o' n x s = Some y"
  shows "rest (snd y) = rest s"
  using assms
  by (rule uvmalloc_from.raw_induct [where P = "\<lambda>_ _ _ _ _ s y. rest (snd y) = rest s", rotated])
     (auto simp: Let_def dest!: kalloc_rest kfree_rest mappages_rest uvmdealloc_rest split: bind_frames)

lemma uvmalloc_rest: "uvmalloc pt o' n x s = Some (r, t) \<Longrightarrow> rest t = rest s"
  by (auto simp: uvmalloc_def dest: uvmalloc_from_rest split: if_splits)

lemma freewalk_rest:
  assumes "freewalk pt s = Some t"
  shows "rest t = rest s"
  using assms
proof (rule freewalk.raw_induct [where P = "\<lambda>_ s t. rest t = rest s", rotated])
  fix fw :: "uint64 \<Rightarrow> 'a mach_scheme \<Rightarrow> 'a mach_scheme option" and pagetable and s t :: "'a mach_scheme"
  assume ih: "\<And>p s t. fw p s = Some t \<Longrightarrow> rest t = rest s"
  let ?body = "\<lambda>i s.
            let pte = ld_pte s (pagetable + 8 * of_nat i)
            in if pte AND PTE_V \<noteq> 0 \<and> pte AND (PTE_R OR PTE_W OR PTE_X) = 0
               then do { s \<leftarrow> fw (PTE2PA pte) s;
                         Some (st_pte (pagetable + 8 * of_nat i) 0 s) }
               else if pte AND PTE_V \<noteq> 0 then None
               else Some s"
  assume "do { s \<leftarrow> for_each ?body [0..<512] s; kfree pagetable s } = Some t"
  then obtain u where u: "for_each ?body [0..<512] s = Some u" "kfree pagetable u = Some t"
    by (auto split: Option.bind_splits)
  have "rest u = rest s"
    by (rule for_each_inv [OF u(1), where P = "\<lambda>u. rest u = rest s"])
       (auto simp: Let_def dest: ih split: bind_frames)
  with u(2) show "rest t = rest s" by (auto dest: kfree_rest)
qed

lemma uvmfree_rest: "uvmfree pt sz s = Some t \<Longrightarrow> rest t = rest s"
  by (auto simp: uvmfree_def dest!: freewalk_rest uvmunmap_rest split: bind_frames)

lemma uvmcopy_from_rest:
  assumes "uvmcopy_from old new i sz s = Some y"
  shows "rest (snd y) = rest s"
  using assms
  by (rule uvmcopy_from.raw_induct [where P = "\<lambda>_ _ _ _ s y. rest (snd y) = rest s", rotated])
     (auto simp: Let_def dest!: walk_rest kalloc_rest kfree_rest mappages_rest uvmunmap_rest split: bind_frames)

lemma uvmcopy_rest: "uvmcopy old new sz s = Some (r, t) \<Longrightarrow> rest t = rest s"
  by (auto simp: uvmcopy_def dest: uvmcopy_from_rest)

end
