(* ===== verification/Pagetable.thy ===== *)
theory Pagetable
  imports Vm
begin

text \<open>
  Correctness of the page-table code of theory \<open>Vm\<close>: the tables reachable from a root form
  a tree of distinct pages, the walk computes the abstract map from virtual pages to
  entries, and mapping a page changes that map at one point only.
\<close>

section \<open>Entries and indices\<close>

lemma PTE_V_bit: "pte AND PTE_V \<noteq> 0 \<longleftrightarrow> bit pte 0"
  by (simp add: PTE_V_def and_one_eq mod_2_eq_odd bit_0)

lemma PTE_V_unset: "pte AND PTE_V = 0 \<longleftrightarrow> \<not> bit pte 0"
  using PTE_V_bit by blast

lemma PTE2PA_PA2PTE:
  assumes "pa mod PGSIZE = 0" "pa < PHYSTOP" "\<And>i. bit f i \<Longrightarrow> i < 10"
  shows "PTE2PA (PA2PTE pa OR f) = pa"
proof (rule bit_word_eqI)
  fix i assume "i < LENGTH(64)"
  have lo: "i < 12 \<Longrightarrow> \<not> bit pa i"
  proof -
    have "unat (take_bit 12 pa) = take_bit 12 (unat pa)" by (rule unsigned_take_bit_eq)
    also have "\<dots> = 0" using assms(1) unfolding aligned_unat by (simp add: take_bit_eq_mod)
    finally have "take_bit 12 pa = 0" by (simp only: unat_eq_zero)
    then show "i < 12 \<Longrightarrow> \<not> bit pa i" by (metis bit_0_eq bit_take_bit_iff bot_apply bot_bool_def)
  qed
  have "unat pa < 2 ^ 32"
    using assms(2) by (simp add: PHYSTOP_def KERNBASE_def word_less_nat_alt)
  then have "take_bit 32 pa = pa"
    by (simp add: word_unat_eq_iff take_bit_eq_mod unat_mod)
  then have hi: "bit pa i \<Longrightarrow> i < 32" by (metis bit_take_bit_iff)
  have "\<not> bit f (i - 12 + 10)" if "12 \<le> i" using assms(3) [of "i - 12 + 10"] by auto
  then show "bit (PTE2PA (PA2PTE pa OR f)) i = bit pa i"
    using lo hi \<open>i < LENGTH(64)\<close>
    by (cases "i < 12") (auto simp: PTE2PA_def PA2PTE_def bit_push_bit_iff bit_drop_bit_eq bit_or_iff)
qed

definition px :: "nat \<Rightarrow> uint64 \<Rightarrow> nat" where
  "px l va = unat (PX l va)"

lemma px_eq: "px l va = unat va div 2 ^ (12 + 9 * l) mod 512"
proof -
  have "PXMASK = mask 9" by (simp add: PXMASK_def mask_eq_exp_minus_1)
  then have "PX l va = take_bit 9 (drop_bit (12 + 9 * l) va)"
    unfolding take_bit_eq_mask by (simp add: PX_def PXSHIFT_def PGSHIFT_def)
  then have "px l va = take_bit 9 (unat (drop_bit (12 + 9 * l) va))"
    unfolding px_def by (simp only: unsigned_take_bit_eq)
  then show ?thesis unfolding unat_drop_bit_eq by (simp add: drop_bit_eq_div take_bit_eq_mod)
qed

lemma px_less: "px l va < 512"
  by (simp add: px_eq)

text \<open>Below \<open>MAXVA\<close> the three indices determine the page.\<close>

lemma px_inj:
  assumes "va < MAXVA" "vb < MAXVA"
  shows "px 2 va = px 2 vb \<and> px 1 va = px 1 vb \<and> px 0 va = px 0 vb \<longleftrightarrow>
    unat va div 4096 = unat vb div 4096"
proof -
  have lt: "unat x div 4096 < 512 * 512 * 512" if "x < MAXVA" for x :: uint64
    using that by (simp add: MAXVA_def word_less_nat_alt)
  have *: "px 2 x = unat x div 4096 div 512 div 512 mod 512"
      "px 1 x = unat x div 4096 div 512 mod 512" "px 0 x = unat x div 4096 mod 512" for x
    by (simp_all add: px_eq div_mult2_eq [symmetric])
  have split: "n = (n div 512 div 512 mod 512) * 512 * 512 + (n div 512 mod 512) * 512 + n mod 512"
    if "n < 512 * 512 * 512" for n :: nat
  proof -
    have "n div 512 div 512 mod 512 = n div 512 div 512"
      using that by (intro mod_less) (simp add: div_mult2_eq [symmetric] less_mult_imp_div_less)
    then show ?thesis using div_mult_mod_eq [of n 512] div_mult_mod_eq [of "n div 512" 512] by linarith
  qed
  show ?thesis unfolding * using split [OF lt [OF assms(1)]] split [OF lt [OF assms(2)]] by metis
qed

section \<open>The tree of tables\<close>

definition ent :: "bytes \<Rightarrow> uint64 \<Rightarrow> nat \<Rightarrow> uint64" where
  "ent m pt i = ld64 m (unat pt + 8 * i)"

definition child :: "bytes \<Rightarrow> uint64 \<Rightarrow> nat \<Rightarrow> uint64 option" where
  "child m pt i = (if bit (ent m pt i) 0 then Some (PTE2PA (ent m pt i)) else None)"

fun table :: "bytes \<Rightarrow> uint64 \<Rightarrow> nat list \<Rightarrow> uint64 option" where
  "table m r [] = Some r"
| "table m r (i # is) = Option.bind (child m r i) (\<lambda>c. table m c is)"

lemma table_snoc: "table m r (is @ [i]) = Option.bind (table m r is) (\<lambda>t. child m t i)"
  by (induction "is" arbitrary: r) (auto split: Option.bind_splits)

definition paths :: "nat list set" where
  "paths = {p. length p \<le> 2 \<and> set p \<subseteq> {..<512}}"

definition pt_wf :: "'z mach_scheme \<Rightarrow> uint64 \<Rightarrow> bool" where
  "pt_wf s r \<longleftrightarrow>
     (\<forall>p \<in> paths. \<forall>t. table (mem s) r p = Some t \<longrightarrow> page_ok s t \<and> t \<noteq> 0) \<and>
     (\<forall>p \<in> paths. \<forall>q \<in> paths. \<forall>t. table (mem s) r p = Some t \<longrightarrow> table (mem s) r q = Some t \<longrightarrow> p = q)"

definition tabs :: "bytes \<Rightarrow> uint64 \<Rightarrow> uint64 set" where
  "tabs m r = {t. \<exists>p \<in> paths. table m r p = Some t}"

text \<open>The entry of virtual address \<open>va\<close>, 0 if its last-level table does not exist.\<close>

definition leaf :: "bytes \<Rightarrow> uint64 \<Rightarrow> uint64 \<Rightarrow> uint64 option" where
  "leaf m r va = table m r [px 2 va, px 1 va]"

definition pte_of :: "bytes \<Rightarrow> uint64 \<Rightarrow> uint64 \<Rightarrow> uint64" where
  "pte_of m r va = (case leaf m r va of None \<Rightarrow> 0 | Some t \<Rightarrow> ent m t (px 0 va))"

definition vm_ok :: "'z mach_scheme \<Rightarrow> uint64 list \<Rightarrow> uint64 \<Rightarrow> bool" where
  "vm_ok s xs r \<longleftrightarrow> free_pages s xs \<and> pt_wf s r \<and> tabs (mem s) r \<inter> set xs = {}"

lemma pt_wf_page:
  "pt_wf s r \<Longrightarrow> p \<in> paths \<Longrightarrow> table (mem s) r p = Some t \<Longrightarrow> page_ok s t \<and> t \<noteq> 0"
  unfolding pt_wf_def by blast

lemma pt_wf_inj:
  "pt_wf s r \<Longrightarrow> p \<in> paths \<Longrightarrow> q \<in> paths \<Longrightarrow> table (mem s) r p = Some t \<Longrightarrow>
    table (mem s) r q = Some t \<Longrightarrow> p = q"
  unfolding pt_wf_def by blast

lemma page_ok_top: "page_ok s t \<Longrightarrow> unat t + 4096 \<le> 4096 * 557056 \<and> 4096 dvd unat t"
proof -
  assume "page_ok s t"
  then have "4096 dvd unat t" "unat t < 4096 * 557056"
    using PHYSTOP_unat unfolding page_ok_def aligned_unat word_less_nat_alt by auto
  then show ?thesis by (auto elim!: dvdE)
qed

lemma pte_addr_unat: "page_ok s t \<Longrightarrow> unat (pte_addr t l va) = unat t + 8 * px l va"
  using page_ok_top [of s t] px_less [of l va]
  by (simp add: pte_addr_def px_def unat_word_ariths)

lemma ld_pte_ent: "page_ok s t \<Longrightarrow> ld_pte s (pte_addr t l va) = ent (mem s) t (px l va)"
  by (simp add: ld_pte_def ent_def pte_addr_unat [of s])

section \<open>Walking without allocation\<close>

lemma paths_va [simp]: "[] \<in> paths" "[px 2 va] \<in> paths" "[px 2 va, px 1 va] \<in> paths"
  by (simp_all add: paths_def px_less)

lemma walk_no_alloc:
  assumes wf: "pt_wf s r" and va: "va < MAXVA"
  shows "walk r va False s =
    Some (case leaf (mem s) r va of None \<Rightarrow> 0 | Some t \<Rightarrow> pte_addr t 0 va, s)"
proof -
  have r: "page_ok s r" using pt_wf_page [OF wf, of "[]"] by simp
  show ?thesis
  proof (cases "child (mem s) r (px 2 va)")
    case None
    then show ?thesis using va r
      by (simp add: walk_def numeral_2_eq_2 Let_def ld_pte_ent PTE_V_bit leaf_def child_def
          split: if_splits)
  next
    case (Some t)
    then have t: "page_ok s t" using pt_wf_page [OF wf, of "[px 2 va]" t] by simp
    with Some show ?thesis using va r
      by (auto simp: walk_def numeral_2_eq_2 Let_def ld_pte_ent PTE_V_bit leaf_def child_def
          split: if_splits)
  qed
qed

lemma walk_present:
  assumes wf: "pt_wf s r" and va: "va < MAXVA" and l: "leaf (mem s) r va = Some t"
  shows "walk r va alloc s = Some (pte_addr t 0 va, s)"
proof -
  have r: "page_ok s r" using pt_wf_page [OF wf, of "[]"] by simp
  obtain c where c: "child (mem s) r (px 2 va) = Some c" "child (mem s) c (px 1 va) = Some t"
    using l by (auto simp: leaf_def split: Option.bind_splits)
  then have "page_ok s c" using pt_wf_page [OF wf, of "[px 2 va]" c] by simp
  with c show ?thesis using va r
    by (auto simp: walk_def numeral_2_eq_2 Let_def ld_pte_ent PTE_V_bit child_def split: if_splits)
qed

lemma paths_va_Suc [simp]: "[px 2 va, px (Suc 0) va] \<in> paths"
  using paths_va(3) by simp

lemma leaf_page:
  "pt_wf s r \<Longrightarrow> leaf (mem s) r va = Some t \<Longrightarrow> page_ok s t \<and> pte_addr t 0 va \<noteq> 0"
  using pt_wf_page [of s r "[px 2 va, px 1 va]" t] pte_addr_unat [of s t 0 va]
  by (auto simp: leaf_def unat_eq_zero [symmetric] simp del: unat_eq_zero)

section \<open>Adding a table\<close>

lemma ent_frame:
  assumes "page_ok s t" "page_ok s u" "t \<noteq> u" "i < 512"
    and "\<And>a. a < unat u \<or> unat u + 4096 \<le> a \<Longrightarrow> m' a = m a"
  shows "ent m' t i = ent m t i"
proof -
  have "t mod PGSIZE = 0" "u mod PGSIZE = 0" using assms(1,2) by (simp_all only: page_ok_def)
  then have "unat t + 4096 \<le> unat u \<or> unat u + 4096 \<le> unat t"
    using assms(3) by (rule aligned_disjoint)
  then show ?thesis using assms(4) unfolding ent_def by (intro ldn_cong assms(5)) auto
qed

lemma ent_st:
  assumes "i < 512" "j < 512"
  shows "ent (st64 m (unat t + 8 * i) v) t j = (if i = j then v else ent m t j)"
proof (cases "i = j")
  case False
  then have "unat t + 8 * j + 8 \<le> unat t + 8 * i \<or> unat t + 8 * i + 8 \<le> unat t + 8 * j" by linarith
  with False show ?thesis by (simp add: ent_def ldn_stn_disjoint)
qed (simp add: ent_def ldn_stn_same)

lemma child_ent: "ent m' t i = ent m t i \<Longrightarrow> child m' t i = child m t i"
  by (simp add: child_def)

text \<open>One new child: the tree gains the path to it and nothing else changes.\<close>

lemma table_grow:
  assumes wf: "pt_wf s r" and p: "p \<in> paths" "length p < 2" "table (mem s) r p = Some t"
    and i: "i < 512" "child (mem s) t i = None"
    and old: "\<And>u j. u \<in> tabs (mem s) r \<Longrightarrow> j < 512 \<Longrightarrow>
      child m' u j = (if u = t \<and> j = i then Some x else child (mem s) u j)"
    and new: "\<And>j. j < 512 \<Longrightarrow> child m' x j = None"
    and q: "q \<in> paths"
  shows "table m' r q = (if q = p @ [i] then Some x else table (mem s) r q)"
  using q
proof (induction q rule: rev_induct)
  case Nil
  then show ?case by simp
next
  case (snoc j q)
  then have q: "q \<in> paths" and j: "j < 512" by (auto simp: paths_def)
  note ih = snoc.IH [OF q]
  show ?case
  proof (cases "q = p @ [i]")
    case True
    have "table (mem s) r q = None" using True p(3) i(2) by (simp add: table_snoc)
    moreover have "table m' r q = Some x" using ih True by simp
    ultimately have "table (mem s) r (q @ [j]) = None" "table m' r (q @ [j]) = None"
      using new [OF j] by (simp_all only: table_snoc bind.simps)
    then show ?thesis using True by auto
  next
    case False
    then have eq: "table m' r q = table (mem s) r q" using ih by simp
    show ?thesis
    proof (cases "table (mem s) r q")
      case None
      then have "q \<noteq> p" using p(3) by auto
      with None eq show ?thesis by (simp add: table_snoc)
    next
      case (Some u)
      then have "u \<in> tabs (mem s) r" using q by (auto simp: tabs_def)
      moreover have "u = t \<longleftrightarrow> q = p" using pt_wf_inj [OF wf q p(1)] Some p(3) by auto
      ultimately show ?thesis using Some eq old [OF _ j, of u] by (simp add: table_snoc)
    qed
  qed
qed

text \<open>What \<open>walk\<close> does when a table is missing: take a page, clear it and link it.\<close>

definition add_table :: "uint64 \<Rightarrow> nat \<Rightarrow> uint64 \<Rightarrow> bytes \<Rightarrow> bytes" where
  "add_table t i x m =
     st64 (memset m (unat x) 0 4096) (unat t + 8 * i) (PA2PTE x OR PTE_V)"

lemma add_table_ent:
  assumes "page_ok s t" "page_ok s x" "t \<noteq> x" "i < 512" "j < 512"
    and m: "\<And>a. a < unat x \<or> unat x + 4096 \<le> a \<Longrightarrow> m a = mem s a"
  shows "u \<noteq> x \<Longrightarrow> page_ok s u \<Longrightarrow> ent (add_table t i x m) u j =
      (if u = t \<and> j = i then PA2PTE x OR PTE_V else ent (mem s) u j)"
    and "ent (add_table t i x m) x j = 0"
proof -
  let ?z = "memset m (unat x) 0 4096"
  have z: "ent ?z u j = ent (mem s) u j" if "u \<noteq> x" "page_ok s u" for u
    using that assms(2,5) m by (intro ent_frame [of s u x]) (auto simp: memset_apply)
  have w: "\<And>a. a < unat t \<or> unat t + 4096 \<le> a \<Longrightarrow> add_table t i x m a = ?z a"
    using assms(4) by (auto simp: add_table_def stn_apply)
  show "u \<noteq> x \<Longrightarrow> page_ok s u \<Longrightarrow> ent (add_table t i x m) u j =
      (if u = t \<and> j = i then PA2PTE x OR PTE_V else ent (mem s) u j)"
  proof (cases "u = t")
    case True
    then show "u \<noteq> x \<Longrightarrow> page_ok s u \<Longrightarrow> ?thesis"
      using z [of u] ent_st [OF assms(4,5)] by (auto simp: add_table_def)
  next
    case False
    then show "u \<noteq> x \<Longrightarrow> page_ok s u \<Longrightarrow> ?thesis"
      using z [of u] ent_frame [OF _ assms(1) False assms(5) w] by auto
  qed
  have "ent (add_table t i x m) x j = ent ?z x j"
    using ent_frame [OF assms(2,1) assms(3) [symmetric] assms(5) w] .
  also have "\<dots> = 0" using assms(5) by (simp add: ent_def memset_ldn_zero)
  finally show "ent (add_table t i x m) x j = 0" .
qed

text \<open>
  \<open>vm_ext s xs u ys r\<close>: from \<open>s\<close> with free pages \<open>xs\<close> to \<open>u\<close> with free pages \<open>ys\<close> the tree
  below \<open>r\<close> may only have gained empty tables made of free pages.
\<close>

definition vm_ext ::
  "'z mach_scheme \<Rightarrow> uint64 list \<Rightarrow> 'z mach_scheme \<Rightarrow> uint64 list \<Rightarrow> uint64 \<Rightarrow> bool" where
  "vm_ext s xs u ys r \<longleftrightarrow> vm_ok u ys r \<and> page_ok u = page_ok s \<and> held u = held s \<and>
     tabs (mem u) r \<union> set ys = tabs (mem s) r \<union> set xs \<and>
     (\<forall>d a. page_ok s d \<and> d \<notin> tabs (mem s) r \<union> set xs \<and> unat d \<le> a \<and> a < unat d + 4096 \<longrightarrow>
        mem u a = mem s a) \<and>
     (\<forall>va. pte_of (mem u) r va = pte_of (mem s) r va)"

lemma vm_ext_refl: "vm_ok s xs r \<Longrightarrow> vm_ext s xs s xs r"
  by (simp add: vm_ext_def)

lemma vm_ext_trans: "vm_ext s xs t ys r \<Longrightarrow> vm_ext t ys u zs r \<Longrightarrow> vm_ext s xs u zs r"
  unfolding vm_ext_def by simp

text \<open>The state \<open>v\<close> after page \<open>x\<close> became the table at path \<open>p @ [i]\<close>, in table \<open>t\<close>.\<close>

definition grown ::
  "'z mach_scheme \<Rightarrow> uint64 \<Rightarrow> uint64 list \<Rightarrow> uint64 \<Rightarrow> nat list \<Rightarrow> nat \<Rightarrow> uint64 \<Rightarrow>
   'z mach_scheme \<Rightarrow> bool" where
  "grown s x xs r p i t v \<longleftrightarrow> vm_ok s (x # xs) r \<and> p \<in> paths \<and> length p < 2 \<and>
     table (mem s) r p = Some t \<and> i < 512 \<and> child (mem s) t i = None \<and>
     page_ok v = page_ok s \<and> held v = held s \<and> free_pages v xs \<and>
     (\<exists>m. (\<forall>a. a < unat x \<or> unat x + 4096 \<le> a \<longrightarrow> m a = mem s a) \<and> mem v = add_table t i x m)"

lemma grown_pages:
  assumes "grown s x xs r p i t v"
  shows "page_ok s x" "x \<noteq> 0" "x \<notin> set xs" "x \<notin> tabs (mem s) r" "t \<in> tabs (mem s) r"
    "page_ok s t" "t \<noteq> x" "\<And>w. w \<in> tabs (mem s) r \<Longrightarrow> page_ok s w \<and> w \<noteq> x"
proof -
  have ok: "free_pages s (x # xs)" "pt_wf s r" "tabs (mem s) r \<inter> set (x # xs) = {}"
    "p \<in> paths" "table (mem s) r p = Some t"
    using assms by (auto simp: grown_def vm_ok_def)
  show x: "page_ok s x" "x \<noteq> 0" "x \<notin> set xs" "x \<notin> tabs (mem s) r"
    using ok(1,3) by (auto simp: free_pages_def)
  show w: "page_ok s w \<and> w \<noteq> x" if "w \<in> tabs (mem s) r" for w
    using that x(4) pt_wf_page [OF ok(2)] by (auto simp: tabs_def)
  show "t \<in> tabs (mem s) r" using ok(4,5) by (auto simp: tabs_def)
  from w [OF this] show "page_ok s t" "t \<noteq> x" by auto
qed

lemma grown_ent:
  assumes "grown s x xs r p i t v" "j < 512"
  shows "w \<in> tabs (mem s) r \<Longrightarrow> ent (mem v) w j =
      (if w = t \<and> j = i then PA2PTE x OR PTE_V else ent (mem s) w j)"
    "ent (mem v) x j = 0"
proof -
  note g = grown_pages [OF assms(1)]
  obtain m where m: "\<And>a. a < unat x \<or> unat x + 4096 \<le> a \<Longrightarrow> m a = mem s a"
      "mem v = add_table t i x m" and i: "i < 512"
    using assms(1) unfolding grown_def by blast
  note e = add_table_ent [OF g(6,1,7) i assms(2) m(1)]
  show "w \<in> tabs (mem s) r \<Longrightarrow> ent (mem v) w j =
      (if w = t \<and> j = i then PA2PTE x OR PTE_V else ent (mem s) w j)"
    using e(1) [of w] g(8) [of w] m(2) by simp
  show "ent (mem v) x j = 0" using e(2) m(2) by simp
qed

lemma link_entry:
  assumes "page_ok s x"
  shows "PTE2PA (PA2PTE x OR PTE_V) = x" "bit (PA2PTE x OR PTE_V) 0"
proof -
  have "x mod PGSIZE = 0" "x < PHYSTOP" using assms by (simp_all only: page_ok_def)
  then show "PTE2PA (PA2PTE x OR PTE_V) = x"
    by (rule PTE2PA_PA2PTE) (auto simp: PTE_V_def bit_1_iff)
  show "bit (PA2PTE x OR PTE_V) 0" by (simp add: PTE_V_def bit_or_iff)
qed

lemma grown_table:
  assumes "grown s x xs r p i t v" "q \<in> paths"
  shows "table (mem v) r q = (if q = p @ [i] then Some x else table (mem s) r q)"
proof -
  have wf: "pt_wf s r" and p: "p \<in> paths" "length p < 2" "table (mem s) r p = Some t"
    and i: "i < 512" "child (mem s) t i = None"
    using assms(1) by (simp_all add: grown_def vm_ok_def)
  have "child (mem v) w j = (if w = t \<and> j = i then Some x else child (mem s) w j)"
    if "w \<in> tabs (mem s) r" "j < 512" for w j
    using grown_ent(1) [OF assms(1) that(2,1)] link_entry [OF grown_pages(1) [OF assms(1)]]
    by (auto simp: child_def)
  moreover have "child (mem v) x j = None" if "j < 512" for j
    using grown_ent(2) [OF assms(1) that] by (simp add: child_def)
  ultimately show ?thesis by (rule table_grow [OF wf p i _ _ assms(2)])
qed

lemma grown_path:
  assumes "grown s x xs r p i t v"
  shows "p @ [i] \<in> paths" "table (mem s) r (p @ [i]) = None" "table (mem v) r (p @ [i]) = Some x"
proof -
  show p: "p @ [i] \<in> paths" using assms by (auto simp: grown_def paths_def)
  show "table (mem s) r (p @ [i]) = None" using assms by (simp add: grown_def table_snoc)
  show "table (mem v) r (p @ [i]) = Some x" using grown_table [OF assms p] by simp
qed

lemma grown_tabs:
  assumes "grown s x xs r p i t v"
  shows "tabs (mem v) r = insert x (tabs (mem s) r)"
proof (intro set_eqI iffI)
  fix w assume "w \<in> tabs (mem v) r"
  then obtain q where "q \<in> paths" "table (mem v) r q = Some w" by (auto simp: tabs_def)
  then show "w \<in> insert x (tabs (mem s) r)"
    using grown_table [OF assms, of q] by (auto simp: tabs_def split: if_splits)
next
  fix w assume "w \<in> insert x (tabs (mem s) r)"
  then consider "w = x" | q where "q \<in> paths" "table (mem s) r q = Some w" by (auto simp: tabs_def)
  then show "w \<in> tabs (mem v) r"
  proof cases
    case 1
    then show ?thesis using grown_path [OF assms] by (auto simp: tabs_def)
  next
    case 2
    then have "q \<noteq> p @ [i]" using grown_path(2) [OF assms] by auto
    with 2 show ?thesis using grown_table [OF assms 2(1)] by (auto simp: tabs_def)
  qed
qed

lemma grown_wf:
  assumes "grown s x xs r p i t v"
  shows "pt_wf v r"
proof -
  have wf: "pt_wf s r" and pok: "page_ok v = page_ok s"
    using assms by (simp_all add: grown_def vm_ok_def)
  note g = grown_pages [OF assms] and T = grown_table [OF assms]
  have nx: "table (mem s) r q \<noteq> Some x" if "q \<in> paths" for q
    using that g(4) by (auto simp: tabs_def)
  have "page_ok v w \<and> w \<noteq> 0" if "q \<in> paths" "table (mem v) r q = Some w" for q w
    using that T [OF that(1)] g(1,2) pok pt_wf_page [OF wf that(1)] by (auto split: if_splits)
  moreover have "q = q'" if "q \<in> paths" "q' \<in> paths" "table (mem v) r q = Some w"
      "table (mem v) r q' = Some w" for q q' w
    using that T [OF that(1)] T [OF that(2)] nx [OF that(1)] nx [OF that(2)]
      pt_wf_inj [OF wf that(1,2)] by (auto split: if_splits)
  ultimately show ?thesis unfolding pt_wf_def by blast
qed

lemma grown_data:
  assumes "grown s x xs r p i t v" "page_ok s d" "d \<notin> tabs (mem s) r" "d \<noteq> x"
    "unat d \<le> a" "a < unat d + 4096"
  shows "mem v a = mem s a"
proof -
  note g = grown_pages [OF assms(1)]
  obtain m where m: "\<And>a. a < unat x \<or> unat x + 4096 \<le> a \<Longrightarrow> m a = mem s a"
      "mem v = add_table t i x m" and i: "i < 512"
    using assms(1) unfolding grown_def by blast
  have "d mod PGSIZE = 0" "t mod PGSIZE = 0" "x mod PGSIZE = 0"
    using assms(2) g(1,6) by (simp_all only: page_ok_def)
  moreover have "d \<noteq> t" using assms(3) g(5) by auto
  ultimately have "unat d + 4096 \<le> unat t \<or> unat t + 4096 \<le> unat d"
      "unat d + 4096 \<le> unat x \<or> unat x + 4096 \<le> unat d"
    using aligned_disjoint assms(4) by metis+
  then show ?thesis
    using assms(5,6) i m by (auto simp: add_table_def stn_apply memset_apply)
qed

lemma leaf_tabs: "leaf m r va = Some w \<Longrightarrow> w \<in> tabs m r"
  unfolding leaf_def tabs_def using paths_va(3) by blast

lemma grown_pte:
  assumes "grown s x xs r p i t v"
  shows "pte_of (mem v) r va = pte_of (mem s) r va"
proof -
  have wf: "pt_wf s r" and p: "p \<in> paths" "length p < 2" "table (mem s) r p = Some t"
    using assms by (simp_all add: grown_def vm_ok_def)
  have T: "leaf (mem v) r va =
      (if [px 2 va, px 1 va] = p @ [i] then Some x else leaf (mem s) r va)"
    unfolding leaf_def by (rule grown_table [OF assms paths_va(3)])
  show ?thesis
  proof (cases "leaf (mem s) r va")
    case None
    then show ?thesis using T grown_ent(2) [OF assms px_less] by (simp add: pte_of_def)
  next
    case (Some w)
    have w: "w \<in> tabs (mem s) r" using Some by (rule leaf_tabs)
    have "w \<noteq> t" using pt_wf_inj [OF wf paths_va(3) p(1) Some [unfolded leaf_def]] p(2,3) by auto
    then have "ent (mem v) w (px 0 va) = ent (mem s) w (px 0 va)"
      using grown_ent(1) [OF assms px_less w] by simp
    moreover have "[px 2 va, px 1 va] \<noteq> p @ [i]"
      using Some grown_path(2) [OF assms] unfolding leaf_def by auto
    ultimately show ?thesis using Some T by (auto simp: pte_of_def)
  qed
qed

lemma grown_ext:
  assumes "grown s x xs r p i t v"
  shows "vm_ext s (x # xs) v xs r"
proof -
  note g = grown_pages [OF assms]
  have "free_pages v xs" "page_ok v = page_ok s" "held v = held s"
      "tabs (mem s) r \<inter> set (x # xs) = {}"
    using assms by (auto simp: grown_def vm_ok_def)
  then show ?thesis
    using grown_wf [OF assms] grown_tabs [OF assms] g(3) grown_pte [OF assms]
      grown_data [OF assms]
    unfolding vm_ext_def vm_ok_def by auto
qed

text \<open>The three statements of \<open>walk\<close> that add a table.\<close>

lemma alloc_table:
  fixes s :: "'z mach_scheme"
  assumes ok: "vm_ok s (x # xs) r"
    and p: "p \<in> paths" "length p < 2" "table (mem s) r p = Some t"
    and i: "i = px l va" "child (mem s) t i = None"
  shows "\<exists>u. kalloc s = Some (x, u) \<and> x \<noteq> 0 \<and>
    grown s x xs r p i t (st_pte (pte_addr t l va) (PA2PTE x OR PTE_V) (zero_page x u))"
proof -
  have fp: "free_pages s (x # xs)" using ok by (simp add: vm_ok_def)
  let ?u = "s\<lparr>freelist := ld64 (mem s) (unat x), mem := memset (mem s) (unat x) 5 4096\<rparr>"
  have k: "kalloc s = Some (x, ?u)" and fu: "free_pages ?u xs"
    using kalloc_cons [OF fp] kalloc_cons_free [OF fp] by auto
  have x: "x mod PGSIZE = 0" "x \<notin> set xs" "x \<noteq> 0"
    using fp by (auto simp: free_pages_def page_ok_def)
  have t: "page_ok s t" "t mod PGSIZE = 0" "t \<notin> set xs"
    using pt_wf_page [of s r p t] ok p by (auto simp: vm_ok_def tabs_def page_ok_def)
  let ?z = "zero_page x ?u" and ?v = "st_pte (pte_addr t l va) (PA2PTE x OR PTE_V) (zero_page x ?u)"
  have "free_pages ?z xs"
    by (rule free_pages_frame [OF fu _ x(1,2)]) (auto simp: zero_page_def memset_apply)
  then have "free_pages ?v xs"
  proof (rule free_pages_frame [OF _ _ t(2,3)])
    fix a assume "a < unat t \<or> unat t + 4096 \<le> a"
    then show "mem ?v a = mem ?z a"
      using pte_addr_unat [OF t(1), of l va] px_less [of l va] by (auto simp: st_pte_def stn_apply)
  qed (simp_all add: st_pte_def)
  moreover have "mem ?v = add_table t i x (mem ?u)"
    using t(1) i(1) by (simp add: st_pte_def zero_page_def add_table_def pte_addr_unat [of s])
  moreover have "mem ?u a = mem s a" if "a < unat x \<or> unat x + 4096 \<le> a" for a
    using that by (auto simp: memset_apply)
  moreover have "page_ok ?v = page_ok s" "held ?v = held s"
    by (simp_all add: st_pte_def zero_page_def)
  ultimately have "grown s x xs r p i t ?v"
    unfolding grown_def using ok p i px_less [of l va] by blast
  then show ?thesis using k x(3) by blast
qed

section \<open>Walking with allocation\<close>

text \<open>
  The result of a walk that may allocate: either the free list ran out, or the entry of
  \<open>va\<close> in its last-level table.
\<close>

definition walked :: "'z mach_scheme \<Rightarrow> uint64 list \<Rightarrow> uint64 \<Rightarrow> uint64 \<Rightarrow>
    (uint64 \<times> 'z mach_scheme) option \<Rightarrow> bool" where
  "walked s xs r va res \<longleftrightarrow> (\<exists>pte u ys. res = Some (pte, u) \<and> vm_ext s xs u ys r \<and>
     (pte = 0 \<and> ys = [] \<or> (\<exists>w. leaf (mem u) r va = Some w \<and> pte = pte_addr w 0 va)))"

lemma walked_trans: "vm_ext s xs t ys r \<Longrightarrow> walked t ys r va res \<Longrightarrow> walked s xs r va res"
  unfolding walked_def using vm_ext_trans by blast

lemma walk_level:
  fixes s :: "'z mach_scheme"
  assumes ok: "vm_ok s xs r" and p: "p \<in> paths" "length p < 2" "table (mem s) r p = Some t"
    and rec: "\<And>c v ys. vm_ok v ys r \<Longrightarrow> table (mem v) r (p @ [px (Suc l) va]) = Some c \<Longrightarrow>
      walked v ys r va (walk_from l c va True (v :: 'z mach_scheme))"
  shows "walked s xs r va (walk_from (Suc l) t va True s)"
proof -
  let ?i = "px (Suc l) va" and ?pte = "pte_addr t (Suc l) va"
  have t: "page_ok s t" using pt_wf_page [of s r p t] ok p by (simp add: vm_ok_def)
  note e = ld_pte_ent [OF t, of "Suc l" va]
  show ?thesis
  proof (cases "child (mem s) t ?i")
    case (Some c)
    then have "bit (ent (mem s) t ?i) 0" "c = PTE2PA (ent (mem s) t ?i)"
      by (auto simp: child_def split: if_splits)
    then have "walk_from (Suc l) t va True s = walk_from l c va True s"
      by (simp add: e PTE_V_bit)
    moreover have "table (mem s) r (p @ [?i]) = Some c" using p(3) Some by (simp add: table_snoc)
    ultimately show ?thesis using rec [OF ok] by simp
  next
    case None
    then have nb: "\<not> bit (ent (mem s) t ?i) 0" by (auto simp: child_def split: if_splits)
    show ?thesis
    proof (cases xs)
      case Nil
      then have "kalloc s = Some (0, s)" using ok by (intro kalloc_empty) (simp add: vm_ok_def)
      then have "walk_from (Suc l) t va True s = Some (0, s)" using nb by (simp add: e PTE_V_bit)
      then show ?thesis using ok Nil vm_ext_refl by (auto simp: walked_def)
    next
      case (Cons x ys)
      obtain u where u: "kalloc s = Some (x, u)" "x \<noteq> 0"
          "grown s x ys r p ?i t (st_pte ?pte (PA2PTE x OR PTE_V) (zero_page x u))"
        using alloc_table [OF ok [unfolded Cons] p refl None] by blast
      let ?v = "st_pte ?pte (PA2PTE x OR PTE_V) (zero_page x u)"
      have "walk_from (Suc l) t va True s = walk_from l x va True ?v"
        using nb u(1,2) by (simp add: e PTE_V_bit)
      moreover have "walked ?v ys r va (walk_from l x va True ?v)"
        using rec grown_path(3) [OF u(3)] grown_ext [OF u(3)] by (simp add: vm_ext_def)
      ultimately show ?thesis using walked_trans grown_ext [OF u(3)] Cons by metis
    qed
  qed
qed

lemma walk_alloc:
  assumes ok: "vm_ok s xs r" and va: "va < MAXVA"
  shows "walked s xs r va (walk r va True s)"
proof -
  have l0: "walked v ys r va (walk_from 0 c va True v)"
    if "vm_ok v ys r" "table (mem v) r ([px 2 va] @ [px (Suc 0) va]) = Some c"
    for v :: "'a mach_scheme" and c ys
    using that vm_ext_refl by (auto simp: walked_def leaf_def)
  have l1: "walked v ys r va (walk_from (Suc 0) c va True v)"
    if "vm_ok v ys r" "table (mem v) r ([] @ [px (Suc (Suc 0)) va]) = Some c"
    for v :: "'a mach_scheme" and c ys
    using that(2) l0
    by (intro walk_level [OF that(1) paths_va(2)]) (simp_all add: numeral_2_eq_2)
  have "walked s xs r va (walk_from (Suc (Suc 0)) r va True s)"
    using l1 by (intro walk_level [OF ok paths_va(1)]) simp_all
  then have "walked s xs r va (walk_from 2 r va True s)" by (simp only: numeral_2_eq_2)
  then show ?thesis using va by (auto simp: walk_def)
qed

section \<open>Writing an entry\<close>

text \<open>Two addresses below \<open>MAXVA\<close> are on the same page.\<close>

abbreviation same_page :: "uint64 \<Rightarrow> uint64 \<Rightarrow> bool" where
  "same_page va vb \<equiv> unat va div 4096 = unat vb div 4096"

lemma table_st_leaf:
  assumes wf: "pt_wf s r" and l: "leaf (mem s) r va = Some t" and q: "q \<in> paths"
  shows "table (mem (st_pte (pte_addr t 0 va) e s)) r q = table (mem s) r q"
  using q
proof (induction q rule: rev_induct)
  case (snoc j q)
  have q: "q \<in> paths" "length q < 2" and j: "j < 512" using snoc.prems by (auto simp: paths_def)
  show ?case
  proof (cases "table (mem s) r q")
    case None
    then show ?thesis using snoc.IH [OF q(1)] by (simp add: table_snoc)
  next
    case (Some u)
    have t: "page_ok s t" using leaf_page [OF wf l] by simp
    have "u \<noteq> t"
    proof
      assume "u = t"
      then have "q = [px 2 va, px 1 va]"
        using pt_wf_inj [OF wf q(1) paths_va(3) Some] l by (simp only: leaf_def)
      then show False using q(2) by simp
    qed
    then have "ent (mem (st_pte (pte_addr t 0 va) e s)) u j = ent (mem s) u j"
      using pt_wf_page [OF wf q(1) Some] t j px_less [of 0 va] pte_addr_unat [OF t, of 0 va]
      by (intro ent_frame [of s u t]) (auto simp: st_pte_def stn_apply)
    then have "child (mem (st_pte (pte_addr t 0 va) e s)) u j = child (mem s) u j"
      by (rule child_ent)
    then show ?thesis using Some snoc.IH [OF q(1)] by (simp add: table_snoc)
  qed
qed simp

lemma pte_of_st_leaf:
  assumes wf: "pt_wf s r" and l: "leaf (mem s) r va = Some t" and "va < MAXVA" "vb < MAXVA"
  shows "pte_of (mem (st_pte (pte_addr t 0 va) e s)) r vb =
    (if same_page va vb then e else pte_of (mem s) r vb)"
proof -
  let ?m = "mem (st_pte (pte_addr t 0 va) e s)"
  have t: "page_ok s t" using leaf_page [OF wf l] by simp
  have m: "?m = st64 (mem s) (unat t + 8 * px 0 va) e"
    using pte_addr_unat [OF t, of 0 va] by (simp add: st_pte_def)
  have lb: "leaf ?m r vb = leaf (mem s) r vb"
    unfolding leaf_def by (rule table_st_leaf [OF wf l paths_va(3)])
  show ?thesis
  proof (cases "leaf (mem s) r vb")
    case None
    then have "\<not> same_page va vb"
      using l px_inj [OF assms(3,4)] by (auto simp: leaf_def)
    with None lb show ?thesis by (simp add: pte_of_def)
  next
    case (Some u)
    have u: "page_ok s u" using leaf_page [OF wf Some] by simp
    have "u = t \<longleftrightarrow> px 2 va = px 2 vb \<and> px 1 va = px 1 vb"
      using pt_wf_inj [OF wf paths_va(3) paths_va(3), of va t vb] l Some by (auto simp: leaf_def)
    moreover have "ent ?m u (px 0 vb) = ent (mem s) u (px 0 vb)" if "u \<noteq> t"
      unfolding m using u t that px_less [of 0 va] px_less [of 0 vb]
      by (intro ent_frame [of s u t]) (auto simp: stn_apply)
    moreover have "ent ?m t (px 0 vb) = (if px 0 va = px 0 vb then e else ent (mem s) t (px 0 vb))"
      unfolding m by (rule ent_st [OF px_less px_less])
    ultimately show ?thesis
      using lb Some px_inj [OF assms(3,4)] by (auto simp: pte_of_def split: if_splits)
  qed
qed

lemma st_leaf_ok:
  assumes ok: "vm_ok s xs r" and l: "leaf (mem s) r va = Some t"
  shows "vm_ok (st_pte (pte_addr t 0 va) e s) xs r"
    "tabs (mem (st_pte (pte_addr t 0 va) e s)) r = tabs (mem s) r"
proof -
  let ?v = "st_pte (pte_addr t 0 va) e s"
  have wf: "pt_wf s r" using ok by (simp add: vm_ok_def)
  have t: "page_ok s t" using leaf_page [OF wf l] by simp
  have pok: "page_ok ?v = page_ok s" by (simp add: st_pte_def)
  note T = table_st_leaf [OF wf l]
  show tabs: "tabs (mem ?v) r = tabs (mem s) r" using T by (auto simp: tabs_def)
  have "pt_wf ?v r" using wf T pok unfolding pt_wf_def by simp
  moreover have "free_pages ?v xs"
  proof (rule free_pages_frame [of s xs t])
    fix a assume "a < unat t \<or> unat t + 4096 \<le> a"
    then show "mem ?v a = mem s a"
      using pte_addr_unat [OF t, of 0 va] px_less [of 0 va] by (auto simp: st_pte_def stn_apply)
  next
    show "t mod PGSIZE = 0" using t by (simp only: page_ok_def)
  qed (use ok leaf_tabs [OF l] in \<open>auto simp: vm_ok_def st_pte_def\<close>)
  ultimately show "vm_ok ?v xs r" using ok tabs by (simp add: vm_ok_def)
qed

section \<open>Mapping pages\<close>

lemma PTE_V_bit0 [simp]: "bit (x OR PTE_V) 0" "bit (x OR f OR PTE_V) 0"
  by (simp_all add: PTE_V_def bit_or_iff)

text \<open>Everything except the entries: what mapping keeps.\<close>

definition vm_kept ::
  "'z mach_scheme \<Rightarrow> uint64 list \<Rightarrow> 'z mach_scheme \<Rightarrow> uint64 list \<Rightarrow> uint64 \<Rightarrow> bool" where
  "vm_kept s xs u ys r \<longleftrightarrow> vm_ok u ys r \<and> page_ok u = page_ok s \<and> held u = held s \<and>
     tabs (mem u) r \<union> set ys = tabs (mem s) r \<union> set xs \<and>
     (\<forall>d a. page_ok s d \<and> d \<notin> tabs (mem s) r \<union> set xs \<and> unat d \<le> a \<and> a < unat d + 4096 \<longrightarrow>
        mem u a = mem s a)"

lemma vm_ext_kept: "vm_ext s xs u ys r \<Longrightarrow> vm_kept s xs u ys r"
  by (simp add: vm_ext_def vm_kept_def)

lemma vm_kept_trans: "vm_kept s xs t ys r \<Longrightarrow> vm_kept t ys u zs r \<Longrightarrow> vm_kept s xs u zs r"
  unfolding vm_kept_def by simp

lemma st_leaf_kept:
  assumes ok: "vm_ok s xs r" and l: "leaf (mem s) r va = Some t"
  shows "vm_kept s xs (st_pte (pte_addr t 0 va) e s) xs r"
proof -
  have t: "page_ok s t" using leaf_page [OF _ l] ok by (simp add: vm_ok_def)
  have "mem (st_pte (pte_addr t 0 va) e s) a = mem s a"
    if "page_ok s d" "d \<notin> tabs (mem s) r \<union> set xs" "unat d \<le> a" "a < unat d + 4096" for d a
  proof -
    have "d \<noteq> t" using that(2) leaf_tabs [OF l] by auto
    moreover have "d mod PGSIZE = 0" "t mod PGSIZE = 0" using that(1) t by (simp_all only: page_ok_def)
    ultimately have "unat d + 4096 \<le> unat t \<or> unat t + 4096 \<le> unat d" by (intro aligned_disjoint)
    then show ?thesis
      using that(3,4) pte_addr_unat [OF t, of 0 va] px_less [of 0 va]
      by (auto simp: st_pte_def stn_apply)
  qed
  then show ?thesis
    using st_leaf_ok [OF ok l] unfolding vm_kept_def by (auto simp: st_pte_def)
qed

text \<open>One iteration of the loop of \<open>mappages\<close>.\<close>

lemma map_one:
  assumes ok: "vm_ok s xs r" and va: "va < MAXVA" and un: "\<not> bit (pte_of (mem s) r va) 0"
  shows "(\<exists>u. walk r va True s = Some (0, u) \<and> vm_kept s xs u [] r) \<or>
    (\<exists>pte u ys. walk r va True s = Some (pte, u) \<and> pte \<noteq> 0 \<and> ld_pte u pte AND PTE_V = 0 \<and>
       vm_kept s xs (st_pte pte e u) ys r \<and>
       (\<forall>vb < MAXVA. pte_of (mem (st_pte pte e u)) r vb =
          (if same_page va vb then e else pte_of (mem s) r vb)))"
proof -
  obtain pte u ys where u: "walk r va True s = Some (pte, u)" "vm_ext s xs u ys r"
      "pte = 0 \<and> ys = [] \<or> (\<exists>w. leaf (mem u) r va = Some w \<and> pte = pte_addr w 0 va)"
    using walk_alloc [OF ok va] by (auto simp: walked_def)
  show ?thesis
  proof (cases "pte = 0 \<and> ys = []")
    case True
    then show ?thesis using u vm_ext_kept by blast
  next
    case False
    then obtain w where w: "leaf (mem u) r va = Some w" "pte = pte_addr w 0 va" using u(3) by blast
    have oku: "vm_ok u ys r" and same: "\<And>vb. pte_of (mem u) r vb = pte_of (mem s) r vb"
      using u(2) by (simp_all add: vm_ext_def)
    then have wf: "pt_wf u r" by (simp add: vm_ok_def)
    have "ld_pte u pte = pte_of (mem u) r va"
      using leaf_page [OF wf w(1)] w by (simp add: ld_pte_ent pte_of_def)
    then have "ld_pte u pte AND PTE_V = 0" using un same PTE_V_bit by metis
    moreover have "pte \<noteq> 0" using leaf_page [OF wf w(1)] w(2) by simp
    moreover have "vm_kept s xs (st_pte pte e u) ys r"
      using vm_kept_trans [OF vm_ext_kept [OF u(2)]] st_leaf_kept [OF oku w(1)] w(2) by simp
    moreover have "\<forall>vb < MAXVA. pte_of (mem (st_pte pte e u)) r vb =
          (if same_page va vb then e else pte_of (mem s) r vb)"
      using pte_of_st_leaf [OF wf w(1) va] same w(2) by simp
    ultimately show ?thesis using u(1) by blast
  qed
qed

text \<open>\<open>vb\<close> lies in one of the \<open>n\<close> pages that start at the page-aligned address \<open>va\<close>.\<close>

definition in_pages :: "uint64 \<Rightarrow> nat \<Rightarrow> uint64 \<Rightarrow> bool" where
  "in_pages va n vb \<longleftrightarrow> unat va \<le> unat vb \<and> unat vb < unat va + 4096 * n"

lemma MAXVA_unat: "unat MAXVA = 4096 * 67108864"
  by (simp add: MAXVA_def)

lemma aligned_next:
  assumes "va mod PGSIZE = 0" "unat va + 4096 * Suc n \<le> unat MAXVA"
  shows "unat (va + PGSIZE) = unat va + 4096" "(va + PGSIZE) mod PGSIZE = 0" "va < MAXVA"
    "same_page va vb \<longleftrightarrow> in_pages va 1 vb"
    "in_pages va (Suc n) vb \<longleftrightarrow> in_pages va 1 vb \<or> in_pages (va + PGSIZE) n vb"
    "in_pages va 1 vb \<Longrightarrow> \<not> in_pages (va + PGSIZE) n vb"
proof -
  show nx: "unat (va + PGSIZE) = unat va + 4096"
    using assms(2) MAXVA_unat by (simp add: PGSIZE_def unat_word_ariths)
  have d: "4096 dvd unat va" using assms(1) by (simp only: aligned_unat)
  then show "(va + PGSIZE) mod PGSIZE = 0" unfolding aligned_unat nx by simp
  show "va < MAXVA" using assms(2) by (simp add: word_less_nat_alt)
  from d obtain k where k: "unat va = 4096 * k" by (auto elim!: dvdE)
  then show "same_page va vb \<longleftrightarrow> in_pages va 1 vb"
    unfolding in_pages_def by (auto simp: div_nat_eqI dividend_less_times_div)
  show "in_pages va (Suc n) vb \<longleftrightarrow> in_pages va 1 vb \<or> in_pages (va + PGSIZE) n vb"
    "in_pages va 1 vb \<Longrightarrow> \<not> in_pages (va + PGSIZE) n vb"
    unfolding in_pages_def nx by auto
qed

text \<open>The entry \<open>mappages\<close> writes for an address in the range.\<close>

definition map_pte :: "uint64 \<Rightarrow> uint64 \<Rightarrow> uint64 \<Rightarrow> uint64 \<Rightarrow> uint64" where
  "map_pte va pa perm vb =
     PA2PTE (pa + of_nat ((unat vb - unat va) div 4096) * PGSIZE) OR perm OR PTE_V"

lemma map_pte_first: "in_pages va 1 vb \<Longrightarrow> map_pte va pa perm vb = PA2PTE pa OR perm OR PTE_V"
  by (auto simp: map_pte_def in_pages_def)

lemma map_pte_next:
  assumes "unat (va + PGSIZE) = unat va + 4096" "in_pages (va + PGSIZE) n vb"
  shows "map_pte (va + PGSIZE) (pa + PGSIZE) perm vb = map_pte va pa perm vb"
proof -
  obtain k where k: "unat vb = unat va + 4096 + k"
    using assms by (metis in_pages_def le_add_diff_inverse)
  have "(unat vb - unat va) div 4096 = Suc ((unat vb - unat (va + PGSIZE)) div 4096)"
    unfolding k assms(1) by simp
  then show ?thesis by (simp add: map_pte_def algebra_simps)
qed

lemma mappages_step:
  assumes "vm_ok s xs r" "va < MAXVA" "\<not> bit (pte_of (mem s) r va) 0"
  obtains (full) u where "mappages_from r va final pa perm s = Some (-1, u)" "vm_kept s xs u [] r"
    | (mapped) v ys where "vm_kept s xs v ys r"
        "\<And>vb. vb < MAXVA \<Longrightarrow> pte_of (mem v) r vb =
           (if same_page va vb then PA2PTE pa OR perm OR PTE_V else pte_of (mem s) r vb)"
        "mappages_from r va final pa perm s = (if va = final then Some (0, v)
           else mappages_from r (va + PGSIZE) final (pa + PGSIZE) perm v)"
  using map_one [OF assms, of "PA2PTE pa OR perm OR PTE_V"]
proof (elim disjE exE conjE)
  fix u assume "walk r va True s = Some (0, u)" "vm_kept s xs u [] r"
  then show thesis by (intro full [of u]) (simp_all add: mappages_from.simps [of r va])
next
  fix pte u ys
  assume *: "walk r va True s = Some (pte, u)" "pte \<noteq> 0" "ld_pte u pte AND PTE_V = 0"
    "vm_kept s xs (st_pte pte (PA2PTE pa OR perm OR PTE_V) u) ys r"
    "\<forall>vb < MAXVA. pte_of (mem (st_pte pte (PA2PTE pa OR perm OR PTE_V) u)) r vb =
       (if same_page va vb then PA2PTE pa OR perm OR PTE_V else pte_of (mem s) r vb)"
  have "mappages_from r va final pa perm s =
      (let v = st_pte pte (PA2PTE pa OR perm OR PTE_V) u in if va = final then Some (0, v)
           else mappages_from r (va + PGSIZE) final (pa + PGSIZE) perm v)"
    by (subst mappages_from.simps) (simp add: *(1-3))
  then show thesis using *(4,5) by (intro mapped) (simp_all add: Let_def)
qed

lemma mappages_from_spec:
  fixes s :: "'z mach_scheme"
  assumes "vm_ok s xs r" "va mod PGSIZE = 0" "unat va + 4096 * Suc n \<le> unat MAXVA"
    and "final = va + of_nat n * PGSIZE"
    and "\<And>vb. in_pages va (Suc n) vb \<Longrightarrow> \<not> bit (pte_of (mem s) r vb) 0"
  shows "\<exists>rc t ys. mappages_from r va final pa perm s = Some (rc, t) \<and> vm_kept s xs t ys r \<and>
    (rc = -1 \<and> ys = [] \<or> rc = 0 \<and> (\<forall>vb < MAXVA. pte_of (mem t) r vb =
       (if in_pages va (Suc n) vb then map_pte va pa perm vb else pte_of (mem s) r vb)))"
  using assms
proof (induction n arbitrary: s xs va pa)
  case (0 s xs va pa)
  note nx = aligned_next [OF 0(2,3)]
  have "\<not> bit (pte_of (mem s) r va) 0" using 0(5) by (simp add: in_pages_def)
  from 0(1) nx(3) this show ?case
  proof (cases rule: mappages_step [where pa = pa and perm = perm and final = final])
    case full
    then show ?thesis by blast
  next
    case (mapped v ys)
    then show ?thesis using 0(4) nx(4) map_pte_first [of va] by auto
  qed
next
  case (Suc n s xs va pa)
  note nx = aligned_next [OF Suc.prems(2,3)]
  have big: "Suc n * 4096 < 2 ^ 64" using Suc.prems(3) MAXVA_unat by simp
  have "unat (va + of_nat (Suc n) * PGSIZE) = unat va + Suc n * 4096"
    using Suc.prems(3) MAXVA_unat big
    by (simp only: unat_word_ariths unat_of_nat PGSIZE_unat) simp
  then have ne: "va \<noteq> final" using Suc.prems(4) by auto
  have "\<not> bit (pte_of (mem s) r va) 0" using Suc.prems(5) by (simp add: in_pages_def)
  from Suc.prems(1) nx(3) this show ?case
  proof (cases rule: mappages_step [where pa = pa and perm = perm and final = final])
    case full
    then show ?thesis by blast
  next
    case (mapped v ys)
    have lt: "vb < MAXVA" if "in_pages (va + PGSIZE) (Suc n) vb" for vb
      using that Suc.prems(3) nx(1) by (simp add: in_pages_def word_less_nat_alt)
    have "\<exists>rc t zs. mappages_from r (va + PGSIZE) final (pa + PGSIZE) perm v = Some (rc, t) \<and>
      vm_kept v ys t zs r \<and>
      (rc = -1 \<and> zs = [] \<or> rc = 0 \<and> (\<forall>vb < MAXVA. pte_of (mem t) r vb =
        (if in_pages (va + PGSIZE) (Suc n) vb then map_pte (va + PGSIZE) (pa + PGSIZE) perm vb
         else pte_of (mem v) r vb)))"
    proof (rule Suc.IH)
      show "vm_ok v ys r" using mapped(1) by (simp add: vm_kept_def)
      show "(va + PGSIZE) mod PGSIZE = 0" by (rule nx(2))
      show "unat (va + PGSIZE) + 4096 * Suc n \<le> unat MAXVA" using nx(1) Suc.prems(3) by simp
      show "final = va + PGSIZE + of_nat n * PGSIZE" using Suc.prems(4) by (simp add: algebra_simps)
      show "\<not> bit (pte_of (mem v) r vb) 0" if "in_pages (va + PGSIZE) (Suc n) vb" for vb
        using that mapped(2) [OF lt [OF that]] nx(4-6) [of vb] Suc.prems(5) [of vb] by auto
    qed
    then obtain rc t zs where t: "mappages_from r va final pa perm s = Some (rc, t)"
      "vm_kept v ys t zs r"
      "rc = -1 \<and> zs = [] \<or> rc = 0 \<and> (\<forall>vb < MAXVA. pte_of (mem t) r vb =
        (if in_pages (va + PGSIZE) (Suc n) vb then map_pte (va + PGSIZE) (pa + PGSIZE) perm vb
         else pte_of (mem v) r vb))"
      using mapped(3) ne by auto
    have "(if in_pages (va + PGSIZE) (Suc n) vb then map_pte (va + PGSIZE) (pa + PGSIZE) perm vb
         else pte_of (mem v) r vb) =
        (if in_pages va (Suc (Suc n)) vb then map_pte va pa perm vb else pte_of (mem s) r vb)"
      if "vb < MAXVA" for vb
      using mapped(2) [OF that] nx(4,5) [of vb] map_pte_next [OF nx(1), of "Suc n" vb]
        map_pte_first [of va vb]
      by auto
    then show ?thesis using t vm_kept_trans [OF mapped(1) t(2)] by auto
  qed
qed

section \<open>Looking up addresses\<close>

lemma PTE_U_bit: "pte AND PTE_U = 0 \<longleftrightarrow> \<not> bit pte 4"
proof -
  have "bit (pte AND PTE_U) i \<longleftrightarrow> i = 4 \<and> bit pte 4" for i
    unfolding PTE_U_def bit_and_iff bit_push_bit_iff by (auto simp: bit_1_iff)
  then show ?thesis by (metis bit_0_eq bit_eqI bot_apply bot_bool_def)
qed

lemma pte_of_walk:
  assumes "pt_wf s r" "leaf (mem s) r va = Some t"
  shows "ld_pte s (pte_addr t 0 va) = pte_of (mem s) r va"
  using leaf_page [OF assms] assms(2) by (simp add: ld_pte_ent pte_of_def)

lemma walkaddr_eq:
  assumes wf: "pt_wf s r"
  shows "walkaddr r va s = Some (if va < MAXVA \<and> bit (pte_of (mem s) r va) 0 \<and>
      bit (pte_of (mem s) r va) 4 then PTE2PA (pte_of (mem s) r va) else 0, s)"
proof (cases "va < MAXVA")
  case False
  then show ?thesis by (auto simp: walkaddr_def)
next
  case va: True
  then have nle: "\<not> MAXVA \<le> va" by simp
  show ?thesis
  proof (cases "leaf (mem s) r va")
    case None
    then show ?thesis using va nle walk_no_alloc [OF wf va] by (simp add: walkaddr_def pte_of_def)
  next
    case (Some t)
    then show ?thesis
      using va nle walk_no_alloc [OF wf va] pte_of_walk [OF wf Some] leaf_page [OF wf Some]
      by (auto simp: walkaddr_def PTE_V_unset PTE_U_bit)
  qed
qed

lemma ismapped_eq:
  assumes wf: "pt_wf s r" and va: "va < MAXVA"
  shows "ismapped r va s = Some (bit (pte_of (mem s) r va) 0, s)"
proof (cases "leaf (mem s) r va")
  case None
  then show ?thesis using walk_no_alloc [OF wf va] by (simp add: ismapped_def pte_of_def)
next
  case (Some t)
  then show ?thesis
    using walk_no_alloc [OF wf va] pte_of_walk [OF wf Some] leaf_page [OF wf Some]
    by (auto simp: ismapped_def PTE_V_bit)
qed

section \<open>Properties of the page-table code\<close>

lemma pages_size:
  assumes "unat va + 4096 * Suc n \<le> unat MAXVA"
  shows "(of_nat (Suc n) * PGSIZE :: uint64) mod PGSIZE = 0" "of_nat (Suc n) * PGSIZE \<noteq> (0::uint64)"
    "va + of_nat (Suc n) * PGSIZE - PGSIZE = va + of_nat n * PGSIZE"
proof -
  have "Suc n * 4096 < 2 ^ 64" using assms MAXVA_unat by simp
  then have u: "unat (of_nat (Suc n) * PGSIZE :: uint64) = Suc n * 4096"
    by (simp only: unat_word_ariths unat_of_nat PGSIZE_unat) simp
  then show "(of_nat (Suc n) * PGSIZE :: uint64) mod PGSIZE = 0" unfolding aligned_unat by simp
  show "of_nat (Suc n) * PGSIZE \<noteq> (0::uint64)" using u by (metis mult_is_0 nat.simps(3) unat_0 zero_neq_numeral)
  show "va + of_nat (Suc n) * PGSIZE - PGSIZE = va + of_nat n * PGSIZE" by (simp add: algebra_simps)
qed

text \<open>
  C10: \<open>mappages\<close> of \<open>n\<close> unmapped pages below \<open>MAXVA\<close> returns. It reports success, and then
  the entries of exactly those pages are set, each to its own physical page with the given
  permissions, or it reports failure, and then memory is exhausted. Either way the tables
  stay a tree of distinct pages disjoint from the free pages, no page is lost, and no byte
  outside the tables and the free pages has changed.
\<close>

theorem mappages_maps:
  assumes "vm_ok s xs r" and "va mod PGSIZE = 0" and "unat va + 4096 * Suc n \<le> unat MAXVA"
    and "\<And>vb. in_pages va (Suc n) vb \<Longrightarrow> \<not> bit (pte_of (mem s) r vb) 0"
  shows "\<exists>rc t ys. mappages r va (of_nat (Suc n) * PGSIZE) pa perm s = Some (rc, t) \<and>
    vm_ok t ys r \<and> tabs (mem t) r \<union> set ys = tabs (mem s) r \<union> set xs \<and>
    (\<forall>d a. page_ok s d \<and> d \<notin> tabs (mem s) r \<union> set xs \<and> unat d \<le> a \<and> a < unat d + 4096 \<longrightarrow>
        mem t a = mem s a) \<and>
    (rc = -1 \<and> ys = [] \<or> rc = 0 \<and> (\<forall>vb < MAXVA. pte_of (mem t) r vb =
       (if in_pages va (Suc n) vb then map_pte va pa perm vb else pte_of (mem s) r vb)))"
proof -
  note z = pages_size [OF assms(3)]
  have "mappages r va (of_nat (Suc n) * PGSIZE) pa perm s =
      mappages_from r va (va + of_nat n * PGSIZE) pa perm s"
    unfolding mappages_def z(3) using assms(2) z(1,2) by (simp only: if_False simp_thms)
  then show ?thesis
    using mappages_from_spec [OF assms(1-3) refl assms(4), of pa perm] unfolding vm_kept_def by metis
qed

text \<open>
  \<open>mappages\<close> never silently replaces a mapping: if the first page is already mapped it
  panics, as it does for an address or a size that is not page-aligned and for size 0.
\<close>

theorem mappages_panics:
  assumes "vm_ok s xs r" and "va < MAXVA"
    and "bit (pte_of (mem s) r va) 0 \<or> va mod PGSIZE \<noteq> 0 \<or> sz mod PGSIZE \<noteq> 0 \<or> sz = 0"
  shows "mappages r va sz pa perm s = None"
proof (cases "va mod PGSIZE \<noteq> 0 \<or> sz mod PGSIZE \<noteq> 0 \<or> sz = 0")
  case True
  then show ?thesis by (simp only: mappages_def) auto
next
  case False
  then have b: "bit (pte_of (mem s) r va) 0" using assms(3) by metis
  have wf: "pt_wf s r" using assms(1) by (simp add: vm_ok_def)
  obtain t where t: "leaf (mem s) r va = Some t"
    using b by (auto simp: pte_of_def split: option.splits)
  have "mappages r va sz pa perm s = mappages_from r va (va + sz - PGSIZE) pa perm s"
    using False unfolding mappages_def by metis
  also have "\<dots> = None"
    using leaf_page [OF wf t] pte_of_walk [OF wf t] b
    by (subst mappages_from.simps) (simp add: walk_present [OF wf assms(2) t] PTE_V_bit)
  finally show ?thesis .
qed

text \<open>A machine with an empty root table and two free pages.\<close>

definition pt_ex :: mach where
  "pt_ex = \<lparr>held = [], intena = True, hartid = 0, klog = [],
     mem = st64 (\<lambda>_. 0) 0x87ffd000 0x87ffe000, freelist = 0x87ffd000, kend = 0x87ffd000\<rparr>"

lemma ldn_zero: "ldn n (\<lambda>_. 0) a = (0 :: 'l::len word)"
  by (rule bit_word_eqI) (simp add: bit_ldn)

lemma pt_ex_ld: "ld64 (mem pt_ex) 0x87ffd000 = 0x87ffe000"
    "a + 8 \<le> 0x87ffd000 \<or> 0x87ffd008 \<le> a \<Longrightarrow> ld64 (mem pt_ex) a = 0"
  by (simp_all add: pt_ex_def ldn_stn_same ldn_stn_disjoint ldn_zero)

lemma pt_ex_free: "free_pages pt_ex [0x87ffd000, 0x87ffe000]"
proof -
  have "flist (mem pt_ex) (freelist pt_ex) [0x87ffd000, 0x87ffe000]"
    using pt_ex_ld(1) pt_ex_ld(2) [of "0x87ffe000"] by (simp add: pt_ex_def)
  then show ?thesis
    by (simp add: free_pages_def page_ok_def pt_ex_def PGSIZE_def PHYSTOP_def KERNBASE_def)
qed

lemma pt_ex_child: "i < 512 \<Longrightarrow> child (mem pt_ex) 0x87fff000 i = None"
  using pt_ex_ld(2) [of "0x87fff000 + 8 * i"] by (simp add: child_def ent_def)

lemma pt_ex_table: "p \<in> paths \<Longrightarrow> table (mem pt_ex) 0x87fff000 p = (if p = [] then Some 0x87fff000 else None)"
  by (cases p) (auto simp: paths_def pt_ex_child)

lemma pt_ex_ok: "vm_ok pt_ex [0x87ffd000, 0x87ffe000] 0x87fff000"
proof -
  have "page_ok pt_ex 0x87fff000"
    by (simp add: page_ok_def pt_ex_def PGSIZE_def PHYSTOP_def KERNBASE_def)
  then have "pt_wf pt_ex 0x87fff000" by (auto simp: pt_wf_def pt_ex_table)
  then show ?thesis using pt_ex_free by (auto simp: vm_ok_def tabs_def pt_ex_table)
qed

lemma pt_ex_pte: "pte_of (mem pt_ex) 0x87fff000 va = 0"
  by (simp add: pte_of_def leaf_def pt_ex_table del: table.simps)

theorem mappages_maps_witness:
  "\<exists>rc t ys. mappages 0x87fff000 0x1000 (of_nat (Suc 1) * PGSIZE) 0x80000000 PTE_R pt_ex = Some (rc, t) \<and>
     vm_ok t ys 0x87fff000"
proof -
  have "(0x1000 :: uint64) mod PGSIZE = 0" "unat (0x1000 :: uint64) + 4096 * Suc 1 \<le> unat MAXVA"
    by (simp_all add: PGSIZE_def MAXVA_def)
  then show ?thesis
    using mappages_maps [OF pt_ex_ok, of "0x1000" 1 "0x80000000" PTE_R] pt_ex_pte by fastforce
qed

theorem mappages_panics_witness: "mappages 0x87fff000 0x1001 PGSIZE 0x80000000 PTE_R pt_ex = None"
proof -
  have "(0x1001 :: uint64) < MAXVA" by (simp add: MAXVA_def)
  moreover have "(0x1001 :: uint64) mod PGSIZE \<noteq> 0" by (simp add: PGSIZE_def)
  ultimately show ?thesis using mappages_panics [OF pt_ex_ok, of "0x1001" PGSIZE] by blast
qed

end
