(* ===== verification/Vmcopy.thy ===== *)
theory Vmcopy
  imports Pagetable Proc
begin

text \<open>
  The copies between kernel and user memory of \<^verbatim>\<open>kernel/vm.c\<close>, the allocation of lazily
  grown pages on a fault, and \<open>either_copyout\<close>/\<open>either_copyin\<close> of \<^verbatim>\<open>kernel/proc.c\<close>.

  The kernel's own buffers (local variables, cached blocks) are byte arrays of their own,
  separate from the physical memory that holds user pages and page tables: a kernel pointer
  is such an array and an offset into it.
\<close>

section \<open>Operations\<close>

definition blit :: "bytes \<Rightarrow> nat \<Rightarrow> bytes \<Rightarrow> nat \<Rightarrow> nat \<Rightarrow> bytes" where
  "blit dst d src so n = (\<lambda>x. if d \<le> x \<and> x < d + n then src (so + (x - d)) else dst x)"

definition vmfault :: "uint64 \<Rightarrow> uint64 \<Rightarrow> 'z kern_scheme \<Rightarrow> (uint64 \<times> 'z kern_scheme) option" where
  "vmfault pagetable va s =
     do { p \<leftarrow> myproc s;
          if va \<ge> p_sz (procs s p) then Some (0, s)
          else do {
            let va = PGROUNDDOWN va;
            (mapped, s) \<leftarrow> ismapped pagetable va s;
            if mapped then Some (0, s)
            else do {
              (pg, s) \<leftarrow> kalloc s;
              if pg = 0 then Some (0, s)
              else do {
                let s = zero_page pg s;
                (r, s) \<leftarrow> mappages (p_pagetable (procs s p)) va PGSIZE pg (PTE_W OR PTE_U OR PTE_R) s;
                if r \<noteq> 0 then do { s \<leftarrow> kfree pg s; Some (0, s) }
                else Some (pg, s) } } } }"

text \<open>The physical page of a user page, allocated if it was grown lazily.\<close>

definition user_page :: "uint64 \<Rightarrow> uint64 \<Rightarrow> 'z kern_scheme \<Rightarrow> (uint64 \<times> 'z kern_scheme) option" where
  "user_page pagetable va0 s =
     do { (pa0, s) \<leftarrow> walkaddr pagetable va0 s;
          if pa0 = 0 then vmfault pagetable va0 s else Some (pa0, s) }"

definition chunk :: "uint64 \<Rightarrow> uint64 \<Rightarrow> uint64" where
  "chunk va len = (let n = PGSIZE - (va - PGROUNDDOWN va) in if n > len then len else n)"

partial_function (option) copyout ::
  "uint64 \<Rightarrow> uint64 \<Rightarrow> bytes \<Rightarrow> nat \<Rightarrow> uint64 \<Rightarrow> 'z kern_scheme \<Rightarrow> (int \<times> 'z kern_scheme) option" where
  "copyout pagetable dstva src so len s =
     (if len > 0 then
        (let va0 = PGROUNDDOWN dstva
         in if va0 \<ge> MAXVA then Some (-1, s)
            else do {
              (pa0, s) \<leftarrow> user_page pagetable va0 s;
              if pa0 = 0 then Some (-1, s)
              else do {
                (pte, s) \<leftarrow> walk pagetable va0 False s;
                if pte = 0 then None
                else if ld_pte s pte AND PTE_W = 0 then Some (-1, s)
                else let n = chunk dstva len;
                         s = s\<lparr>mem := blit (mem s) (unat (pa0 + (dstva - va0))) src so (unat n)\<rparr>
                     in copyout pagetable (va0 + PGSIZE) src (so + unat n) (len - n) s } })
      else Some (0, s))"

partial_function (option) copyin ::
  "uint64 \<Rightarrow> bytes \<Rightarrow> nat \<Rightarrow> uint64 \<Rightarrow> uint64 \<Rightarrow> 'z kern_scheme \<Rightarrow>
   (int \<times> bytes \<times> 'z kern_scheme) option" where
  "copyin pagetable dst d srcva len s =
     (if len > 0 then
        (let va0 = PGROUNDDOWN srcva
         in do {
              (pa0, s) \<leftarrow> user_page pagetable va0 s;
              if pa0 = 0 then Some (-1, dst, s)
              else let n = chunk srcva len;
                       dst = blit dst d (mem s) (unat (pa0 + (srcva - va0))) (unat n)
                   in copyin pagetable dst (d + unat n) (va0 + PGSIZE) (len - n) s })
      else Some (0, dst, s))"

text \<open>The inner loop of \<open>copyinstr\<close>, over at most \<open>n\<close> bytes of one page.\<close>

fun instr_chunk ::
  "nat \<Rightarrow> bytes \<Rightarrow> nat \<Rightarrow> bytes \<Rightarrow> nat \<Rightarrow> uint64 \<Rightarrow> bool \<times> bytes \<times> nat \<times> uint64" where
  "instr_chunk 0 m p dst d mx = (False, dst, d, mx)"
| "instr_chunk (Suc n) m p dst d mx =
     (if m p = 0 then (True, dst(d := 0), d, mx)
      else instr_chunk n m (p + 1) (dst(d := m p)) (d + 1) (mx - 1))"

partial_function (option) copyinstr ::
  "uint64 \<Rightarrow> bytes \<Rightarrow> nat \<Rightarrow> uint64 \<Rightarrow> uint64 \<Rightarrow> 'z kern_scheme \<Rightarrow>
   (int \<times> bytes \<times> 'z kern_scheme) option" where
  "copyinstr pagetable dst d srcva mx s =
     (if mx > 0 then
        (let va0 = PGROUNDDOWN srcva
         in do {
              (pa0, s) \<leftarrow> walkaddr pagetable va0 s;
              if pa0 = 0 then Some (-1, dst, s)
              else case instr_chunk (unat (chunk srcva mx)) (mem s) (unat (pa0 + (srcva - va0)))
                          dst d mx of
                (got_null, dst, d, mx) \<Rightarrow>
                  if got_null then Some (0, dst, s)
                  else copyinstr pagetable dst d (va0 + PGSIZE) mx s })
      else Some (-1, dst, s))"

text \<open>\<open>dst\<close> and \<open>src\<close> are user addresses or offsets into the kernel buffer \<open>kbuf\<close>.\<close>

definition either_copyout ::
  "bool \<Rightarrow> uint64 \<Rightarrow> bytes \<Rightarrow> bytes \<Rightarrow> nat \<Rightarrow> uint64 \<Rightarrow> 'z kern_scheme \<Rightarrow>
   (int \<times> bytes \<times> 'z kern_scheme) option" where
  "either_copyout user_dst dst kbuf src so len s =
     (if user_dst
      then do { p \<leftarrow> myproc s;
                (r, s) \<leftarrow> copyout (p_pagetable (procs s p)) dst src so len s;
                Some (r, kbuf, s) }
      else Some (0, blit kbuf (unat dst) src so (unat len), s))"

definition either_copyin ::
  "bytes \<Rightarrow> nat \<Rightarrow> bool \<Rightarrow> uint64 \<Rightarrow> bytes \<Rightarrow> uint64 \<Rightarrow> 'z kern_scheme \<Rightarrow>
   (int \<times> bytes \<times> 'z kern_scheme) option" where
  "either_copyin dst d user_src src kbuf len s =
     (if user_src
      then do { p \<leftarrow> myproc s;
                copyin (p_pagetable (procs s p)) dst d src len s }
      else Some (0, blit dst d kbuf (unat src) (unat len), s))"

section \<open>User memory\<close>

text \<open>
  Byte \<open>k\<close> of the address space below root \<open>r\<close>: whether it is mapped for the user, its
  physical address and its value.
\<close>

definition umapped :: "bytes \<Rightarrow> uint64 \<Rightarrow> nat \<Rightarrow> bool" where
  "umapped m r k \<longleftrightarrow> k < unat MAXVA \<and> bit (pte_of m r (of_nat k)) 0 \<and> bit (pte_of m r (of_nat k)) 4 \<and>
     PTE2PA (pte_of m r (of_nat k)) \<noteq> 0"

definition uaddr :: "bytes \<Rightarrow> uint64 \<Rightarrow> nat \<Rightarrow> nat" where
  "uaddr m r k = unat (PTE2PA (pte_of m r (of_nat k))) + k mod 4096"

definition ubyte :: "bytes \<Rightarrow> uint64 \<Rightarrow> nat \<Rightarrow> uint8" where
  "ubyte m r k = m (uaddr m r k)"

lemma px_page: "px l va = unat va div 4096 div 512 ^ l mod 512"
proof -
  have "(2::nat) ^ (12 + 9 * l) = 4096 * 512 ^ l" by (simp add: power_add power_mult)
  then show ?thesis unfolding px_eq by (simp add: div_mult2_eq)
qed

lemma pte_of_page: "unat va div 4096 = unat vb div 4096 \<Longrightarrow> pte_of m r va = pte_of m r vb"
proof -
  assume "unat va div 4096 = unat vb div 4096"
  then have "px l va = px l vb" for l by (simp add: px_page)
  then show ?thesis by (simp only: pte_of_def leaf_def)
qed

lemma unat_of_nat_va: "k \<le> unat MAXVA \<Longrightarrow> unat (of_nat k :: uint64) = k"
  using MAXVA_unat by (simp add: unat_of_nat)

lemma pte_of_nat_page:
  "j < unat MAXVA \<Longrightarrow> k < unat MAXVA \<Longrightarrow> j div 4096 = k div 4096 \<Longrightarrow>
    pte_of m r (of_nat j) = pte_of m r (of_nat k)"
  by (rule pte_of_page) (simp add: unat_of_nat_va)

lemma unat_offset: "unat (va - PGROUNDDOWN va) = unat va mod 4096"
proof -
  have "unat (PGROUNDDOWN va) \<le> unat va" by (simp add: PGROUNDDOWN_unat)
  then have "unat (va - PGROUNDDOWN va) = unat va - unat (PGROUNDDOWN va)"
    by (metis unat_sub word_le_nat_alt)
  then show ?thesis by (simp add: PGROUNDDOWN_unat minus_div_mult_eq_mod)
qed

lemma chunk_unat: "unat (chunk va len) = min (4096 - unat va mod 4096) (unat len)"
proof -
  have "unat va mod 4096 \<le> 4096" by (meson mod_less_divisor less_imp_le zero_less_numeral)
  then have "unat (PGSIZE - (va - PGROUNDDOWN va)) = 4096 - unat va mod 4096"
    using unat_sub [of "va - PGROUNDDOWN va" PGSIZE] unat_offset [of va]
    by (simp add: word_le_nat_alt)
  then show ?thesis by (simp add: chunk_def Let_def word_less_nat_alt min_def)
qed

lemma PTE2PA_aligned: "unat (PTE2PA e) mod 4096 = 0" "unat (PTE2PA e) + 4096 \<le> 2 ^ 64"
proof -
  have "unat (PTE2PA e) = take_bit 64 (push_bit 12 (unat (drop_bit 10 e)))"
    unfolding PTE2PA_def by (simp add: unsigned_push_bit_eq)
  also have "\<dots> mod 4096 = 0" by (simp add: take_bit_eq_mod push_bit_eq_mult mod_mod_cancel)
  finally show m: "unat (PTE2PA e) mod 4096 = 0" .
  then obtain k where "unat (PTE2PA e) = 4096 * k" by auto
  then show "unat (PTE2PA e) + 4096 \<le> 2 ^ 64" using unat_bound64 [of "PTE2PA e"] by simp
qed

lemma PTE2PA_offset:
  "unat (PTE2PA e + (va - PGROUNDDOWN va)) = unat (PTE2PA e) + unat va mod 4096"
proof -
  have "unat va mod 4096 < 4096" by simp
  then have "unat (PTE2PA e) + unat va mod 4096 < 2 ^ 64" using PTE2PA_aligned(2) [of e] by linarith
  then show ?thesis by (simp add: unat_word_ariths unat_offset)
qed

lemma user_page_mapped:
  assumes "pt_wf s r" "umapped (mem s) r (unat va)"
  shows "user_page r (PGROUNDDOWN va) s = Some (PTE2PA (pte_of (mem s) r va), s)"
proof -
  have p: "pte_of (mem s) r (PGROUNDDOWN va) = pte_of (mem s) r va"
    by (rule pte_of_page) (simp add: PGROUNDDOWN_unat)
  have lt: "PGROUNDDOWN va < MAXVA"
    using assms(2) by (simp add: umapped_def word_less_nat_alt PGROUNDDOWN_unat)
      (meson div_times_less_eq_dividend le_less_trans)
  have "walkaddr r (PGROUNDDOWN va) s = Some (PTE2PA (pte_of (mem s) r va), s)"
    using assms(2) lt by (simp add: walkaddr_eq [OF assms(1)] p umapped_def)
  then show ?thesis using assms(2) by (simp add: user_page_def umapped_def)
qed

lemma next_page_va:
  assumes "unat va < unat MAXVA"
  shows "unat (PGROUNDDOWN va + PGSIZE) = unat va div 4096 * 4096 + 4096"
proof -
  have "unat va div 4096 * 4096 + 4096 < 2 ^ 64" using assms MAXVA_unat by simp
  then show ?thesis by (simp add: unat_word_ariths PGROUNDDOWN_unat)
qed

text \<open>The bytes of one chunk are those of the page the address is on.\<close>

lemma ubyte_chunk:
  assumes "unat va + i < unat MAXVA" "unat va mod 4096 + i < 4096"
  shows "ubyte m r (unat va + i) = m (unat (PTE2PA (pte_of m r va)) + unat va mod 4096 + i)"
    "uaddr m r (unat va + i) = unat (PTE2PA (pte_of m r va)) + unat va mod 4096 + i"
proof -
  have d: "(unat va + i) div 4096 = unat va div 4096" "(unat va + i) mod 4096 = unat va mod 4096 + i"
  proof -
    have e: "unat va + i = (unat va mod 4096 + i) + 4096 * (unat va div 4096)" by simp
    show "(unat va + i) div 4096 = unat va div 4096"
      by (subst e) (use assms(2) in \<open>simp only: div_mult_self2 div_less\<close>; simp)
    show "(unat va + i) mod 4096 = unat va mod 4096 + i"
      by (subst e) (use assms(2) in \<open>simp only: mod_mult_self2 mod_less\<close>)
  qed
  have "pte_of m r (of_nat (unat va + i)) = pte_of m r va"
    by (rule pte_of_page) (use d(1) unat_of_nat_va [of "unat va + i"] assms(1) in simp)
  then show "uaddr m r (unat va + i) = unat (PTE2PA (pte_of m r va)) + unat va mod 4096 + i"
    using d(2) by (simp add: uaddr_def)
  then show "ubyte m r (unat va + i) = m (unat (PTE2PA (pte_of m r va)) + unat va mod 4096 + i)"
    by (simp add: ubyte_def)
qed

section \<open>Copying in\<close>

text \<open>The buffer after the bytes from \<open>k\<close> on of an address space were copied to offset \<open>d\<close>.\<close>

definition got :: "bytes \<Rightarrow> nat \<Rightarrow> bytes \<Rightarrow> uint64 \<Rightarrow> nat \<Rightarrow> nat \<Rightarrow> bytes" where
  "got dst d m r k n = (\<lambda>x. if d \<le> x \<and> x < d + n then ubyte m r (k + (x - d)) else dst x)"

lemma got_split: "got (got dst d m r k n) (d + n) m r (k + n) n' = got dst d m r k (n + n')"
proof
  fix x
  show "got (got dst d m r k n) (d + n) m r (k + n) n' x = got dst d m r k (n + n') x"
    by (cases "x < d + n") (auto simp: got_def)
qed

lemma blit_got:
  assumes "unat va + n \<le> unat MAXVA" "unat va mod 4096 + n \<le> 4096"
  shows "blit dst d m (unat (PTE2PA (pte_of m r va)) + unat va mod 4096) n = got dst d m r (unat va) n"
proof
  fix x
  show "blit dst d m (unat (PTE2PA (pte_of m r va)) + unat va mod 4096) n x = got dst d m r (unat va) n x"
  proof (cases "d \<le> x \<and> x < d + n")
    case True
    then have "ubyte m r (unat va + (x - d)) =
        m (unat (PTE2PA (pte_of m r va)) + unat va mod 4096 + (x - d))"
      using assms by (intro ubyte_chunk(1)) auto
    with True show ?thesis by (simp add: blit_def got_def)
  qed (auto simp: blit_def got_def)
qed

text \<open>The lengths of one turn of a copy loop.\<close>

lemma chunk_step:
  assumes "0 < unat len" "unat va + unat len \<le> unat MAXVA"
  defines "n \<equiv> unat (chunk va len)"
  shows "0 < n" "n \<le> unat len" "unat va mod 4096 + n \<le> 4096" "unat (len - chunk va len) = unat len - n"
    "n < unat len \<Longrightarrow> unat (PGROUNDDOWN va + PGSIZE) = unat va + n"
proof -
  have off: "unat va mod 4096 < 4096" by simp
  show "0 < n" "n \<le> unat len" "unat va mod 4096 + n \<le> 4096"
    unfolding n_def chunk_unat using assms(1) off by linarith+
  then show "unat (len - chunk va len) = unat len - n"
    unfolding n_def by (simp add: unat_sub word_le_nat_alt)
  assume "n < unat len"
  then have "n = 4096 - unat va mod 4096" unfolding n_def chunk_unat by linarith
  moreover have "unat va div 4096 * 4096 + unat va mod 4096 = unat va" by simp
  ultimately show "unat (PGROUNDDOWN va + PGSIZE) = unat va + n"
    using next_page_va [of va] assms(1,2) off by linarith
qed

lemma copyin_mapped:
  assumes "pt_wf s r" and "unat srcva + unat len \<le> unat MAXVA"
    and "\<And>k. unat srcva \<le> k \<Longrightarrow> k < unat srcva + unat len \<Longrightarrow> umapped (mem s) r k"
  shows "copyin r dst d srcva len s = Some (0, got dst d (mem s) r (unat srcva) (unat len), s)"
  using assms(2,3)
proof (induction "unat len" arbitrary: len srcva dst d rule: less_induct)
  case less
  show ?case
  proof (cases "unat len = 0")
    case True
    moreover have "got dst d (mem s) r (unat srcva) 0 = dst" by (auto simp: got_def fun_eq_iff)
    ultimately show ?thesis by (subst copyin.simps) (simp add: unat_eq_zero)
  next
    case False
    then have pos: "0 < unat len" and lenp: "len > 0" by (simp_all add: word_less_nat_alt)
    let ?n = "chunk srcva len" and ?pa = "PTE2PA (pte_of (mem s) r srcva)"
    note c = chunk_step [OF pos less.prems(1)]
    have mp: "umapped (mem s) r (unat srcva)" using less.prems(2) pos by simp
    let ?dst = "got dst d (mem s) r (unat srcva) (unat ?n)"
    have "blit dst d (mem s) (unat (?pa + (srcva - PGROUNDDOWN srcva))) (unat ?n) = ?dst"
      unfolding PTE2PA_offset using c(2,3) less.prems(1) by (intro blit_got) auto
    then have "copyin r dst d srcva len s =
        copyin r ?dst (d + unat ?n) (PGROUNDDOWN srcva + PGSIZE) (len - ?n) s"
      using lenp mp
      by (subst copyin.simps) (simp add: user_page_mapped [OF assms(1) mp] Let_def umapped_def)
    also have "\<dots> = Some (0, got dst d (mem s) r (unat srcva) (unat len), s)"
    proof (cases "unat ?n < unat len")
      case True
      note nx = c(5) [OF True]
      have "copyin r ?dst (d + unat ?n) (PGROUNDDOWN srcva + PGSIZE) (len - ?n) s =
          Some (0, got ?dst (d + unat ?n) (mem s) r (unat (PGROUNDDOWN srcva + PGSIZE))
            (unat (len - ?n)), s)"
      proof (rule less.hyps)
        show "unat (len - ?n) < unat len" using c(1,2,4) by simp
        show "unat (PGROUNDDOWN srcva + PGSIZE) + unat (len - ?n) \<le> unat MAXVA"
          using nx c(4) True less.prems(1) by simp
        show "umapped (mem s) r k" if "unat (PGROUNDDOWN srcva + PGSIZE) \<le> k"
            "k < unat (PGROUNDDOWN srcva + PGSIZE) + unat (len - ?n)" for k
          using that nx c(4) True by (intro less.prems(2)) simp_all
      qed
      then show ?thesis using c(4) True by (simp add: nx got_split)
    next
      case False
      then have "unat ?n = unat len" "len - ?n = 0" using c(2,4) by (simp_all add: unat_eq_zero [symmetric] del: unat_eq_zero)
      then show ?thesis by (subst copyin.simps) simp
    qed
    finally show ?thesis .
  qed
qed

text \<open>
  C33: \<open>copyin\<close> from a range of user memory that is mapped returns 0 and delivers exactly
  the bytes the page table maps there, across page boundaries, writing nothing outside the
  destination and changing no memory.
\<close>

theorem copyin_reads:
  assumes "pt_wf s r" and "unat srcva + unat len \<le> unat MAXVA"
    and "\<And>k. unat srcva \<le> k \<Longrightarrow> k < unat srcva + unat len \<Longrightarrow> umapped (mem s) r k"
  shows "copyin r dst d srcva len s = Some (0, got dst d (mem s) r (unat srcva) (unat len), s)"
  using assms by (rule copyin_mapped)

section \<open>Copying out\<close>

text \<open>Memory that differs only outside the tables gives the same address space.\<close>

lemma table_frame:
  assumes "\<And>t i. t \<in> tabs m r \<Longrightarrow> i < 512 \<Longrightarrow> ent m' t i = ent m t i" "q \<in> paths"
  shows "table m' r q = table m r q"
  using assms(2)
proof (induction q rule: rev_induct)
  case (snoc j q)
  then have q: "q \<in> paths" and j: "j < 512" by (auto simp: paths_def)
  show ?case
  proof (cases "table m r q")
    case None
    then show ?thesis using snoc.IH [OF q] by (simp add: table_snoc)
  next
    case (Some t)
    then have "t \<in> tabs m r" using q by (auto simp: tabs_def)
    from child_ent [OF assms(1) [OF this j]] Some show ?thesis
      using snoc.IH [OF q] by (simp add: table_snoc)
  qed
qed simp

lemma space_frame:
  assumes "\<And>t i. t \<in> tabs m r \<Longrightarrow> i < 512 \<Longrightarrow> ent m' t i = ent m t i"
  shows "pte_of m' r va = pte_of m r va" "tabs m' r = tabs m r"
proof -
  have T: "table m' r q = table m r q" if "q \<in> paths" for q
    using assms that by (rule table_frame)
  show "tabs m' r = tabs m r" unfolding tabs_def using T by auto
  have l: "leaf m' r va = leaf m r va" unfolding leaf_def by (rule T [OF paths_va(3)])
  show "pte_of m' r va = pte_of m r va"
  proof (cases "leaf m r va")
    case (Some t)
    with l assms [OF leaf_tabs [OF Some] px_less] show ?thesis by (simp add: pte_of_def)
  qed (simp add: pte_of_def l)
qed

lemma pt_wf_frame:
  assumes "pt_wf s r" "\<And>t i. t \<in> tabs (mem s) r \<Longrightarrow> i < 512 \<Longrightarrow> ent m' t i = ent (mem s) t i"
  shows "pt_wf (s\<lparr>mem := m'\<rparr>) r"
proof -
  have "table m' r q = table (mem s) r q" if "q \<in> paths" for q
    using assms(2) that by (rule table_frame)
  then show ?thesis using assms(1) unfolding pt_wf_def by simp
qed

text \<open>
  The user range is mapped and writable, on pages of the allocator that are no tables, and
  no two of its bytes share a physical address.
\<close>

definition writable :: "'z mach_scheme \<Rightarrow> uint64 \<Rightarrow> nat set \<Rightarrow> bool" where
  "writable s r K \<longleftrightarrow> pt_wf s r \<and> inj_on (uaddr (mem s) r) K \<and>
     (\<forall>k \<in> K. umapped (mem s) r k \<and> bit (pte_of (mem s) r (of_nat k)) 2 \<and>
        page_ok s (PTE2PA (pte_of (mem s) r (of_nat k))) \<and>
        PTE2PA (pte_of (mem s) r (of_nat k)) \<notin> tabs (mem s) r)"

lemma writable_blit:
  fixes s :: "'z mach_scheme" and src :: bytes and so :: nat
  assumes w: "writable s r K" and k: "unat va \<in> K"
    and n: "unat va mod 4096 + n \<le> 4096" and le: "unat va + n \<le> unat MAXVA"
  defines "m' \<equiv> blit (mem s) (unat (PTE2PA (pte_of (mem s) r va)) + unat va mod 4096) src so n"
  shows "pte_of m' r vb = pte_of (mem s) r vb" "writable (s\<lparr>mem := m'\<rparr>) r K"
    "i < n \<Longrightarrow> ubyte m' r (unat va + i) = src (so + i)"
    "a \<notin> (\<lambda>i. uaddr (mem s) r (unat va + i)) ` {..<n} \<Longrightarrow> m' a = mem s a"
proof -
  let ?pa = "PTE2PA (pte_of (mem s) r va)"
  have kv: "of_nat (unat va) = va" by simp
  have pa: "page_ok s ?pa" "?pa \<notin> tabs (mem s) r" and wf: "pt_wf s r"
    using w k unfolding writable_def by (auto simp: kv)
  have e: "ent m' t i = ent (mem s) t i" if "t \<in> tabs (mem s) r" "i < 512" for t i
  proof -
    have "page_ok s t" using that(1) pt_wf_page [OF wf] by (auto simp: tabs_def)
    moreover have "t \<noteq> ?pa" using that(1) pa(2) by auto
    ultimately show ?thesis
      using that(2) pa(1) n by (intro ent_frame [of s t ?pa]) (auto simp: m'_def blit_def)
  qed
  show pt: "pte_of m' r vb = pte_of (mem s) r vb" for vb using e by (rule space_frame(1))
  have tb: "tabs m' r = tabs (mem s) r" using e by (rule space_frame(2))
  have "pt_wf (s\<lparr>mem := m'\<rparr>) r" using wf e by (rule pt_wf_frame)
  moreover have ua: "uaddr m' r = uaddr (mem s) r" by (auto simp: uaddr_def pt)
  ultimately show "writable (s\<lparr>mem := m'\<rparr>) r K"
    using w tb pt unfolding writable_def umapped_def by simp
  have u: "uaddr (mem s) r (unat va + i) = unat ?pa + unat va mod 4096 + i" if "i < n" for i
    using that n le by (intro ubyte_chunk(2)) auto
  show "ubyte m' r (unat va + i) = src (so + i)" if "i < n"
    using that u [OF that] ua by (simp add: ubyte_def m'_def blit_def)
  assume a: "a \<notin> (\<lambda>i. uaddr (mem s) r (unat va + i)) ` {..<n}"
  show "m' a = mem s a"
  proof (cases "unat ?pa + unat va mod 4096 \<le> a \<and> a < unat ?pa + unat va mod 4096 + n")
    case True
    then obtain i where "i < n" "a = unat ?pa + unat va mod 4096 + i"
      by (metis le_Suc_ex nat_add_left_cancel_less)
    then show ?thesis using a u by auto
  qed (auto simp: m'_def blit_def)
qed

lemma PTE_W_bit: "pte AND PTE_W = 0 \<longleftrightarrow> \<not> bit pte 2"
proof -
  have "bit (pte AND PTE_W) i \<longleftrightarrow> i = 2 \<and> bit pte 2" for i
    unfolding PTE_W_def bit_and_iff bit_push_bit_iff by (auto simp: bit_1_iff)
  then show ?thesis by (metis bit_0_eq bit_eqI bot_apply bot_bool_def)
qed

text \<open>A mapped page has a last-level table, so the second walk of \<open>copyout\<close> finds its entry.\<close>

lemma walk_mapped:
  assumes "pt_wf s r" "umapped (mem s) r (unat va)"
  obtains pte where "walk r (PGROUNDDOWN va) False s = Some (pte, s)" "pte \<noteq> 0"
    "ld_pte s pte = pte_of (mem s) r va" "PGROUNDDOWN va < MAXVA"
proof -
  have p: "pte_of (mem s) r (PGROUNDDOWN va) = pte_of (mem s) r va"
    by (rule pte_of_page) (simp add: PGROUNDDOWN_unat)
  have lt: "PGROUNDDOWN va < MAXVA"
    using assms(2) by (simp add: umapped_def word_less_nat_alt PGROUNDDOWN_unat)
      (meson div_times_less_eq_dividend le_less_trans)
  have "bit (pte_of (mem s) r (PGROUNDDOWN va)) 0" using assms(2) by (simp add: umapped_def p)
  then obtain t where t: "leaf (mem s) r (PGROUNDDOWN va) = Some t"
    by (auto simp: pte_of_def split: option.splits)
  show thesis
    using that [OF walk_present [OF assms(1) lt t]] leaf_page [OF assms(1) t]
      pte_of_walk [OF assms(1) t] p lt by simp
qed

lemma writable_mono: "writable s r K \<Longrightarrow> L \<subseteq> K \<Longrightarrow> writable s r L"
  unfolding writable_def by (meson inj_on_subset subset_iff)

lemma writableD:
  assumes "writable s r K" "unat va \<in> K"
  shows "pt_wf s r" "umapped (mem s) r (unat va)" "bit (pte_of (mem s) r va) 2"
  using assms unfolding writable_def by auto

text \<open>One turn of the loop of \<open>copyout\<close>.\<close>

lemma copyout_turn:
  fixes s :: "'z kern_scheme"
  assumes w: "writable s r K" and k: "unat dstva \<in> K" and len: "len > 0"
  shows "copyout r dstva src so len s =
    copyout r (PGROUNDDOWN dstva + PGSIZE) src (so + unat (chunk dstva len)) (len - chunk dstva len)
      (s\<lparr>mem := blit (mem s) (unat (PTE2PA (pte_of (mem s) r dstva)) + unat dstva mod 4096) src so
          (unat (chunk dstva len))\<rparr>)"
proof -
  note d = writableD [OF w k]
  obtain pte where pte: "walk r (PGROUNDDOWN dstva) False s = Some (pte, s)" "pte \<noteq> 0"
      "ld_pte s pte = pte_of (mem s) r dstva" "PGROUNDDOWN dstva < MAXVA"
    using walk_mapped [OF d(1,2)] .
  then have "\<not> MAXVA \<le> PGROUNDDOWN dstva" by simp
  moreover have "PTE2PA (pte_of (mem s) r dstva) \<noteq> 0" using d(2) by (simp add: umapped_def)
  ultimately show ?thesis
    using len pte(1-3) d(3)
    by (subst copyout.simps)
      (simp add: user_page_mapped [OF d(1,2)] Let_def PTE_W_bit PTE2PA_offset)
qed

text \<open>
  \<open>copied m m' r d src so n\<close>: from memory \<open>m\<close> to \<open>m'\<close> the \<open>n\<close> user bytes from \<open>d\<close> on were set to
  those of \<open>src\<close> from \<open>so\<close> on, and neither another byte nor the address space changed.
\<close>

definition copied :: "bytes \<Rightarrow> bytes \<Rightarrow> uint64 \<Rightarrow> nat \<Rightarrow> bytes \<Rightarrow> nat \<Rightarrow> nat \<Rightarrow> bool" where
  "copied m m' r d src so n \<longleftrightarrow> (\<forall>i < n. ubyte m' r (d + i) = src (so + i)) \<and>
     (\<forall>a. a \<notin> uaddr m r ` {d..<d + n} \<longrightarrow> m' a = m a) \<and> (\<forall>va. pte_of m' r va = pte_of m r va)"

lemma copied_none: "copied m m r d src so 0"
  by (simp add: copied_def)

lemma copied_uaddr: "copied m m' r d src so n \<Longrightarrow> uaddr m' r = uaddr m r"
  by (auto simp: copied_def uaddr_def)

lemma copied_trans:
  assumes c1: "copied m m1 r d src so n" and c2: "copied m1 m2 r (d + n) src (so + n) n'"
    and inj: "inj_on (uaddr m r) {d..<d + (n + n')}"
  shows "copied m m2 r d src so (n + n')"
proof -
  note ua = copied_uaddr [OF c1] copied_uaddr [OF c2]
  have "ubyte m2 r (d + i) = src (so + i)" if "i < n + n'" for i
  proof (cases "i < n")
    case True
    then have "uaddr m r (d + i) \<notin> uaddr m r ` {d + n..<d + n + n'}"
      using inj_on_image_mem_iff [OF inj, of "d + i" "{d + n..<d + n + n'}"] by auto
    then show ?thesis using c1 c2 True ua by (auto simp: copied_def ubyte_def)
  next
    case False
    with c2 that have "ubyte m2 r (d + n + (i - n)) = src (so + n + (i - n))"
      unfolding copied_def by (metis add_less_cancel_left le_add_diff_inverse not_less)
    with False show ?thesis by simp
  qed
  moreover have "m2 a = m a" if "a \<notin> uaddr m r ` {d..<d + (n + n')}" for a
  proof -
    have "a \<notin> uaddr m r ` {d..<d + n}" "a \<notin> uaddr m r ` {d + n..<d + n + n'}" using that by auto
    then show ?thesis using c1 c2 ua unfolding copied_def by simp
  qed
  ultimately show ?thesis using c1 c2 unfolding copied_def by simp
qed

lemma copied_blit:
  fixes s :: "'z mach_scheme"
  assumes "writable s r K" "unat va \<in> K" "unat va mod 4096 + n \<le> 4096" "unat va + n \<le> unat MAXVA"
  shows "copied (mem s)
    (blit (mem s) (unat (PTE2PA (pte_of (mem s) r va)) + unat va mod 4096) src so n)
    r (unat va) src so n"
  unfolding copied_def
proof (intro conjI allI impI)
  note b = writable_blit [OF assms, where src = src and so = so]
  let ?m = "blit (mem s) (unat (PTE2PA (pte_of (mem s) r va)) + unat va mod 4096) src so n"
  show "ubyte ?m r (unat va + i) = src (so + i)" if "i < n" for i using that by (rule b(3))
  show "pte_of ?m r vb = pte_of (mem s) r vb" for vb by (rule b(1))
  show "?m a = mem s a" if "a \<notin> uaddr (mem s) r ` {unat va..<unat va + n}" for a
  proof (rule b(4))
    show "a \<notin> (\<lambda>i. uaddr (mem s) r (unat va + i)) ` {..<n}"
    proof
      assume "a \<in> (\<lambda>i. uaddr (mem s) r (unat va + i)) ` {..<n}"
      then obtain i where "i < n" "a = uaddr (mem s) r (unat va + i)" by auto
      then show False using that by auto
    qed
  qed
qed

lemma copyout_mapped:
  fixes s :: "'z kern_scheme"
  assumes "writable s r {unat dstva..<unat dstva + unat len}"
    and "unat dstva + unat len \<le> unat MAXVA"
  shows "\<exists>m'. copyout r dstva src so len s = Some (0, s\<lparr>mem := m'\<rparr>) \<and>
    copied (mem s) m' r (unat dstva) src so (unat len)"
  using assms
proof (induction "unat len" arbitrary: len dstva so s rule: less_induct)
  case (less len dstva so s)
  show ?case
  proof (cases "unat len = 0")
    case True
    then have "copyout r dstva src so len s = Some (0, s\<lparr>mem := mem s\<rparr>)"
      by (subst copyout.simps) (simp add: unat_eq_zero)
    then show ?thesis using True copied_none by metis
  next
    case False
    then have pos: "0 < unat len" and lenp: "len > 0" by (simp_all add: word_less_nat_alt)
    let ?n = "chunk dstva len" and ?d = "unat dstva" and ?K = "{unat dstva..<unat dstva + unat len}"
    let ?m = "blit (mem s) (unat (PTE2PA (pte_of (mem s) r dstva)) + ?d mod 4096) src so (unat ?n)"
    let ?s = "s\<lparr>mem := ?m\<rparr>" and ?va = "PGROUNDDOWN dstva + PGSIZE"
    note c = chunk_step [OF pos less.prems(2)]
    have k: "?d \<in> ?K" using pos by simp
    have le: "?d + unat ?n \<le> unat MAXVA" using c(2) less.prems(2) by simp
    have inj: "inj_on (uaddr (mem s) r) ?K" using less.prems(1) by (simp add: writable_def)
    note c1 = copied_blit [OF less.prems(1) k c(3) le, where src = src and so = so]
    have turn: "copyout r dstva src so len s =
        copyout r ?va src (so + unat ?n) (len - ?n) ?s"
      by (rule copyout_turn [OF less.prems(1) k lenp])
    show ?thesis
    proof (cases "unat ?n < unat len")
      case True
      note nx = c(5) [OF True]
      have "\<exists>m'. copyout r ?va src (so + unat ?n) (len - ?n) ?s = Some (0, ?s\<lparr>mem := m'\<rparr>) \<and>
          copied (mem ?s) m' r (unat ?va) src (so + unat ?n) (unat (len - ?n))"
      proof (rule less.hyps)
        show "unat (len - ?n) < unat len" using c(1,2,4) by simp
        have "{unat ?va..<unat ?va + unat (len - ?n)} \<subseteq> ?K" using nx c(4) True by auto
        with writable_blit(2) [OF less.prems(1) k c(3) le]
        show "writable ?s r {unat ?va..<unat ?va + unat (len - ?n)}" by (rule writable_mono)
        show "unat ?va + unat (len - ?n) \<le> unat MAXVA" using nx c(4) True less.prems(2) by simp
      qed
      then obtain m' where m': "copyout r dstva src so len s = Some (0, s\<lparr>mem := m'\<rparr>)"
          "copied ?m m' r (?d + unat ?n) src (so + unat ?n) (unat len - unat ?n)"
        unfolding turn using nx c(4) by auto
      have "copied (mem s) m' r ?d src so (unat ?n + (unat len - unat ?n))"
        using copied_trans [OF c1 m'(2)] inj True by simp
      then show ?thesis using m'(1) True by auto
    next
      case False
      then have n: "unat ?n = unat len" "len - ?n = 0"
        using c(2,4) by (simp_all add: unat_eq_zero [symmetric] del: unat_eq_zero)
      then have "copyout r dstva src so len s = Some (0, ?s)"
        unfolding turn by (subst copyout.simps) simp
      then show ?thesis using c1 n(1) by auto
    qed
  qed
qed

text \<open>
  C34: \<open>copyout\<close> to a range of user memory that is mapped and writable returns 0; every byte
  of the range then reads as the byte copied there, no other byte of memory changes, and the
  address space itself is unchanged.
\<close>

theorem copyout_writes:
  fixes s :: "'z kern_scheme"
  assumes "writable s r {unat dstva..<unat dstva + unat len}"
    and "unat dstva + unat len \<le> unat MAXVA"
  shows "\<exists>m'. copyout r dstva src so len s = Some (0, s\<lparr>mem := m'\<rparr>) \<and>
    copied (mem s) m' r (unat dstva) src so (unat len)"
  using assms by (rule copyout_mapped)

text \<open>
  C35: \<open>copyout\<close> never writes to a user page that is mapped read-only: it returns -1 and
  changes nothing.
\<close>

theorem copyout_readonly:
  fixes s :: "'z kern_scheme"
  assumes "pt_wf s r" and "umapped (mem s) r (unat dstva)" and "\<not> bit (pte_of (mem s) r dstva) 2"
    and "0 < len"
  shows "copyout r dstva src so len s = Some (-1, s)"
proof -
  obtain pte where pte: "walk r (PGROUNDDOWN dstva) False s = Some (pte, s)" "pte \<noteq> 0"
      "ld_pte s pte = pte_of (mem s) r dstva" "PGROUNDDOWN dstva < MAXVA"
    using walk_mapped [OF assms(1,2)] .
  then have "\<not> MAXVA \<le> PGROUNDDOWN dstva" by simp
  moreover have "PTE2PA (pte_of (mem s) r dstva) \<noteq> 0" using assms(2) by (simp add: umapped_def)
  ultimately show ?thesis
    using pte(1-3) assms(3,4)
    by (subst copyout.simps) (simp add: user_page_mapped [OF assms(1,2)] Let_def PTE_W_bit)
qed

section \<open>An address space with one page\<close>

text \<open>
  Root, middle and last-level table at \<open>0x87ffc000\<close>, \<open>0x87ffd000\<close> and \<open>0x87ffe000\<close>; the
  user page at \<open>0x87fff000\<close>, mapped at address 0 with permissions \<open>e\<close>; the page at
  \<open>0x87ffb000\<close> is in use for something else.
\<close>

definition space_ex :: "uint64 \<Rightarrow> kern" where
  "space_ex e = kern0\<lparr>kend := 0x87ffb000,
     mem := st64 (st64 (st64 (\<lambda>_. 0) 0x87ffc000 0x21FFF401) 0x87ffd000 0x21FFF801) 0x87ffe000 e\<rparr>"

lemma space_ex_ent:
  assumes "i < 512"
  shows "ent (mem (space_ex e)) 0x87ffc000 i = (if i = 0 then 0x21FFF401 else 0)"
    "ent (mem (space_ex e)) 0x87ffd000 i = (if i = 0 then 0x21FFF801 else 0)"
    "ent (mem (space_ex e)) 0x87ffe000 i = (if i = 0 then e else 0)"
  using assms
  by (auto simp: ent_def space_ex_def ldn_stn_same ldn_stn_disjoint ldn_zero)

lemma space_ex_child:
  assumes "i < 512"
  shows "child (mem (space_ex e)) 0x87ffc000 i = (if i = 0 then Some 0x87ffd000 else None)"
    "child (mem (space_ex e)) 0x87ffd000 i = (if i = 0 then Some 0x87ffe000 else None)"
  using assms by (auto simp: child_def space_ex_ent PTE2PA_def)

lemma space_ex_table:
  assumes "p \<in> paths"
  shows "table (mem (space_ex e)) 0x87ffc000 p =
    (if p = [] then Some 0x87ffc000 else if p = [0] then Some 0x87ffd000
     else if p = [0, 0] then Some 0x87ffe000 else None)"
proof -
  consider "p = []" | i where "p = [i]" "i < 512" | i j where "p = [i, j]" "i < 512" "j < 512"
    using assms by (cases p; cases "tl p") (auto simp: paths_def)
  then show ?thesis by cases (auto simp: space_ex_child)
qed

lemma space_ex_tabs: "tabs (mem (space_ex e)) 0x87ffc000 = {0x87ffc000, 0x87ffd000, 0x87ffe000}"
proof -
  have "[0] \<in> paths" "[0, 0] \<in> paths" by (simp_all add: paths_def)
  then show ?thesis using space_ex_table [of _ e] paths_va(1)
    by (auto simp: tabs_def split: if_splits)
qed

lemma space_ex_page:
  "0x87ffb000 \<le> pa \<Longrightarrow> pa < 0x88000000 \<Longrightarrow> pa mod 4096 = 0 \<Longrightarrow> page_ok (space_ex e) pa"
  by (simp add: page_ok_def space_ex_def PGSIZE_def PHYSTOP_def KERNBASE_def)

lemma space_ex_wf: "pt_wf (space_ex e) 0x87ffc000"
  unfolding pt_wf_def by (auto simp: space_ex_table space_ex_page split: if_splits)

lemma space_ex_pte: "k < 4096 \<Longrightarrow> pte_of (mem (space_ex e)) 0x87ffc000 (of_nat k) = e"
proof -
  assume k: "k < 4096"
  then have "unat (of_nat k :: uint64) = k" by (simp add: unat_of_nat)
  with k have "px l (of_nat k) = 0" for l by (simp add: px_page)
  moreover have "[0, 0] \<in> paths" by (simp add: paths_def)
  ultimately show ?thesis
    using space_ex_table [of "[0, 0]" e] by (simp add: pte_of_def leaf_def space_ex_ent)
qed

lemma space_ex_umapped:
  "k < 4096 \<Longrightarrow> bit e 0 \<Longrightarrow> bit e 4 \<Longrightarrow> PTE2PA e \<noteq> 0 \<Longrightarrow> umapped (mem (space_ex e)) 0x87ffc000 k"
  by (simp add: umapped_def space_ex_pte MAXVA_unat)

lemma space_ex_writable:
  assumes "K \<subseteq> {..<4096}"
  shows "writable (space_ex 0x21FFFC17) 0x87ffc000 K"
proof -
  have pa: "PTE2PA 0x21FFFC17 = 0x87fff000" by (simp add: PTE2PA_def)
  have "uaddr (mem (space_ex 0x21FFFC17)) 0x87ffc000 k = 0x87fff000 + k" if "k \<in> K" for k
    using that assms by (auto simp: uaddr_def space_ex_pte pa)
  then have "inj_on (uaddr (mem (space_ex 0x21FFFC17)) 0x87ffc000) K" by (auto intro!: inj_onI)
  moreover have "umapped (mem (space_ex 0x21FFFC17)) 0x87ffc000 k \<and>
      pte_of (mem (space_ex 0x21FFFC17)) 0x87ffc000 (of_nat k) = 0x21FFFC17" if "k \<in> K" for k
    using that assms by (auto simp: pa space_ex_pte intro!: space_ex_umapped)
  ultimately show ?thesis
    using space_ex_wf by (auto simp: writable_def pa space_ex_tabs space_ex_page)
qed

theorem copyin_reads_witness:
  "copyin 0x87ffc000 (\<lambda>_. 0) 0 16 8 (space_ex 0x21FFFC17) =
     Some (0, got (\<lambda>_. 0) 0 (mem (space_ex 0x21FFFC17)) 0x87ffc000 16 8, space_ex 0x21FFFC17)"
  using copyin_reads [OF space_ex_wf, of 16 8 "0x21FFFC17" "\<lambda>_. 0" 0] space_ex_umapped [of _ "0x21FFFC17"]
  by (simp add: MAXVA_unat PTE2PA_def)

lemma unat_numeral_8: "unat (8 :: uint64) = 8"
  by simp

lemma unat_numeral_16: "unat (16 :: uint64) = 16"
  by simp

theorem copyout_writes_witness:
  "\<exists>m'. copyout 0x87ffc000 16 (\<lambda>i. of_nat i) 1 8 (space_ex 0x21FFFC17) =
       Some (0, (space_ex 0x21FFFC17)\<lparr>mem := m'\<rparr>) \<and> ubyte m' 0x87ffc000 16 = 1"
proof -
  have "{unat (16 :: uint64)..<unat (16 :: uint64) + unat (8 :: uint64)} \<subseteq> {..<4096}"
      "unat (16 :: uint64) + unat (8 :: uint64) \<le> unat MAXVA"
    by (auto simp: MAXVA_unat)
  then obtain m' where "copyout 0x87ffc000 16 (\<lambda>i. of_nat i) 1 8 (space_ex 0x21FFFC17) =
       Some (0, (space_ex 0x21FFFC17)\<lparr>mem := m'\<rparr>)"
      "copied (mem (space_ex 0x21FFFC17)) m' 0x87ffc000 (unat (16 :: uint64)) (\<lambda>i. of_nat i) 1
         (unat (8 :: uint64))"
    using copyout_writes [OF space_ex_writable] by blast
  moreover from this(2) have "ubyte m' 0x87ffc000 (16 + 0) = of_nat (1 + 0)"
    unfolding copied_def by (metis unat_numeral_8 unat_numeral_16 zero_less_numeral)
  ultimately show ?thesis by auto
qed

theorem copyout_readonly_witness:
  "copyout 0x87ffc000 16 (\<lambda>i. of_nat i) 0 8 (space_ex 0x21FFFC13) = Some (-1, space_ex 0x21FFFC13)"
  using copyout_readonly [OF space_ex_wf, of "0x21FFFC13" 16 8] space_ex_umapped [of 16 "0x21FFFC13"]
    space_ex_pte [of 16 "0x21FFFC13"]
  by (simp add: PTE2PA_def)

end
