(* ===== verification/Bio.thy ===== *)
theory Bio
  imports Sleeplock Vmcopy
begin

text \<open>
  The buffer cache, \<^verbatim>\<open>kernel/bio.c\<close>: \<open>NBUF\<close> buffers on a doubly linked list in order of
  use, with the list head at index \<open>NBUF\<close>. The disk driver is represented by its contract,
  \<open>virtio_disk_rw\<close>: it moves one block between the buffer and the disk; the blocks it writes
  are recorded in order, which is what a crash can cut short.
\<close>

section \<open>State\<close>

definition BSIZE :: nat where "BSIZE = 1024"

record buf =
  b_valid :: bool
  b_dev :: uint32
  b_blockno :: uint32
  b_refcnt :: uint32
  b_prev :: nat
  b_next :: nat
  b_data :: bytes

record bio = slk +
  bufs :: "nat \<Rightarrow> buf"
  disk :: "uint32 \<Rightarrow> bytes"
  disk_writes :: "(uint32 \<times> bytes) list"

abbreviation HEAD :: nat where "HEAD \<equiv> NBUF"

definition upd_buf :: "nat \<Rightarrow> (buf \<Rightarrow> buf) \<Rightarrow> 'z bio_scheme \<Rightarrow> 'z bio_scheme" where
  "upd_buf b f s = s\<lparr>bufs := (bufs s)(b := f (bufs s b))\<rparr>"

section \<open>Operations\<close>

text \<open>The block as stored: its \<open>BSIZE\<close> bytes.\<close>

definition block_of :: "bytes \<Rightarrow> bytes" where
  "block_of d = (\<lambda>i. if i < BSIZE then d i else 0)"

definition virtio_disk_rw :: "nat \<Rightarrow> bool \<Rightarrow> 'z bio_scheme \<Rightarrow> 'z bio_scheme" where
  "virtio_disk_rw b write s =
     (if write
      then s\<lparr>disk := (disk s)(b_blockno (bufs s b) := block_of (b_data (bufs s b))),
             disk_writes := disk_writes s @ [(b_blockno (bufs s b), block_of (b_data (bufs s b)))]\<rparr>
      else upd_buf b (\<lambda>x. x\<lparr>b_data := disk s (b_blockno x)\<rparr>) s)"

text \<open>Insertion after the head, the four assignments shared by \<open>binit\<close> and \<open>brelse\<close>.\<close>

definition link_front :: "nat \<Rightarrow> 'z bio_scheme \<Rightarrow> 'z bio_scheme" where
  "link_front b s =
     (let s = upd_buf b (\<lambda>x. x\<lparr>b_next := b_next (bufs s HEAD)\<rparr>) s;
          s = upd_buf b (\<lambda>x. x\<lparr>b_prev := HEAD\<rparr>) s;
          s = upd_buf (b_next (bufs s HEAD)) (\<lambda>x. x\<lparr>b_prev := b\<rparr>) s
      in upd_buf HEAD (\<lambda>x. x\<lparr>b_next := b\<rparr>) s)"

definition binit :: "'z bio_scheme \<Rightarrow> 'z bio_scheme option" where
  "binit s =
     (let s = upd_buf HEAD (\<lambda>x. x\<lparr>b_prev := HEAD\<rparr>) s;
          s = upd_buf HEAD (\<lambda>x. x\<lparr>b_next := HEAD\<rparr>) s
      in for_each (\<lambda>b s. Some (link_front b (initsleeplock (SL_buf b) s))) [0..<NBUF] s)"

text \<open>The two loops of \<open>bget\<close>: forwards for the block, backwards for an unused buffer.\<close>

partial_function (option) bget_find :: "uint32 \<Rightarrow> uint32 \<Rightarrow> nat \<Rightarrow> 'z bio_scheme \<Rightarrow> nat option option" where
  "bget_find dev blockno b s =
     (if b = HEAD then Some None
      else if b_dev (bufs s b) = dev \<and> b_blockno (bufs s b) = blockno then Some (Some b)
      else bget_find dev blockno (b_next (bufs s b)) s)"

partial_function (option) bget_lru :: "nat \<Rightarrow> 'z bio_scheme \<Rightarrow> nat option option" where
  "bget_lru b s =
     (if b = HEAD then Some None
      else if b_refcnt (bufs s b) = 0 then Some (Some b)
      else bget_lru (b_prev (bufs s b)) s)"

definition bget :: "('z bio_scheme \<Rightarrow> 'z bio_scheme option) \<Rightarrow> uint32 \<Rightarrow> uint32 \<Rightarrow>
    'z bio_scheme \<Rightarrow> (nat \<times> 'z bio_scheme) option" where
  "bget sw dev blockno s =
     do { s \<leftarrow> acquire L_bcache s;
          found \<leftarrow> bget_find dev blockno (b_next (bufs s HEAD)) s;
          case found of
            Some b \<Rightarrow>
              do { let s = upd_buf b (\<lambda>x. x\<lparr>b_refcnt := b_refcnt x + 1\<rparr>) s;
                   s \<leftarrow> release L_bcache s;
                   s \<leftarrow> acquiresleep sw (SL_buf b) s;
                   Some (b, s) }
          | None \<Rightarrow>
              do { unused \<leftarrow> bget_lru (b_prev (bufs s HEAD)) s;
                   case unused of
                     None \<Rightarrow> None
                   | Some b \<Rightarrow>
                       do { let s = upd_buf b (\<lambda>x. x\<lparr>b_dev := dev, b_blockno := blockno,
                                  b_valid := False, b_refcnt := 1\<rparr>) s;
                            s \<leftarrow> release L_bcache s;
                            s \<leftarrow> acquiresleep sw (SL_buf b) s;
                            Some (b, s) } } }"

definition bread :: "('z bio_scheme \<Rightarrow> 'z bio_scheme option) \<Rightarrow> uint32 \<Rightarrow> uint32 \<Rightarrow>
    'z bio_scheme \<Rightarrow> (nat \<times> 'z bio_scheme) option" where
  "bread sw dev blockno s =
     do { (b, s) \<leftarrow> bget sw dev blockno s;
          if \<not> b_valid (bufs s b)
          then do { let s = virtio_disk_rw b False s;
                    Some (b, upd_buf b (\<lambda>x. x\<lparr>b_valid := True\<rparr>) s) }
          else Some (b, s) }"

definition bwrite :: "nat \<Rightarrow> 'z bio_scheme \<Rightarrow> 'z bio_scheme option" where
  "bwrite b s =
     do { (h, s) \<leftarrow> holdingsleep (SL_buf b) s;
          if \<not> h then None else Some (virtio_disk_rw b True s) }"

definition brelse :: "nat \<Rightarrow> 'z bio_scheme \<Rightarrow> 'z bio_scheme option" where
  "brelse b s =
     do { (h, s) \<leftarrow> holdingsleep (SL_buf b) s;
          if \<not> h then None
          else do {
            s \<leftarrow> releasesleep (SL_buf b) s;
            s \<leftarrow> acquire L_bcache s;
            let s = upd_buf b (\<lambda>x. x\<lparr>b_refcnt := b_refcnt x - 1\<rparr>) s;
            let s = (if b_refcnt (bufs s b) = 0 then
                       let s = upd_buf (b_next (bufs s b)) (\<lambda>x. x\<lparr>b_prev := b_prev (bufs s b)\<rparr>) s;
                           s = upd_buf (b_prev (bufs s b)) (\<lambda>x. x\<lparr>b_next := b_next (bufs s b)\<rparr>) s
                       in link_front b s
                     else s);
            release L_bcache s } }"

definition bpin :: "nat \<Rightarrow> 'z bio_scheme \<Rightarrow> 'z bio_scheme option" where
  "bpin b s =
     do { s \<leftarrow> acquire L_bcache s;
          let s = upd_buf b (\<lambda>x. x\<lparr>b_refcnt := b_refcnt x + 1\<rparr>) s;
          release L_bcache s }"

definition bunpin :: "nat \<Rightarrow> 'z bio_scheme \<Rightarrow> 'z bio_scheme option" where
  "bunpin b s =
     do { s \<leftarrow> acquire L_bcache s;
          let s = upd_buf b (\<lambda>x. x\<lparr>b_refcnt := b_refcnt x - 1\<rparr>) s;
          release L_bcache s }"

text \<open>The zeroed buffer cache over a zeroed disk.\<close>

definition bio0 :: bio where
  "bio0 = slk.extend slk0 (bio.fields (\<lambda>_. \<lparr>b_valid = False, b_dev = 0, b_blockno = 0, b_refcnt = 0,
     b_prev = 0, b_next = 0, b_data = (\<lambda>_. 0)\<rparr>) (\<lambda>_ _. 0) [])"

lemma bio0_fields [simp]:
  "held bio0 = []" "intena bio0 = True" "hartid bio0 = 0" "procs bio0 = (\<lambda>_. proc0)"
  "cpu_proc bio0 = (\<lambda>_. None)" "klog bio0 = []" "ticks bio0 = 0" "myproc bio0 = None"
  "slocks bio0 = (\<lambda>_. \<lparr>sl_locked = False, sl_pid = 0\<rparr>)" "disk bio0 = (\<lambda>_ _. 0)" "disk_writes bio0 = []"
  by (simp_all add: bio0_def slk.defs bio.defs kern0_def myproc_def cpuid_def slk0_def kern.defs)

end
