(* ===== verification/Virtio.thy ===== *)
theory Virtio
  imports Bio
begin

text \<open>
  The disk driver, \<^verbatim>\<open>kernel/virtio_disk.c\<close>: allocation of descriptors, submission of a request
  and the completion interrupt. The buffer cache is written against the contract
  \<open>virtio_disk_rw\<close> of theory \<open>Bio\<close>; here is the driver itself, on the queue it shares with the
  device.

  The addresses in descriptors are those of a request header \<open>ops[i]\<close>, of the data of a
  buffer and of a status byte \<open>info[i].status\<close>. The device is not part of the sources: a
  register read during initialisation is the parameter \<open>rd\<close>, register writes are recorded in
  \<open>v_writes\<close>, and what the device does to the queue happens during \<open>sw\<close>.
\<close>

section \<open>The queue\<close>

definition NUM :: nat where "NUM = 8"

datatype dma_addr = DMA_null | DMA_op nat | DMA_data nat | DMA_status nat

record virtq_desc =
  d_addr :: dma_addr
  d_len :: uint32
  d_flags :: uint16
  d_next :: uint16

record virtio_blk_req =
  r_type :: uint32
  r_reserved :: uint32
  r_sector :: uint64

text \<open>\<open>disk\<close>, with its rings, the field \<open>disk\<close> of each \<open>struct buf\<close>, and the register writes.\<close>

record vio = bio +
  v_desc :: "nat \<Rightarrow> virtq_desc"
  avail_ring :: "nat \<Rightarrow> uint16"
  avail_idx :: uint16
  used_ring :: "nat \<Rightarrow> uint32"
  used_idx_dev :: uint16
  v_free :: "nat \<Rightarrow> bool"
  v_used_idx :: uint16
  info_b :: "nat \<Rightarrow> nat option"
  info_status :: "nat \<Rightarrow> uint8"
  v_ops :: "nat \<Rightarrow> virtio_blk_req"
  buf_disk :: "nat \<Rightarrow> bool"
  v_writes :: "(nat \<times> uint32) list"

definition VRING_DESC_F_NEXT :: uint16 where "VRING_DESC_F_NEXT = 1"
definition VRING_DESC_F_WRITE :: uint16 where "VRING_DESC_F_WRITE = 2"
definition VIRTIO_BLK_T_IN :: uint32 where "VIRTIO_BLK_T_IN = 0"
definition VIRTIO_BLK_T_OUT :: uint32 where "VIRTIO_BLK_T_OUT = 1"

definition upd_desc :: "nat \<Rightarrow> virtq_desc \<Rightarrow> 'z vio_scheme \<Rightarrow> 'z vio_scheme" where
  "upd_desc i d s = s\<lparr>v_desc := (v_desc s)(i := d)\<rparr>"

section \<open>Descriptors\<close>

definition alloc_desc :: "'z vio_scheme \<Rightarrow> nat option \<times> 'z vio_scheme" where
  "alloc_desc s =
     (case find (v_free s) [0..<NUM] of
        Some i \<Rightarrow> (Some i, s\<lparr>v_free := (v_free s)(i := False)\<rparr>)
      | None \<Rightarrow> (None, s))"

definition free_desc :: "nat \<Rightarrow> 'z vio_scheme \<Rightarrow> 'z vio_scheme option" where
  "free_desc i s =
     (if i \<ge> NUM then None
      else if v_free s i then None
      else let s = upd_desc i \<lparr>d_addr = DMA_null, d_len = 0, d_flags = 0, d_next = 0\<rparr> s;
               s = s\<lparr>v_free := (v_free s)(i := True)\<rparr>
           in wakeup (Some C_diskfree) s)"

text \<open>A chain whose links form a cycle would be freed twice, which is a panic.\<close>

partial_function (option) free_chain :: "nat \<Rightarrow> 'z vio_scheme \<Rightarrow> 'z vio_scheme option" where
  "free_chain i s =
     do { let fl = d_flags (v_desc s i);
          let nxt = d_next (v_desc s i);
          s \<leftarrow> free_desc i s;
          if fl AND VRING_DESC_F_NEXT \<noteq> 0 then free_chain (unat nxt) s else Some s }"

definition alloc3_desc :: "'z vio_scheme \<Rightarrow> ((nat \<times> nat \<times> nat) option \<times> 'z vio_scheme) option" where
  "alloc3_desc s =
     (case alloc_desc s of
        (None, s) \<Rightarrow> Some (None, s)
      | (Some i0, s) \<Rightarrow>
          (case alloc_desc s of
             (None, s) \<Rightarrow> do { s \<leftarrow> free_desc i0 s; Some (None, s) }
           | (Some i1, s) \<Rightarrow>
               (case alloc_desc s of
                  (None, s) \<Rightarrow> do { s \<leftarrow> free_desc i0 s; s \<leftarrow> free_desc i1 s; Some (None, s) }
                | (Some i2, s) \<Rightarrow> Some (Some (i0, i1, i2), s))))"

section \<open>Requests\<close>

partial_function (option) alloc3_wait :: "('z vio_scheme \<Rightarrow> 'z vio_scheme option) \<Rightarrow> 'z vio_scheme \<Rightarrow>
    ((nat \<times> nat \<times> nat) \<times> 'z vio_scheme) option" where
  "alloc3_wait sw s =
     do { (r, s) \<leftarrow> alloc3_desc s;
          case r of
            Some idx \<Rightarrow> Some (idx, s)
          | None \<Rightarrow> do { s \<leftarrow> sleep sw C_diskfree L_vdisk s; alloc3_wait sw s } }"

definition submit :: "nat \<Rightarrow> bool \<Rightarrow> nat \<times> nat \<times> nat \<Rightarrow> 'z vio_scheme \<Rightarrow> 'z vio_scheme" where
  "submit b write = (\<lambda>(i0, i1, i2) s.
     let sector = ucast (b_blockno (bufs s b) * 2);
         s = s\<lparr>v_ops := (v_ops s)(i0 := \<lparr>r_type = (if write then VIRTIO_BLK_T_OUT else VIRTIO_BLK_T_IN),
                r_reserved = 0, r_sector = sector\<rparr>)\<rparr>;
         s = upd_desc i0 \<lparr>d_addr = DMA_op i0, d_len = 16, d_flags = VRING_DESC_F_NEXT,
                d_next = of_nat i1\<rparr> s;
         s = upd_desc i1 \<lparr>d_addr = DMA_data b, d_len = of_nat BSIZE,
                d_flags = (if write then 0 else VRING_DESC_F_WRITE) OR VRING_DESC_F_NEXT,
                d_next = of_nat i2\<rparr> s;
         s = s\<lparr>info_status := (info_status s)(i0 := 0xff)\<rparr>;
         s = upd_desc i2 \<lparr>d_addr = DMA_status i0, d_len = 1, d_flags = VRING_DESC_F_WRITE, d_next = 0\<rparr> s;
         s = s\<lparr>buf_disk := (buf_disk s)(b := True)\<rparr>;
         s = s\<lparr>info_b := (info_b s)(i0 := Some b)\<rparr>;
         s = s\<lparr>avail_ring := (avail_ring s)(unat (avail_idx s) mod NUM := of_nat i0)\<rparr>;
         s = s\<lparr>avail_idx := avail_idx s + 1\<rparr>
     in s\<lparr>v_writes := v_writes s @ [(0x050, 0)]\<rparr>)"

partial_function (option) disk_wait :: "('z vio_scheme \<Rightarrow> 'z vio_scheme option) \<Rightarrow> nat \<Rightarrow> 'z vio_scheme \<Rightarrow>
    'z vio_scheme option" where
  "disk_wait sw b s =
     (if buf_disk s b then do { s \<leftarrow> sleep sw (C_buf b) L_vdisk s; disk_wait sw b s } else Some s)"

definition vdisk_rw :: "('z vio_scheme \<Rightarrow> 'z vio_scheme option) \<Rightarrow> nat \<Rightarrow> bool \<Rightarrow> 'z vio_scheme \<Rightarrow>
    'z vio_scheme option" where
  "vdisk_rw sw b write s =
     do { s \<leftarrow> acquire L_vdisk s;
          (idx, s) \<leftarrow> alloc3_wait sw s;
          let s = submit b write idx s;
          s \<leftarrow> disk_wait sw b s;
          let s = s\<lparr>info_b := (info_b s)(fst idx := None)\<rparr>;
          s \<leftarrow> free_chain (fst idx) s;
          release L_vdisk s }"

section \<open>Completion\<close>

partial_function (option) intr_loop :: "'z vio_scheme \<Rightarrow> 'z vio_scheme option" where
  "intr_loop s =
     (if v_used_idx s \<noteq> used_idx_dev s then
        do { let id = unat (used_ring s (unat (v_used_idx s) mod NUM));
             if info_status s id \<noteq> 0 then None
             else do {
               b \<leftarrow> info_b s id;
               let s = s\<lparr>buf_disk := (buf_disk s)(b := False)\<rparr>;
               s \<leftarrow> wakeup (Some (C_buf b)) s;
               intr_loop (s\<lparr>v_used_idx := v_used_idx s + 1\<rparr>) } }
      else Some s)"

text \<open>\<open>status\<close> is the value read from the interrupt-status register.\<close>

definition virtio_disk_intr :: "uint32 \<Rightarrow> 'z vio_scheme \<Rightarrow> 'z vio_scheme option" where
  "virtio_disk_intr status s =
     do { s \<leftarrow> acquire L_vdisk s;
          let s = s\<lparr>v_writes := v_writes s @ [(0x064, status AND 3)]\<rparr>;
          s \<leftarrow> intr_loop s;
          release L_vdisk s }"

section \<open>Initialisation\<close>

definition vwrite :: "nat \<Rightarrow> uint32 \<Rightarrow> 'z vio_scheme \<Rightarrow> 'z vio_scheme" where
  "vwrite r v s = s\<lparr>v_writes := v_writes s @ [(r, v)]\<rparr>"

definition driver_features :: "uint32 \<Rightarrow> uint32" where
  "driver_features f =
     (let f = f AND NOT (push_bit 5 1);
          f = f AND NOT (push_bit 7 1);
          f = f AND NOT (push_bit 11 1);
          f = f AND NOT (push_bit 12 1);
          f = f AND NOT (push_bit 27 1);
          f = f AND NOT (push_bit 29 1)
      in f AND NOT (push_bit 28 1))"

text \<open>
  \<open>rd r s\<close> is the value of register \<open>r\<close>, which may depend on what was written. The descriptor
  table and the rings are three pages; in the model they are the fields above, cleared here.
\<close>

definition virtio_disk_init :: "(nat \<Rightarrow> 'z vio_scheme \<Rightarrow> uint32) \<Rightarrow> 'z vio_scheme \<Rightarrow> 'z vio_scheme option" where
  "virtio_disk_init rd s =
     (if rd 0x000 s \<noteq> 0x74726976 \<or> rd 0x004 s \<noteq> 2 \<or> rd 0x008 s \<noteq> 2 \<or> rd 0x00c s \<noteq> 0x554d4551 then None
      else do {
        let s = vwrite 0x070 0 s;
        let s = vwrite 0x070 1 s;
        let s = vwrite 0x070 (1 OR 2) s;
        let s = vwrite 0x020 (driver_features (rd 0x010 s)) s;
        let s = vwrite 0x070 (1 OR 2 OR 8) s;
        let status = rd 0x070 s;
        if status AND 8 = 0 then None
        else do {
          let s = vwrite 0x030 0 s;
          if rd 0x044 s \<noteq> 0 then None
          else if rd 0x034 s = 0 then None
          else if rd 0x034 s < of_nat NUM then None
          else do {
            (desc, s) \<leftarrow> kalloc s;
            (avail, s) \<leftarrow> kalloc s;
            (used, s) \<leftarrow> kalloc s;
            if desc = 0 \<or> avail = 0 \<or> used = 0 then None
            else do {
              let s = s\<lparr>mem := memset (memset (memset (mem s) (unat desc) 0 4096) (unat avail) 0 4096)
                                 (unat used) 0 4096\<rparr>;
              let s = s\<lparr>v_desc := (\<lambda>_. \<lparr>d_addr = DMA_null, d_len = 0, d_flags = 0, d_next = 0\<rparr>),
                        avail_ring := (\<lambda>_. 0), avail_idx := 0, used_ring := (\<lambda>_. 0), used_idx_dev := 0\<rparr>;
              let s = vwrite 0x038 (of_nat NUM) s;
              let s = vwrite 0x080 (ucast desc) s;
              let s = vwrite 0x084 (ucast (drop_bit 32 desc)) s;
              let s = vwrite 0x090 (ucast avail) s;
              let s = vwrite 0x094 (ucast (drop_bit 32 avail)) s;
              let s = vwrite 0x0a0 (ucast used) s;
              let s = vwrite 0x0a4 (ucast (drop_bit 32 used)) s;
              let s = vwrite 0x044 1 s;
              let s = s\<lparr>v_free := (\<lambda>i. if i < NUM then True else v_free s i)\<rparr>;
              Some (vwrite 0x070 (status OR 4) s) } } } })"

section \<open>The driver implements the contract\<close>

text \<open>
  The device's side of the queue. \<open>request s i b n w\<close>: the chain of descriptors that starts at \<open>i\<close>
  asks for block \<open>n\<close> to be transferred from (\<open>w\<close>) or to the data of buffer \<open>b\<close>.
\<close>

definition request :: "'z vio_scheme \<Rightarrow> nat \<Rightarrow> nat \<Rightarrow> uint32 \<Rightarrow> bool \<Rightarrow> bool" where
  "request s i b n w \<longleftrightarrow>
     (let d0 = v_desc s i; d1 = v_desc s (unat (d_next d0)); d2 = v_desc s (unat (d_next d1)) in
      d_addr d0 = DMA_op i \<and> d_len d0 = 16 \<and> d_flags d0 = 1 \<and>
      d_addr d1 = DMA_data b \<and> d_len d1 = 1024 \<and> d_flags d1 = (if w then 1 else 3) \<and>
      d_addr d2 = DMA_status i \<and> d_len d2 = 1 \<and> d_flags d2 = 2 \<and>
      r_type (v_ops s i) = (if w then 1 else 0) \<and> r_sector (v_ops s i) = 2 * ucast n)"

text \<open>What the device does for such a request: the transfer, the status byte, the entry of the used ring.\<close>

definition served :: "nat \<Rightarrow> nat \<Rightarrow> uint32 \<Rightarrow> bool \<Rightarrow> 'z vio_scheme \<Rightarrow> 'z vio_scheme" where
  "served i b n w s =
     (let s = (if w then s\<lparr>disk := (disk s)(n := block_of (b_data (bufs s b))),
                           disk_writes := disk_writes s @ [(n, block_of (b_data (bufs s b)))]\<rparr>
               else upd_buf b (\<lambda>x. x\<lparr>b_data := disk s n\<rparr>) s)
      in s\<lparr>info_status := (info_status s)(i := 0),
           used_ring := (used_ring s)(unat (used_idx_dev s) mod NUM := of_nat i),
           used_idx_dev := used_idx_dev s + 1\<rparr>)"

text \<open>The documented behaviour of the device, with one request outstanding.\<close>

definition serves :: "('z vio_scheme \<Rightarrow> 'z vio_scheme) \<Rightarrow> bool" where
  "serves dev \<longleftrightarrow> (\<forall>s i b n w. avail_idx s = used_idx_dev s + 1 \<longrightarrow>
     avail_ring s (unat (used_idx_dev s) mod NUM) = of_nat i \<longrightarrow> i < NUM \<longrightarrow> request s i b n w \<longrightarrow>
     dev s = served i b n w s)"

text \<open>
  While the process waits for its buffer, the scheduler releases its lock, the device works, the
  completion interrupt is handled by the idle hart, and the process is run again.
\<close>

definition io_switch :: "('z vio_scheme \<Rightarrow> 'z vio_scheme) \<Rightarrow> uint32 \<Rightarrow> nat \<Rightarrow> 'z vio_scheme \<Rightarrow> 'z vio_scheme option" where
  "io_switch dev status p s =
     do { s \<leftarrow> release (L_proc p) (set_cpu_proc None s);
          s \<leftarrow> virtio_disk_intr status (dev s);
          s \<leftarrow> acquire (L_proc p) s;
          if pstate s p = RUNNABLE then Some (set_cpu_proc (Some p) (set_state p RUNNING s)) else None }"

definition queue_idle :: "'z vio_scheme \<Rightarrow> bool" where
  "queue_idle s \<longleftrightarrow> (\<forall>i<NUM. v_free s i) \<and> used_idx_dev s = avail_idx s \<and> v_used_idx s = avail_idx s"

lemma alloc3_idle:
  assumes "queue_idle s"
  shows "alloc3_wait sw s = Some ((0, 1, 2), s\<lparr>v_free := (v_free s)(0 := False, 1 := False, 2 := False)\<rparr>)"
proof -
  have u: "[0..<NUM] = [0, 1, 2, 3, 4, 5, 6, 7]" by (simp add: NUM_def upt_rec)
  have "v_free s 0" "v_free s (Suc 0)" "v_free s 2" using assms by (simp_all add: queue_idle_def NUM_def)
  then show ?thesis by (subst alloc3_wait.simps) (simp add: alloc3_desc_def alloc_desc_def u)
qed

lemma sector_no_overflow:
  assumes "n < (2 ^ 31 :: uint32)"
  shows "ucast (n * 2) = (2 * ucast n :: uint64)"
proof -
  have l: "unat n < 2 ^ 31" using assms by (simp add: word_less_nat_alt)
  then have "unat (n * 2) = unat n * 2" by (simp add: unat_word_ariths)
  then show ?thesis
    using l by (simp add: word_unat_eq_iff unsigned_ucast_eq take_bit_eq_mod unat_word_ariths)
qed

lemma submit_request:
  assumes "b_blockno (bufs s b) < 2 ^ 31"
  shows "request (submit b w (0, 1, 2) s) 0 b (b_blockno (bufs s b)) w"
proof -
  have "ucast (b_blockno (bufs s b) * 2) = (2 * ucast (b_blockno (bufs s b)) :: uint64)"
    using assms by (rule sector_no_overflow)
  then show ?thesis
    by (simp add: request_def submit_def Let_def upd_desc_def VRING_DESC_F_NEXT_def VRING_DESC_F_WRITE_def
        VIRTIO_BLK_T_IN_def VIRTIO_BLK_T_OUT_def BSIZE_def)
qed


lemma served_fields [simp]:
  "disk (served i b n w s) = (if w then (disk s)(n := block_of (b_data (bufs s b))) else disk s)"
  "disk_writes (served i b n w s) =
     (if w then disk_writes s @ [(n, block_of (b_data (bufs s b)))] else disk_writes s)"
  "bufs (served i b n w s) =
     (if w then bufs s else (bufs s)(b := (bufs s b)\<lparr>b_data := disk s n\<rparr>))"
  "info_status (served i b n w s) = (info_status s)(i := 0)"
  "used_ring (served i b n w s) = (used_ring s)(unat (used_idx_dev s) mod NUM := of_nat i)"
  "used_idx_dev (served i b n w s) = used_idx_dev s + 1"
  "cpu_proc (served i b n w s) = cpu_proc s" "hartid (served i b n w s) = hartid s"
  "held (served i b n w s) = held s" "procs (served i b n w s) = procs s"
  "myproc (served i b n w s) = myproc s" "slocks (served i b n w s) = slocks s"
  "v_desc (served i b n w s) = v_desc s" "v_free (served i b n w s) = v_free s"
  "avail_idx (served i b n w s) = avail_idx s" "v_used_idx (served i b n w s) = v_used_idx s"
  "info_b (served i b n w s) = info_b s" "buf_disk (served i b n w s) = buf_disk s"
  "cpuid (served i b n w s) = cpuid s" "intena (served i b n w s) = intena s" "v_ops (served i b n w s) = v_ops s"
  by (simp_all add: served_def Let_def upd_buf_def myproc_def cpuid_def)

lemma submit_fields [simp]:
  "disk (submit b w (i, j, k) s) = disk s" "disk_writes (submit b w (i, j, k) s) = disk_writes s"
  "bufs (submit b w (i, j, k) s) = bufs s"
  "held (submit b w (i, j, k) s) = held s" "procs (submit b w (i, j, k) s) = procs s"
  "myproc (submit b w (i, j, k) s) = myproc s" "slocks (submit b w (i, j, k) s) = slocks s"
  "v_free (submit b w (i, j, k) s) = v_free s"
  "avail_idx (submit b w (i, j, k) s) = avail_idx s + 1"
  "avail_ring (submit b w (i, j, k) s) = (avail_ring s)(unat (avail_idx s) mod NUM := of_nat i)"
  "used_idx_dev (submit b w (i, j, k) s) = used_idx_dev s"
  "v_used_idx (submit b w (i, j, k) s) = v_used_idx s"
  "info_b (submit b w (i, j, k) s) = (info_b s)(i := Some b)"
  "buf_disk (submit b w (i, j, k) s) = (buf_disk s)(b := True)"
  "intena (submit b w (i, j, k) s) = intena s"
  by (simp_all add: submit_def Let_def upd_desc_def myproc_def cpuid_def)


text \<open>The fields of the driver do not matter to the process that runs or the locks that are held.\<close>

lemma vio_myproc [simp]:
  "myproc (s\<lparr>v_desc := xa\<rparr>) = myproc s" "myproc (s\<lparr>v_free := xb\<rparr>) = myproc s"
  "myproc (s\<lparr>buf_disk := xc\<rparr>) = myproc s" "myproc (s\<lparr>v_used_idx := xd\<rparr>) = myproc s"
  "myproc (s\<lparr>v_writes := xe\<rparr>) = myproc s" "myproc (s\<lparr>info_b := xf\<rparr>) = myproc s"
  "myproc (s\<lparr>v_ops := xg\<rparr>) = myproc s" "myproc (s\<lparr>info_status := xh\<rparr>) = myproc s"
  "myproc (s\<lparr>avail_ring := xi\<rparr>) = myproc s" "myproc (s\<lparr>avail_idx := xj\<rparr>) = myproc s"
  by (simp_all add: myproc_def cpuid_def)

lemma vio_others_free [simp]:
  "others_free (s\<lparr>v_desc := xa\<rparr>) = others_free s" "others_free (s\<lparr>v_free := xb\<rparr>) = others_free s"
  "others_free (s\<lparr>buf_disk := xc\<rparr>) = others_free s" "others_free (s\<lparr>v_used_idx := xd\<rparr>) = others_free s"
  "others_free (s\<lparr>v_writes := xe\<rparr>) = others_free s" "others_free (s\<lparr>info_b := xf\<rparr>) = others_free s"
  "others_free (s\<lparr>v_ops := xg\<rparr>) = others_free s" "others_free (s\<lparr>info_status := xh\<rparr>) = others_free s"
  "others_free (s\<lparr>avail_ring := xi\<rparr>) = others_free s" "others_free (s\<lparr>avail_idx := xj\<rparr>) = others_free s"
  by (simp_all add: others_free_def)

text \<open>One completed request: the loop of the interrupt handler runs once.\<close>

lemma intr_loop_done: "v_used_idx s = used_idx_dev s \<Longrightarrow> intr_loop s = Some s"
  by (subst intr_loop.simps) simp

lemma intr_loop_once:
  assumes u: "used_idx_dev s = v_used_idx s + 1" and r: "used_ring s (unat (v_used_idx s) mod NUM) = of_nat i"
    and i: "i < NUM" and st: "info_status s i = 0" and b: "info_b s i = Some b" and o: "others_free s"
  shows "intr_loop s = Some (s\<lparr>buf_disk := (buf_disk s)(b := False),
    procs := (\<lambda>p. if p < NPROC then woken (Some (C_buf b)) (myproc s) p (procs s p) else procs s p),
    v_used_idx := used_idx_dev s\<rparr>)"
proof -
  have "unat (of_nat i :: uint32) = i" using i by (simp add: NUM_def unat_of_nat take_bit_eq_mod)
  then show ?thesis
    by (subst intr_loop.simps) (simp add: u r st b wakeup_eq o intr_loop_done cong: if_cong)
qed

lemma free_desc_eq:
  assumes "i < NUM" "\<not> v_free s i" "others_free s"
  shows "free_desc i s = Some (s\<lparr>v_desc := (v_desc s)(i := \<lparr>d_addr = DMA_null, d_len = 0, d_flags = 0, d_next = 0\<rparr>),
    v_free := (v_free s)(i := True),
    procs := (\<lambda>p. if p < NPROC then woken (Some C_diskfree) (myproc s) p (procs s p) else procs s p)\<rparr>)"
  using assms by (simp add: free_desc_def upd_desc_def Let_def wakeup_eq cong: if_cong)


text \<open>Submitted and not yet served, and what holds once the completion has been handled.\<close>

definition pending :: "nat \<Rightarrow> nat \<Rightarrow> uint32 \<Rightarrow> bool \<Rightarrow> 'z vio_scheme \<Rightarrow> bool" where
  "pending i b n w s \<longleftrightarrow> i < NUM \<and> request s i b n w \<and> info_b s i = Some b \<and> v_used_idx s = used_idx_dev s \<and>
     avail_idx s = used_idx_dev s + 1 \<and> avail_ring s (unat (used_idx_dev s) mod NUM) = of_nat i"

definition io_done :: "nat \<Rightarrow> nat \<Rightarrow> uint32 \<Rightarrow> bool \<Rightarrow> 'z vio_scheme \<Rightarrow> 'z vio_scheme \<Rightarrow> bool" where
  "io_done i b n w s t \<longleftrightarrow> disk t = disk (served i b n w s) \<and> disk_writes t = disk_writes (served i b n w s) \<and>
     bufs t = bufs (served i b n w s) \<and> slocks t = slocks s \<and> v_desc t = v_desc s \<and> v_free t = v_free s \<and>
     \<not> buf_disk t b \<and> used_idx_dev t = avail_idx t \<and> v_used_idx t = avail_idx t"

lemma pending_frame [simp]:
  "pending i b n w (s\<lparr>held := h\<rparr>) = pending i b n w s"
  "pending i b n w (s\<lparr>cpu_proc := c\<rparr>) = pending i b n w s"
  "pending i b n w (s\<lparr>procs := ps\<rparr>) = pending i b n w s"
  by (simp_all add: pending_def request_def Let_def)

lemma served_pending:
  "serves dev \<Longrightarrow> pending i b n w s \<Longrightarrow> dev s = served i b n w s"
  unfolding serves_def pending_def by blast

lemma virtio_disk_intr_served:
  assumes p: "pending i b n w s" and h: "held s = []"
  shows "\<exists>t. virtio_disk_intr st (served i b n w s) = Some t \<and> io_done i b n w s t \<and> held t = [] \<and>
    cpu_proc t = cpu_proc s \<and> hartid t = hartid s \<and>
    procs t = (\<lambda>p. if p < NPROC then woken (Some (C_buf b)) (myproc s) p (procs s p) else procs s p)"
proof -
  let ?u = "(served i b n w s)\<lparr>held := [L_vdisk], v_writes := v_writes (served i b n w s) @ [(0x064, st AND 3)]\<rparr>"
  have "used_idx_dev ?u = v_used_idx ?u + 1" "used_ring ?u (unat (v_used_idx ?u) mod NUM) = of_nat i" "i < NUM"
    "info_status ?u i = 0" "info_b ?u i = Some b" "others_free ?u"
    using p by (simp_all add: pending_def others_free_def)
  note l = intr_loop_once [OF this]
  have "virtio_disk_intr st (served i b n w s) = intr_loop ?u \<bind> release L_vdisk"
    using h by (simp add: virtio_disk_intr_def acquire_free)
  also note l
  finally show ?thesis
    using p by (simp add: release_head io_done_def pending_def cong: if_cong)
qed

lemma io_switch_serves:
  assumes d: "serves dev" and p: "pending i b n w s" and np: "q < NPROC" and h: "held s = [L_proc q]"
    and st: "pstate s q = SLEEPING" "p_chan (procs s q) = Some (C_buf b)" and c: "myproc s = Some q"
  shows "\<exists>t. io_switch dev stat q s = Some t \<and> io_done i b n w s t \<and> entered q t"
proof -
  let ?u = "(set_cpu_proc None s)\<lparr>held := []\<rparr>"
  have pu: "pending i b n w ?u" using p by (simp add: set_cpu_proc_def)
  obtain t where t: "virtio_disk_intr stat (served i b n w ?u) = Some t" "io_done i b n w ?u t" "held t = []"
    "hartid t = hartid ?u"
    "procs t = (\<lambda>p. if p < NPROC then woken (Some (C_buf b)) (myproc ?u) p (procs ?u p) else procs ?u p)"
    using virtio_disk_intr_served [OF pu, of stat] by auto
  have "pstate t q = RUNNABLE" using t(5) np st by (simp add: woken_def set_cpu_proc_def myproc_def cpuid_def)
  then have "io_switch dev stat q s = Some (set_cpu_proc (Some q) (set_state q RUNNING (t\<lparr>held := [L_proc q]\<rparr>)))"
    using h t(1,3) by (simp add: io_switch_def release_head acquire_free served_pending [OF d pu])
  moreover have "io_done i b n w s (set_cpu_proc (Some q) (set_state q RUNNING (t\<lparr>held := [L_proc q]\<rparr>)))"
    using t(2) by (simp add: io_done_def set_cpu_proc_def upd_proc_def)
  ultimately show ?thesis by (simp add: entered_def)
qed


lemma io_sleep:
  assumes d: "serves dev" and p: "pending i b n w s" and np: "q < NPROC" and h: "held s = [L_vdisk]"
    and c: "myproc s = Some q"
  shows "\<exists>t. sleep (io_switch dev stat q) (C_buf b) L_vdisk s = Some t \<and> io_done i b n w s t \<and>
    held t = [L_vdisk] \<and> myproc t = Some q \<and> pstate t q = RUNNING"
proof -
  let ?u = "upd_proc q (\<lambda>x. x\<lparr>p_chan := Some (C_buf b), p_state := SLEEPING\<rparr>) (s\<lparr>held := [L_proc q]\<rparr>)"
  have u: "sleep_enter (C_buf b) L_vdisk q s = Some ?u"
    using h by (simp add: sleep_enter_def acquire_free release_held upd_proc_def)
  have "pending i b n w ?u" "held ?u = [L_proc q]" "pstate ?u q = SLEEPING" "p_chan (procs ?u q) = Some (C_buf b)"
    "myproc ?u = Some q" using p c by (simp_all add: upd_proc_def)
  then obtain t where t: "io_switch dev stat q ?u = Some t" "io_done i b n w ?u t" "entered q t"
    using io_switch_serves [OF d _ np] by blast
  have s: "sched (io_switch dev stat q) ?u = Some (t\<lparr>intena := intena ?u\<rparr>)"
    using t(1) c by (simp add: sched_def holding_def noff_def intr_get_def)
  let ?v = "upd_proc q (\<lambda>x. x\<lparr>p_chan := None\<rparr>) (t\<lparr>intena := intena ?u\<rparr>)"
  have "held ?v = [L_proc q]" using t(3) by (simp add: entered_def)
  then have "sleep (io_switch dev stat q) (C_buf b) L_vdisk s = acquire L_vdisk (?v\<lparr>held := []\<rparr>)"
    by (simp only: sleep_def c u s bind.bind_lunit Let_def release_head)
  also have "\<dots> = Some (?v\<lparr>held := [L_vdisk]\<rparr>)" by (simp add: acquire_free)
  finally show ?thesis using t(2,3) by (simp add: entered_def io_done_def upd_proc_def cong: if_cong)
qed

lemma disk_wait_served:
  assumes "serves dev" "pending i b n w s" "q < NPROC" "held s = [L_vdisk]" "myproc s = Some q" "buf_disk s b"
  shows "\<exists>t. disk_wait (io_switch dev stat q) b s = Some t \<and> io_done i b n w s t \<and>
    held t = [L_vdisk] \<and> myproc t = Some q \<and> pstate t q = RUNNING"
proof -
  obtain t where t: "sleep (io_switch dev stat q) (C_buf b) L_vdisk s = Some t" "io_done i b n w s t"
    "held t = [L_vdisk]" "myproc t = Some q" "pstate t q = RUNNING"
    using io_sleep [OF assms(1-5), of stat] by blast
  have "disk_wait (io_switch dev stat q) b t = Some t"
    using t(2) by (subst disk_wait.simps) (simp add: io_done_def)
  then have "disk_wait (io_switch dev stat q) b s = Some t"
    using t(1) assms(6) by (subst disk_wait.simps) simp
  with t show ?thesis by blast
qed

text \<open>The chain of a request is freed as a whole.\<close>

lemma free_chain_request:
  assumes d: "d_flags (v_desc s 0) = 1" "d_next (v_desc s 0) = 1" "d_flags (v_desc s 1) = f" "f = 1 \<or> f = 3"
      "d_next (v_desc s 1) = 2" "d_flags (v_desc s 2) = 2"
    and v: "\<not> v_free s 0" "\<not> v_free s 1" "\<not> v_free s 2" and o: "others_free s"
  shows "\<exists>t. free_chain 0 s = Some t \<and> v_free t = (v_free s)(0 := True, 1 := True, 2 := True) \<and>
    disk t = disk s \<and> disk_writes t = disk_writes s \<and> bufs t = bufs s \<and> slocks t = slocks s \<and>
    buf_disk t = buf_disk s \<and> used_idx_dev t = used_idx_dev s \<and> v_used_idx t = v_used_idx s \<and>
    avail_idx t = avail_idx s \<and> held t = held s \<and> myproc t = myproc s \<and>
    (\<forall>p. myproc s = Some p \<longrightarrow> procs t p = procs s p)"
proof -
  let ?z = "\<lparr>d_addr = DMA_null, d_len = 0, d_flags = 0, d_next = 0\<rparr>"
  let ?w = "\<lambda>s p. if p < NPROC then woken (Some C_diskfree) (myproc s) p (procs s p) else procs s p"
  let ?f = "\<lambda>i s. s\<lparr>v_desc := (v_desc s)(i := ?z), v_free := (v_free s)(i := True), procs := ?w s\<rparr>"
  have n: "0 < NUM" "1 < NUM" "2 < NUM" by (simp_all add: NUM_def)
  have f0: "free_desc 0 s = Some (?f 0 s)" using free_desc_eq [OF n(1) v(1) o] .
  have f1: "free_desc 1 (?f 0 s) = Some (?f 1 (?f 0 s))" by (rule free_desc_eq) (simp_all add: n [simplified] v [simplified] o)
  have f2: "free_desc 2 (?f 1 (?f 0 s)) = Some (?f 2 (?f 1 (?f 0 s)))" by (rule free_desc_eq) (simp_all add: n v o)
  have "free_chain 2 (?f 1 (?f 0 s)) = Some (?f 2 (?f 1 (?f 0 s)))"
    using d by (subst free_chain.simps) (simp only: f2, simp add: VRING_DESC_F_NEXT_def)
  then have "free_chain 1 (?f 0 s) = Some (?f 2 (?f 1 (?f 0 s)))"
    using d by (subst free_chain.simps) (simp only: f1, auto simp: VRING_DESC_F_NEXT_def)
  then have "free_chain 0 s = Some (?f 2 (?f 1 (?f 0 s)))"
    using d by (subst free_chain.simps) (simp only: f0, simp add: VRING_DESC_F_NEXT_def)
  then show ?thesis by (simp add: woken_def)
qed


text \<open>
  C22: the driver implements the contract the buffer cache is written against. For any device
  that serves a well-formed request as documented, on an idle queue, \<open>vdisk_rw\<close> returns, the
  buffer, the disk and the order of its writes are those of \<open>virtio_disk_rw\<close>, all descriptors
  are free again, and the process runs with no lock held. The requested sector is computed in
  32 bits, so the block number has to be below 2^31.
\<close>

theorem vdisk_rw_refines:
  assumes d: "serves dev" and q: "queue_idle s" and h: "held s = []" and c: "myproc s = Some p" "p < NPROC"
    and n: "b_blockno (bufs s b) < 2 ^ 31"
  shows "\<exists>t. vdisk_rw (io_switch dev status p) b w s = Some t \<and>
    disk t = disk (virtio_disk_rw b w s) \<and> disk_writes t = disk_writes (virtio_disk_rw b w s) \<and>
    bufs t = bufs (virtio_disk_rw b w s) \<and> slocks t = slocks s \<and> queue_idle t \<and> \<not> buf_disk t b \<and>
    held t = [] \<and> myproc t = Some p \<and> pstate t p = RUNNING"
proof -
  let ?u = "s\<lparr>held := [L_vdisk], v_free := (v_free s)(0 := False, 1 := False, 2 := False)\<rparr>"
  let ?v = "submit b w (0, 1, 2) ?u"
  have a: "alloc3_wait (io_switch dev status p) (s\<lparr>held := [L_vdisk]\<rparr>) = Some ((0, 1, 2), ?u)"
    using alloc3_idle [of "s\<lparr>held := [L_vdisk]\<rparr>"] q by (simp add: queue_idle_def)
  have pd: "pending 0 b (b_blockno (bufs s b)) w ?v"
    using submit_request [of ?u b w] n q by (simp add: pending_def queue_idle_def NUM_def)
  obtain t where t: "disk_wait (io_switch dev status p) b ?v = Some t"
    "io_done 0 b (b_blockno (bufs s b)) w ?v t" "held t = [L_vdisk]" "myproc t = Some p" "pstate t p = RUNNING"
    using disk_wait_served [OF d pd c(2), of status] c by auto
  let ?w = "t\<lparr>info_b := (info_b t)(0 := None)\<rparr>"
  have "d_flags (v_desc ?w 0) = 1" "d_next (v_desc ?w 0) = 1" "d_flags (v_desc ?w 1) = (if w then 1 else 3)"
    "(if w then 1 else 3 :: uint16) = 1 \<or> (if w then 1 else 3 :: uint16) = 3"
    "d_next (v_desc ?w 1) = 2" "d_flags (v_desc ?w 2) = 2"
    "\<not> v_free ?w 0" "\<not> v_free ?w 1" "\<not> v_free ?w 2" "others_free ?w"
    using t(2,3) by (simp_all add: io_done_def others_free_def submit_def upd_desc_def Let_def VRING_DESC_F_NEXT_def
        VRING_DESC_F_WRITE_def)
  from free_chain_request [OF this] obtain x where x: "free_chain 0 ?w = Some x"
    "v_free x = (v_free ?w)(0 := True, 1 := True, 2 := True)" "disk x = disk t" "disk_writes x = disk_writes t"
    "bufs x = bufs t" "slocks x = slocks t" "buf_disk x = buf_disk t" "used_idx_dev x = used_idx_dev t"
    "v_used_idx x = v_used_idx t" "avail_idx x = avail_idx t" "held x = held t" "myproc x = myproc t"
    "procs x p = procs t p" using t(4) by auto
  have "vdisk_rw (io_switch dev status p) b w s = Some (x\<lparr>held := []\<rparr>)"
    unfolding vdisk_rw_def using h a t(1,3) x(1,11) by (simp add: acquire_free release_head)
  then show ?thesis
    using x t(2-5) q by (simp add: io_done_def virtio_disk_rw_def upd_buf_def queue_idle_def)
qed

text \<open>A device that decodes the request at the head of the available ring, and an idle queue.\<close>

definition blk_device :: "'z vio_scheme \<Rightarrow> 'z vio_scheme" where
  "blk_device s =
     (let i = unat (avail_ring s (unat (used_idx_dev s) mod NUM));
          d = v_desc s (unat (d_next (v_desc s i)))
      in case d_addr d of
           DMA_data b \<Rightarrow> served i b (ucast (r_sector (v_ops s i) div 2)) (r_type (v_ops s i) = 1) s
         | _ \<Rightarrow> s)"

lemma blk_device_serves: "serves blk_device"
proof -
  have s: "ucast ((2 * ucast n :: uint64) div 2) = n" for n :: uint32
  proof -
    have "unat n < 2 ^ 32" using unsigned_less [where 'a = nat, of n] by simp
    then show ?thesis by (simp add: word_unat_eq_iff unsigned_ucast_eq take_bit_eq_mod unat_word_ariths unat_div)
  qed
  have i: "unat (of_nat i :: uint16) = i" if "i < NUM" for i
    using that by (simp add: NUM_def unat_of_nat take_bit_eq_mod)
  show ?thesis by (auto simp: serves_def request_def Let_def blk_device_def i s)
qed


definition vio_ex :: vio where
  "vio_ex = bio.extend (bio0\<lparr>cpu_proc := (\<lambda>_. Some 3), bufs := (\<lambda>b. (bufs bio0 b)\<lparr>b_blockno := 46, b_data := (\<lambda>_. 9)\<rparr>)\<rparr>)
     (vio.fields (\<lambda>_. \<lparr>d_addr = DMA_null, d_len = 0, d_flags = 0, d_next = 0\<rparr>) (\<lambda>_. 0) 65535 (\<lambda>_. 0) 65535
       (\<lambda>_. True) 65535 (\<lambda>_. None) (\<lambda>_. 0) (\<lambda>_. \<lparr>r_type = 0, r_reserved = 0, r_sector = 0\<rparr>) (\<lambda>_. False) [])"

theorem vdisk_rw_refines_witness:
  "\<exists>t. vdisk_rw (io_switch blk_device 1 3) 5 True vio_ex = Some t \<and> block_of (disk t 46) 100 = 9 \<and> queue_idle t"
proof -
  have f: "queue_idle vio_ex" "held vio_ex = []" "myproc vio_ex = Some 3" "3 < NPROC" "b_blockno (bufs vio_ex 5) < 2 ^ 31"
    "b_blockno (bufs vio_ex 5) = 46" "b_data (bufs vio_ex 5) = (\<lambda>_. 9)"
    by (simp_all add: vio_ex_def queue_idle_def bio.defs vio.defs myproc_def cpuid_def NPROC_def bio0_def slk.defs
        slk0_def kern.defs kern0_def)
  obtain t where "vdisk_rw (io_switch blk_device 1 3) 5 True vio_ex = Some t"
    "disk t = disk (virtio_disk_rw 5 True vio_ex)" "queue_idle t"
    using vdisk_rw_refines [OF blk_device_serves f(1-5), of 1 True] by blast
  then show ?thesis using f(6,7) by (simp add: virtio_disk_rw_def block_of_def BSIZE_def)
qed

end
