(* ===== verification/Trap.thy ===== *)
theory Trap
  imports Proc
begin

text \<open>
  The interrupt half of \<^verbatim>\<open>kernel/trap.c\<close>: the timer interrupt with its accounting, aging
  and starvation detection, the dispatch of device interrupts, traps from kernel code and
  the preparation of a return to user space. The handlers of the two devices and the
  interrupt controller's claim and complete operations are parameters here.
\<close>

section \<open>Operations\<close>

definition SSTATUS_SPP :: uint64 where "SSTATUS_SPP = push_bit 8 1"
definition SSTATUS_SPIE :: uint64 where "SSTATUS_SPIE = push_bit 5 1"


definition upd_csr :: "(csr_regs \<Rightarrow> csr_regs) \<Rightarrow> 'z kern_scheme \<Rightarrow> 'z kern_scheme" where
  "upd_csr f s = s\<lparr>csr := f (csr s)\<rparr>"

text \<open>Bit 1 of \<open>sstatus\<close>, \<open>SIE\<close>, is \<open>intr_get\<close>.\<close>

definition r_sstatus :: "'z kern_scheme \<Rightarrow> uint64" where
  "r_sstatus s =
     (if intr_get s then set_bit 1 (csr_sstatus (csr s)) else unset_bit 1 (csr_sstatus (csr s)))"

definition w_sstatus :: "uint64 \<Rightarrow> 'z kern_scheme \<Rightarrow> 'z kern_scheme" where
  "w_sstatus x s =
     (let s = upd_csr (\<lambda>c. c\<lparr>csr_sstatus := x\<rparr>) s
      in if held s = [] then s\<lparr>intena := bit x 1\<rparr> else s)"

definition trapinithart :: "'z kern_scheme \<Rightarrow> 'z kern_scheme" where
  "trapinithart s = upd_csr (\<lambda>c. c\<lparr>csr_stvec := sym_kernelvec (syms s)\<rparr>) s"

text \<open>The body of the loop of \<open>clockintr\<close> over the process table.\<close>

definition tick_proc :: "nat \<Rightarrow> 'z kern_scheme \<Rightarrow> 'z kern_scheme option" where
  "tick_proc p s =
     do { s \<leftarrow> acquire (L_proc p) s;
          s \<leftarrow> (if pstate s p = RUNNING then
                 do { let s = upd_proc p (\<lambda>q. q\<lparr>p_rtime := p_rtime q + 1\<rparr>) s;
                      Some (upd_proc p (\<lambda>q. q\<lparr>p_pbs_rtime := p_pbs_rtime q + 1\<rparr>) s) }
               else if pstate s p = RUNNABLE then
                 do { let s = upd_proc p (\<lambda>q. q\<lparr>p_wtime := p_wtime q + 1\<rparr>) s;
                      if AGING_ENABLE then aging_update p s else Some s }
               else if pstate s p = SLEEPING then
                 do { let s = upd_proc p (\<lambda>q. q\<lparr>p_stime := p_stime q + 1\<rparr>) s;
                      Some (upd_proc p (\<lambda>q. q\<lparr>p_pbs_stime := p_pbs_stime q + 1\<rparr>) s) }
               else Some s);
          let s = detect_starving p s;
          release (L_proc p) s }"

definition clockintr :: "'z kern_scheme \<Rightarrow> 'z kern_scheme option" where
  "clockintr s =
     do { s \<leftarrow> (if cpuid s = 0 then
                 do { s \<leftarrow> acquire L_ticks s;
                      let s = s\<lparr>ticks := ticks s + 1\<rparr>;
                      s \<leftarrow> wakeup (Some C_ticks) s;
                      s \<leftarrow> release L_ticks s;
                      for_each tick_proc proc_ids s }
               else Some s);
          Some (upd_csr (\<lambda>c. c\<lparr>csr_stimecmp := csr_time c + 1000000\<rparr>) s) }"

definition devintr ::
  "('z kern_scheme \<Rightarrow> int \<times> 'z kern_scheme) \<Rightarrow> (int \<Rightarrow> 'z kern_scheme \<Rightarrow> 'z kern_scheme) \<Rightarrow>
   ('z kern_scheme \<Rightarrow> 'z kern_scheme option) \<Rightarrow> ('z kern_scheme \<Rightarrow> 'z kern_scheme option) \<Rightarrow>
   'z kern_scheme \<Rightarrow> (int \<times> 'z kern_scheme) option" where
  "devintr plic_claim plic_complete uartintr virtio_disk_intr s =
     (if csr_scause (csr s) = 0x8000000000000009 then
        do { let (irq, s) = plic_claim s;
             s \<leftarrow> (if irq = UART0_IRQ then uartintr s
                  else if irq = VIRTIO0_IRQ then virtio_disk_intr s
                  else if irq \<noteq> 0 then kprintf ''unexpected interrupt irq=%d\<newline>'' [KInt irq] s
                  else Some s);
             let s = (if irq \<noteq> 0 then plic_complete irq s else s);
             Some (1, s) }
      else if csr_scause (csr s) = 0x8000000000000005 then
        do { s \<leftarrow> clockintr s; Some (2, s) }
      else Some (0, s))"

text \<open>
  \<open>rr\<close> says whether the kernel is compiled with the round-robin policy; \<open>dev\<close> is
  \<open>devintr\<close> and \<open>sw\<close> the switch made by \<open>yield\<close>. The message printed before the panic for
  an unknown trap is not part of the result, since a panic has none.
\<close>

definition kerneltrap ::
  "bool \<Rightarrow> ('z kern_scheme \<Rightarrow> (int \<times> 'z kern_scheme) option) \<Rightarrow>
   ('z kern_scheme \<Rightarrow> 'z kern_scheme option) \<Rightarrow> 'z kern_scheme \<Rightarrow> 'z kern_scheme option" where
  "kerneltrap rr dev sw s =
     (let sepc = csr_sepc (csr s); sstatus = r_sstatus s
      in if sstatus AND SSTATUS_SPP = 0 then None
         else if intr_get s then None
         else do {
           (which_dev, s) \<leftarrow> dev s;
           if which_dev = 0 then None
           else do {
             s \<leftarrow> (if which_dev = 2 \<and> myproc s \<noteq> None then (if rr then yield sw s else Some s)
                  else Some s);
             let s = upd_csr (\<lambda>c. c\<lparr>csr_sepc := sepc\<rparr>) s;
             Some (w_sstatus sstatus s) } })"

text \<open>Offsets in \<open>struct trapframe\<close>.\<close>

definition tf_kernel_satp :: nat where "tf_kernel_satp = 0"
definition tf_kernel_sp :: nat where "tf_kernel_sp = 8"
definition tf_kernel_trap :: nat where "tf_kernel_trap = 16"
definition tf_epc :: nat where "tf_epc = 24"
definition tf_kernel_hartid :: nat where "tf_kernel_hartid = 32"
definition tf_sp :: nat where "tf_sp = 48"
definition tf_a :: "nat \<Rightarrow> nat" where "tf_a i = 112 + 8 * i"

definition tf_get :: "nat \<Rightarrow> nat \<Rightarrow> 'z kern_scheme \<Rightarrow> uint64" where
  "tf_get p off s = ld64 (mem s) (unat (p_trapframe (procs s p)) + off)"

definition tf_set :: "nat \<Rightarrow> nat \<Rightarrow> uint64 \<Rightarrow> 'z kern_scheme \<Rightarrow> 'z kern_scheme" where
  "tf_set p off v s = s\<lparr>mem := st64 (mem s) (unat (p_trapframe (procs s p)) + off) v\<rparr>"

definition prepare_return :: "'z kern_scheme \<Rightarrow> 'z kern_scheme option" where
  "prepare_return s =
     do { p \<leftarrow> myproc s;
          let s = intr_off s;
          let uservec = TRAMPOLINE + (sym_uservec (syms s) - sym_trampoline (syms s));
          let s = upd_csr (\<lambda>c. c\<lparr>csr_stvec := uservec\<rparr>) s;
          let s = tf_set p tf_kernel_satp (csr_satp (csr s)) s;
          let s = tf_set p tf_kernel_sp (p_kstack (procs s p) + PGSIZE) s;
          let s = tf_set p tf_kernel_trap (sym_usertrap (syms s)) s;
          let s = tf_set p tf_kernel_hartid (of_nat (hartid s)) s;
          let x = r_sstatus s;
          let x = x AND NOT SSTATUS_SPP;
          let x = x OR SSTATUS_SPIE;
          let s = w_sstatus x s;
          Some (upd_csr (\<lambda>c. c\<lparr>csr_sepc := tf_get p tf_epc s\<rparr>) s) }"

section \<open>The effect of a tick on one process\<close>

text \<open>What a tick does to one entry of the table, and what it prints.\<close>

definition ticked :: "proc \<Rightarrow> proc" where
  "ticked q = (let q = (case p_state q of
        RUNNING \<Rightarrow> q\<lparr>p_rtime := p_rtime q + 1, p_pbs_rtime := p_pbs_rtime q + 1\<rparr>
      | RUNNABLE \<Rightarrow> aging_boost (q\<lparr>p_wtime := p_wtime q + 1\<rparr>)
      | SLEEPING \<Rightarrow> q\<lparr>p_stime := p_stime q + 1, p_pbs_stime := p_pbs_stime q + 1\<rparr>
      | _ \<Rightarrow> q)
    in if p_wtime q > 30 then q\<lparr>p_starving := 1\<rparr> else q)"

definition tick_msgs :: "proc \<Rightarrow> kmsg list" where
  "tick_msgs q =
     (if p_state q = RUNNABLE \<and> p_wtime q \<ge> 10 \<and> p_priority q > 0
      then [(''[AGING] pid=%d priority changed %d -> %d\<newline>'',
             [KInt (p_pid q), KInt (p_priority q), KInt (p_priority q - 1)])]
      else [])"

lemma aging_boost_fields [simp]:
  "p_state (aging_boost q) = p_state q" "p_pid (aging_boost q) = p_pid q"
  "p_starving (aging_boost q) = p_starving q"
  by (simp_all add: aging_boost_def Let_def)

lemma aging_boost_wtime:
  "p_wtime (aging_boost q) = (if p_wtime q > 10 then 0 else p_wtime q)"
  by (simp add: aging_boost_def Let_def priority_defs)

lemma aging_boost_priority:
  "p_priority (aging_boost q) =
     (if p_wtime q > 10 \<and> p_priority q > 0 then p_priority q - 1 else p_priority q)"
  by (auto simp: aging_boost_def Let_def priority_defs)

lemma aging_update_eq [kernel_simps]:
  assumes "L_pr \<notin> set (held s)" "pstate s p = RUNNABLE"
  shows "aging_update p s = Some ((upd_proc p aging_boost s)\<lparr>klog := klog s @
    (if p_wtime (procs s p) > 10 \<and> p_priority (procs s p) > 0
     then [(''[AGING] pid=%d priority changed %d -> %d\<newline>'',
        [KInt (p_pid (procs s p)), KInt (p_priority (procs s p)),
         KInt (p_priority (procs s p) - 1)])] else [])\<rparr>)"
  using assms by (simp add: aging_update_def kernel_simps Let_def aging_boost_priority)

lemma tick_proc_eq:
  assumes "L_pr \<notin> set (held s)" "L_proc p \<notin> set (held s)"
  shows "tick_proc p s =
    Some ((upd_proc p ticked s)\<lparr>klog := klog s @ tick_msgs (procs s p)\<rparr>)"
proof (cases "pstate s p")
  case RUNNABLE
  then show ?thesis
    using assms
    by (simp add: tick_proc_def kernel_simps AGING_ENABLE_def detect_starving_def ticked_def
        tick_msgs_def aging_boost_wtime priority_defs Let_def)
qed (use assms in \<open>auto simp: tick_proc_def kernel_simps detect_starving_def ticked_def
        tick_msgs_def priority_defs Let_def upd_proc_def\<close>)

section \<open>The timer interrupt\<close>

lemma upd_csr_fields [simp, kernel_simps]:
  "held (upd_csr f s) = held s" "hartid (upd_csr f s) = hartid s" "intena (upd_csr f s) = intena s"
  "procs (upd_csr f s) = procs s" "ticks (upd_csr f s) = ticks s" "klog (upd_csr f s) = klog s"
  "mem (upd_csr f s) = mem s" "myproc (upd_csr f s) = myproc s" "csr (upd_csr f s) = f (csr s)"
  "syms (upd_csr f s) = syms s" "cpu_proc (upd_csr f s) = cpu_proc s"
  by (simp_all add: upd_csr_def)

text \<open>The entry of process \<open>p\<close> after a tick taken while \<open>me\<close> is the current process.\<close>

definition clocked :: "nat option \<Rightarrow> nat \<Rightarrow> proc \<Rightarrow> proc" where
  "clocked me p q = ticked (woken (Some C_ticks) me p q)"

definition clock_msgs :: "'z kern_scheme \<Rightarrow> kmsg list" where
  "clock_msgs s =
     concat (map (\<lambda>p. tick_msgs (woken (Some C_ticks) (myproc s) p (procs s p))) proc_ids)"

lemma clockintr_eq:
  assumes "held s = []" "hartid s = 0"
  shows "clockintr s = Some (upd_csr (\<lambda>c. c\<lparr>csr_stimecmp := csr_time c + 1000000\<rparr>)
    (s\<lparr>ticks := ticks s + 1,
       procs := (\<lambda>p. if p < NPROC then clocked (myproc s) p (procs s p) else procs s p),
       klog := klog s @ clock_msgs s\<rparr>))"
proof -
  let ?w = "\<lambda>p. if p < NPROC then woken (Some C_ticks) (myproc s) p (procs s p) else procs s p"
  let ?s = "s\<lparr>ticks := ticks s + 1, procs := ?w\<rparr>"
  have "others_free (s\<lparr>held := [L_ticks], ticks := ticks s + 1\<rparr>)" by (simp add: others_free_def)
  then have w: "wakeup (Some C_ticks) (s\<lparr>held := [L_ticks], ticks := ticks s + 1\<rparr>) =
      Some (s\<lparr>held := [L_ticks], ticks := ticks s + 1, procs := ?w\<rparr>)"
    by (simp add: wakeup_eq cong: if_cong)
  have "for_each tick_proc proc_ids ?s = Some (?s\<lparr>
      procs := (\<lambda>p. if p \<in> set proc_ids then ticked (procs ?s p) else procs ?s p),
      klog := klog ?s @ concat (map (\<lambda>p. tick_msgs (procs ?s p)) proc_ids)\<rparr>)"
    by (rule for_each_table [where P = "\<lambda>t. held t = []"]) (use assms in \<open>auto simp: tick_proc_eq\<close>)
  moreover have "(\<lambda>p. if p \<in> set proc_ids then ticked (procs ?s p) else procs ?s p) =
      (\<lambda>p. if p < NPROC then clocked (myproc s) p (procs s p) else procs s p)"
    by (auto simp: clocked_def)
  moreover have "map (\<lambda>p. tick_msgs (procs ?s p)) proc_ids =
      map (\<lambda>p. tick_msgs (woken (Some C_ticks) (myproc s) p (procs s p))) proc_ids"
    by simp
  ultimately have "for_each tick_proc proc_ids ?s = Some (s\<lparr>ticks := ticks s + 1,
       procs := (\<lambda>p. if p < NPROC then clocked (myproc s) p (procs s p) else procs s p),
       klog := klog s @ clock_msgs s\<rparr>)"
    by (simp only: clock_msgs_def) simp
  then show ?thesis
    using assms w by (simp add: clockintr_def cpuid_def acquire_free release_head)
qed



lemma ticked_starving:
  "p_starving (ticked q) = (if p_wtime (ticked q) > 30 then 1 else p_starving q)"
  by (cases "p_state q"; simp add: ticked_def Let_def)

lemma clocked_runnable:
  assumes "p_state q = RUNNABLE" "p_wtime q \<le> 30"
  shows "clocked me p q = aging_boost (q\<lparr>p_wtime := p_wtime q + 1\<rparr>)"
  using assms by (auto simp: clocked_def woken_def ticked_def Let_def aging_boost_wtime)


text \<open>On every other hart a timer interrupt only asks for the next one.\<close>

lemma clockintr_other_hart:
  "hartid s \<noteq> 0 \<Longrightarrow>
    clockintr s = Some (upd_csr (\<lambda>c. c\<lparr>csr_stimecmp := csr_time c + 1000000\<rparr>) s)"
  by (simp add: clockintr_def cpuid_def)

section \<open>Aging\<close>

text \<open>
  \<open>ticks_with act n\<close>: \<open>n\<close> timer interrupts on hart 0, with activity \<open>act i\<close> of the kernel
  before the \<open>i\<close>-th; \<open>leaves_waiting p act\<close>: the activity does not touch process \<open>p\<close>.
\<close>

definition ticks_with ::
  "(nat \<Rightarrow> 'z kern_scheme \<Rightarrow> 'z kern_scheme option) \<Rightarrow> nat \<Rightarrow> 'z kern_scheme \<Rightarrow>
   'z kern_scheme option" where
  "ticks_with act n s = for_each (\<lambda>i s. do { s \<leftarrow> act i s; clockintr s }) [0..<n] s"

definition leaves_waiting ::
  "nat \<Rightarrow> (nat \<Rightarrow> 'z kern_scheme \<Rightarrow> 'z kern_scheme option) \<Rightarrow> bool" where
  "leaves_waiting p act \<longleftrightarrow> (\<forall>i s. held s = [] \<and> hartid s = 0 \<longrightarrow>
     (\<exists>t. act i s = Some t \<and> held t = [] \<and> hartid t = 0 \<and> procs t p = procs s p))"

lemma leaves_waitingD:
  "leaves_waiting p act \<Longrightarrow> held s = [] \<Longrightarrow> hartid s = 0 \<Longrightarrow>
     \<exists>t. act i s = Some t \<and> held t = [] \<and> hartid t = 0 \<and> procs t p = procs s p"
  unfolding leaves_waiting_def by blast

lemma wait_step:
  fixes x :: int
  shows "(if x mod 11 + 1 > 10 then 0 else x mod 11 + 1) = (x + 1) mod 11"
    "(if x mod 11 + 1 > 10 then x div 11 + 1 else x div 11) = (x + 1) div 11"
proof -
  define q r where "q = x div 11" and "r = x mod 11"
  then have x: "x = 11 * q + r" and r: "0 \<le> r" "r < 11" by simp_all
  have "r = 10 \<Longrightarrow> (x + 1) mod 11 = 0 \<and> (x + 1) div 11 = q + 1"
    using x int_mod_pos_eq [of "x + 1" 11 "q + 1" 0] int_div_pos_eq [of "x + 1" 11 "q + 1" 0] by simp
  moreover have "r \<noteq> 10 \<Longrightarrow> (x + 1) mod 11 = r + 1 \<and> (x + 1) div 11 = q"
    using x r int_mod_pos_eq [of "x + 1" 11 q "r + 1"] int_div_pos_eq [of "x + 1" 11 q "r + 1"] by simp
  ultimately show "(if x mod 11 + 1 > 10 then 0 else x mod 11 + 1) = (x + 1) mod 11"
      "(if x mod 11 + 1 > 10 then x div 11 + 1 else x div 11) = (x + 1) div 11"
    unfolding r_def [symmetric] q_def [symmetric] using r by (cases "r = 10"; simp)+
qed

text \<open>
  C4: a runnable process that keeps waiting has its priority number lowered by one every
  11 ticks until it is 0, whatever else the kernel does meanwhile: after \<open>n\<close> ticks, starting
  with waiting time \<open>w\<close>, the priority is \<open>prio - (w + n) div 11\<close>, at least 0, and the
  waiting time is \<open>(w + n) mod 11\<close>. The process is never marked starving.
\<close>

theorem aging_over_time:
  assumes "held s = []" and "hartid s = 0" and "p < NPROC" and "pstate s p = RUNNABLE"
    and "0 \<le> p_wtime (procs s p)" and "p_wtime (procs s p) \<le> 10"
    and "0 \<le> p_priority (procs s p)" and "leaves_waiting p act"
  shows "\<exists>t. ticks_with act n s = Some t \<and> held t = [] \<and> hartid t = 0 \<and>
    pstate t p = RUNNABLE \<and> p_starving (procs t p) = p_starving (procs s p) \<and>
    p_wtime (procs t p) = (p_wtime (procs s p) + int n) mod 11 \<and>
    p_priority (procs t p) =
      max 0 (p_priority (procs s p) - (p_wtime (procs s p) + int n) div 11)"
  unfolding ticks_with_def
proof (induction n)
  case 0
  then show ?case using assms by auto
next
  case (Suc n)
  let ?w = "p_wtime (procs s p)" and ?pr = "p_priority (procs s p)"
  obtain t where t: "for_each (\<lambda>i s. do { s \<leftarrow> act i s; clockintr s }) [0..<n] s = Some t"
      "held t = []" "hartid t = 0" "pstate t p = RUNNABLE"
      "p_starving (procs t p) = p_starving (procs s p)"
      "p_wtime (procs t p) = (?w + int n) mod 11"
      "p_priority (procs t p) = max 0 (?pr - (?w + int n) div 11)"
    using Suc by blast
  obtain u where u: "act n t = Some u" "held u = []" "hartid u = 0" "procs u p = procs t p"
    using leaves_waitingD [OF assms(8) t(2,3)] by blast
  have w: "(?w + int n) mod 11 \<le> 30" using pos_mod_bound [of 11 "?w + int n"] by simp
  let ?q = "aging_boost ((procs t p)\<lparr>p_wtime := (?w + int n) mod 11 + 1\<rparr>)"
  obtain v where v: "clockintr u = Some v" "held v = []" "hartid v = 0" "procs v p = ?q"
    using u t(4,6) w assms(3) by (auto simp: clockintr_eq clocked_runnable)
  have x: "?w + int (Suc n) = ?w + int n + 1" by simp
  have "for_each (\<lambda>i s. do { s \<leftarrow> act i s; clockintr s }) [0..<Suc n] s = Some v"
    using t(1) u(1) v(1) by (simp add: for_each_append)
  moreover have "p_wtime ?q = (?w + int (Suc n)) mod 11"
    unfolding x wait_step(1) [symmetric] by (simp add: aging_boost_wtime)
  moreover have "p_priority ?q = max 0 (?pr - (?w + int (Suc n)) div 11)"
    unfolding x wait_step(2) [symmetric] by (auto simp: aging_boost_priority t(7))
  ultimately show ?case using t(4,5) v(2-4) by auto
qed

section \<open>Examples\<close>

definition tick_ex :: kern where
  "tick_ex = kern0\<lparr>procs := (\<lambda>_. proc0)(
      2 := proc0\<lparr>p_state := SLEEPING, p_chan := Some C_ticks\<rparr>,
      3 := proc0\<lparr>p_state := RUNNABLE, p_priority := 60, p_wtime := 4\<rparr>)\<rparr>"

lemma tick_ex_fields:
  "held tick_ex = []" "hartid tick_ex = 0" "myproc tick_ex = None"
  "procs tick_ex 3 = proc0\<lparr>p_state := RUNNABLE, p_priority := 60, p_wtime := 4\<rparr>"
  "procs tick_ex 2 = proc0\<lparr>p_state := SLEEPING, p_chan := Some C_ticks\<rparr>"
  by (simp_all add: tick_ex_def)


theorem aging_over_time_witness:
  "\<exists>t. ticks_with (\<lambda>_. Some) 40 tick_ex = Some t \<and> p_priority (procs t 3) = 56"
proof -
  have "leaves_waiting 3 (\<lambda>_. Some)" by (simp add: leaves_waiting_def)
  then show ?thesis
    using aging_over_time [OF tick_ex_fields(1,2), of 3 "\<lambda>_. Some" 40]
    by (simp add: tick_ex_fields NPROC_def) blast
qed

end
