(* ===== verification/Sysargs.thy ===== *)
theory Sysargs
  imports Trap Vmcopy
begin

text \<open>
  System-call arguments: \<open>fetchaddr\<close>, \<open>fetchstr\<close>, \<open>argraw\<close>, \<open>argint\<close>, \<open>argaddr\<close> and \<open>argstr\<close> of
  \<^verbatim>\<open>kernel/syscall.c\<close>. Arguments are in the trap frame of the current process; strings are
  copied into a kernel buffer.
\<close>

section \<open>Operations\<close>

definition fetchaddr :: "uint64 \<Rightarrow> 'z kern_scheme \<Rightarrow> (int \<times> uint64 \<times> 'z kern_scheme) option" where
  "fetchaddr addr s =
     do { p \<leftarrow> myproc s;
          let sz = p_sz (procs s p);
          if addr \<ge> sz \<or> addr + 8 > sz then Some (-1, 0, s)
          else do {
            (r, d, s) \<leftarrow> copyin (p_pagetable (procs s p)) (\<lambda>_. 0) 0 addr 8 s;
            Some (if r \<noteq> 0 then -1 else 0, ld64 d 0, s) } }"

definition fetchstr :: "uint64 \<Rightarrow> bytes \<Rightarrow> int \<Rightarrow> 'z kern_scheme \<Rightarrow> (int \<times> bytes \<times> 'z kern_scheme) option" where
  "fetchstr addr buf mx s =
     do { p \<leftarrow> myproc s;
          (r, buf, s) \<leftarrow> copyinstr (p_pagetable (procs s p)) buf 0 addr (word_of_int mx) s;
          if r < 0 then Some (-1, buf, s)
          else do { n \<leftarrow> strlen buf 0; Some (int n, buf, s) } }"

definition argraw :: "nat \<Rightarrow> 'z kern_scheme \<Rightarrow> uint64 option" where
  "argraw n s = do { p \<leftarrow> myproc s; if n \<le> 5 then Some (tf_get p (tf_a n) s) else None }"

definition argint :: "nat \<Rightarrow> 'z kern_scheme \<Rightarrow> int option" where
  "argint n s = do { w \<leftarrow> argraw n s; Some (sint (ucast w :: uint32)) }"

definition argaddr :: "nat \<Rightarrow> 'z kern_scheme \<Rightarrow> uint64 option" where
  "argaddr n s = argraw n s"

definition argstr :: "nat \<Rightarrow> int \<Rightarrow> 'z kern_scheme \<Rightarrow> (int \<times> bytes \<times> 'z kern_scheme) option" where
  "argstr n mx s = do { addr \<leftarrow> argaddr n s; fetchstr addr (\<lambda>_. 0) mx s }"

end
