(* ===== verification/Log.thy ===== *)
theory Log
  imports Bio
begin

text \<open>
  The write-ahead log, \<^verbatim>\<open>kernel/log.c\<close>. Block numbers and counts are \<open>int\<close> in the source;
  a block number is converted to \<open>uint\<close> when it is passed to \<open>bread\<close>. On disk the header
  block holds \<open>n\<close> at offset 0 and \<open>block[i]\<close> at offset \<open>4 + 4 * i\<close>, 32 bits each.
\<close>

section \<open>State and operations\<close>

record logheader =
  lh_n :: int
  lh_block :: "nat \<Rightarrow> int"

record logst = bio +
  log_start :: int
  log_outstanding :: int
  log_committing :: bool
  log_dev :: int
  log_lh :: logheader

definition blk :: "int \<Rightarrow> uint32" where
  "blk n = word_of_int n"

text \<open>\<open>lh->n\<close> and \<open>lh->block[i]\<close> of a header block.\<close>

definition head_n :: "bytes \<Rightarrow> int" where
  "head_n d = sint (ld32 d 0)"

definition head_block :: "bytes \<Rightarrow> nat \<Rightarrow> int" where
  "head_block d i = sint (ld32 d (4 + 4 * i))"

definition install_trans :: "('z logst_scheme \<Rightarrow> 'z logst_scheme option) \<Rightarrow> bool \<Rightarrow>
    'z logst_scheme \<Rightarrow> 'z logst_scheme option" where
  "install_trans sw recovering s =
     for_each (\<lambda>tail s.
       do { s \<leftarrow> (if recovering
                 then kprintf ''recovering tail %d dst %d\<newline>''
                        [KInt (int tail), KInt (lh_block (log_lh s) tail)] s
                 else Some s);
            (lbuf, s) \<leftarrow> bread sw (blk (log_dev s)) (blk (log_start s + int tail + 1)) s;
            (dbuf, s) \<leftarrow> bread sw (blk (log_dev s)) (blk (lh_block (log_lh s) tail)) s;
            let s = upd_buf dbuf (\<lambda>x. x\<lparr>b_data := blit (b_data x) 0 (b_data (bufs s lbuf)) 0 BSIZE\<rparr>) s;
            s \<leftarrow> bwrite dbuf s;
            s \<leftarrow> (if \<not> recovering then bunpin dbuf s else Some s);
            s \<leftarrow> brelse lbuf s;
            brelse dbuf s }) [0..<nat (lh_n (log_lh s))] s"

definition read_head :: "('z logst_scheme \<Rightarrow> 'z logst_scheme option) \<Rightarrow> 'z logst_scheme \<Rightarrow>
    'z logst_scheme option" where
  "read_head sw s =
     do { (b, s) \<leftarrow> bread sw (blk (log_dev s)) (blk (log_start s)) s;
          let d = b_data (bufs s b);
          let s = s\<lparr>log_lh := (log_lh s)\<lparr>lh_n := head_n d\<rparr>\<rparr>;
          s \<leftarrow> for_each (\<lambda>i s. Some (s\<lparr>log_lh := (log_lh s)\<lparr>lh_block :=
                    (lh_block (log_lh s))(i := head_block d i)\<rparr>\<rparr>))
                 [0..<nat (lh_n (log_lh s))] s;
          brelse b s }"

definition write_head :: "('z logst_scheme \<Rightarrow> 'z logst_scheme option) \<Rightarrow> 'z logst_scheme \<Rightarrow>
    'z logst_scheme option" where
  "write_head sw s =
     do { (b, s) \<leftarrow> bread sw (blk (log_dev s)) (blk (log_start s)) s;
          let s = upd_buf b (\<lambda>x. x\<lparr>b_data := st32 (b_data x) 0 (word_of_int (lh_n (log_lh s)))\<rparr>) s;
          s \<leftarrow> for_each (\<lambda>i s. Some (upd_buf b (\<lambda>x. x\<lparr>b_data :=
                    st32 (b_data x) (4 + 4 * i) (word_of_int (lh_block (log_lh s) i))\<rparr>) s))
                 [0..<nat (lh_n (log_lh s))] s;
          s \<leftarrow> bwrite b s;
          brelse b s }"

definition recover_from_log :: "('z logst_scheme \<Rightarrow> 'z logst_scheme option) \<Rightarrow> 'z logst_scheme \<Rightarrow>
    'z logst_scheme option" where
  "recover_from_log sw s =
     do { s \<leftarrow> read_head sw s;
          s \<leftarrow> install_trans sw True s;
          let s = s\<lparr>log_lh := (log_lh s)\<lparr>lh_n := 0\<rparr>\<rparr>;
          write_head sw s }"

text \<open>The size test of \<open>initlog\<close> is on constants and does not fail.\<close>

definition initlog :: "('z logst_scheme \<Rightarrow> 'z logst_scheme option) \<Rightarrow> int \<Rightarrow> uint32 \<Rightarrow>
    'z logst_scheme \<Rightarrow> 'z logst_scheme option" where
  "initlog sw dev logstart s =
     (if 4 + 4 * nat LOGBLOCKS \<ge> BSIZE then None
      else let s = s\<lparr>log_start := sint logstart, log_dev := dev\<rparr>
           in recover_from_log sw s)"

partial_function (option) begin_op_wait :: "('z logst_scheme \<Rightarrow> 'z logst_scheme option) \<Rightarrow>
    'z logst_scheme \<Rightarrow> 'z logst_scheme option" where
  "begin_op_wait sw s =
     (if log_committing s
      then do { s \<leftarrow> sleep sw C_log L_log s; begin_op_wait sw s }
      else if lh_n (log_lh s) + (log_outstanding s + 1) * MAXOPBLOCKS > LOGBLOCKS
      then do { s \<leftarrow> sleep sw C_log L_log s; begin_op_wait sw s }
      else release L_log (s\<lparr>log_outstanding := log_outstanding s + 1\<rparr>))"

definition begin_op :: "('z logst_scheme \<Rightarrow> 'z logst_scheme option) \<Rightarrow> 'z logst_scheme \<Rightarrow>
    'z logst_scheme option" where
  "begin_op sw s = do { s \<leftarrow> acquire L_log s; begin_op_wait sw s }"

definition write_log :: "('z logst_scheme \<Rightarrow> 'z logst_scheme option) \<Rightarrow> 'z logst_scheme \<Rightarrow>
    'z logst_scheme option" where
  "write_log sw s =
     for_each (\<lambda>tail s.
       do { (to, s) \<leftarrow> bread sw (blk (log_dev s)) (blk (log_start s + int tail + 1)) s;
            (from, s) \<leftarrow> bread sw (blk (log_dev s)) (blk (lh_block (log_lh s) tail)) s;
            let s = upd_buf to (\<lambda>x. x\<lparr>b_data := blit (b_data x) 0 (b_data (bufs s from)) 0 BSIZE\<rparr>) s;
            s \<leftarrow> bwrite to s;
            s \<leftarrow> brelse from s;
            brelse to s }) [0..<nat (lh_n (log_lh s))] s"

definition commit :: "('z logst_scheme \<Rightarrow> 'z logst_scheme option) \<Rightarrow> 'z logst_scheme \<Rightarrow>
    'z logst_scheme option" where
  "commit sw s =
     (if lh_n (log_lh s) > 0 then
        do { s \<leftarrow> write_log sw s;
             s \<leftarrow> write_head sw s;
             s \<leftarrow> install_trans sw False s;
             let s = s\<lparr>log_lh := (log_lh s)\<lparr>lh_n := 0\<rparr>\<rparr>;
             write_head sw s }
      else Some s)"

definition end_op :: "('z logst_scheme \<Rightarrow> 'z logst_scheme option) \<Rightarrow> 'z logst_scheme \<Rightarrow>
    'z logst_scheme option" where
  "end_op sw s =
     do { s \<leftarrow> acquire L_log s;
          let s = s\<lparr>log_outstanding := log_outstanding s - 1\<rparr>;
          if log_committing s then None
          else do {
            (do_commit, s) \<leftarrow> (if log_outstanding s = 0
               then Some (True, s\<lparr>log_committing := True\<rparr>)
               else do { s \<leftarrow> wakeup (Some C_log) s; Some (False, s) });
            s \<leftarrow> release L_log s;
            if do_commit then
              do { s \<leftarrow> commit sw s;
                   s \<leftarrow> acquire L_log s;
                   let s = s\<lparr>log_committing := False\<rparr>;
                   s \<leftarrow> wakeup (Some C_log) s;
                   release L_log s }
            else Some s } }"

text \<open>The loop of \<open>log_write\<close>: the first slot that holds the block, or the end.\<close>

fun log_slot :: "logheader \<Rightarrow> int \<Rightarrow> nat \<Rightarrow> nat \<Rightarrow> nat" where
  "log_slot lh b i 0 = i"
| "log_slot lh b i (Suc k) = (if lh_block lh i = b then i else log_slot lh b (i + 1) k)"

definition log_write :: "nat \<Rightarrow> 'z logst_scheme \<Rightarrow> 'z logst_scheme option" where
  "log_write b s =
     do { s \<leftarrow> acquire L_log s;
          if lh_n (log_lh s) \<ge> LOGBLOCKS then None
          else if log_outstanding s < 1 then None
          else do {
            let bn = sint (b_blockno (bufs s b));
            let i = log_slot (log_lh s) bn 0 (nat (lh_n (log_lh s)));
            let s = s\<lparr>log_lh := (log_lh s)\<lparr>lh_block := (lh_block (log_lh s))(i := bn)\<rparr>\<rparr>;
            s \<leftarrow> (if int i = lh_n (log_lh s)
                 then do { s \<leftarrow> bpin b s;
                           Some (s\<lparr>log_lh := (log_lh s)\<lparr>lh_n := lh_n (log_lh s) + 1\<rparr>\<rparr>) }
                 else Some s);
            release L_log s } }"

text \<open>The zeroed log.\<close>

definition logst0 :: logst where
  "logst0 = bio.extend bio0 (logst.fields 0 0 False 0 \<lparr>lh_n = 0, lh_block = (\<lambda>_. 0)\<rparr>)"

lemma logst0_fields [simp]:
  "held logst0 = []" "intena logst0 = True" "hartid logst0 = 0" "procs logst0 = (\<lambda>_. proc0)"
  "cpu_proc logst0 = (\<lambda>_. None)" "klog logst0 = []" "ticks logst0 = 0" "myproc logst0 = None"
  "slocks logst0 = (\<lambda>_. \<lparr>sl_locked = False, sl_pid = 0\<rparr>)" "disk logst0 = (\<lambda>_ _. 0)" "disk_writes logst0 = []"
  "log_outstanding logst0 = 0" "log_committing logst0 = False" "lh_n (log_lh logst0) = 0"
  by (simp_all add: logst0_def bio.defs logst.defs kern0_def myproc_def cpuid_def bio0_def slk0_def slk.defs kern.defs)

end
