(* ===== verification/Fs.thy ===== *)
theory Fs
  imports Log
begin

text \<open>
  The file system, \<^verbatim>\<open>kernel/fs.c\<close>: blocks, inodes, file contents, directories and paths.
  A \<open>struct inode *\<close> is an index into the inode table, a null pointer is \<open>None\<close>; the \<open>short\<close>
  and \<open>uint\<close> fields are words of their widths. Directory entries and path names are kernel
  buffers, byte arrays with an offset.
\<close>

section \<open>On-disk format\<close>

record superblock =
  sb_magic :: uint32
  sb_size :: uint32
  sb_nblocks :: uint32
  sb_ninodes :: uint32
  sb_nlog :: uint32
  sb_logstart :: uint32
  sb_inodestart :: uint32
  sb_bmapstart :: uint32

definition ROOTINO :: uint32 where "ROOTINO = 1"
definition FSMAGIC :: uint32 where "FSMAGIC = 0x10203040"
definition NDIRECT :: nat where "NDIRECT = 12"
definition NINDIRECT :: nat where "NINDIRECT = BSIZE div 4"
definition MAXFILE :: nat where "MAXFILE = NDIRECT + NINDIRECT"
definition IPB :: nat where "IPB = BSIZE div 64"
definition BPB :: nat where "BPB = BSIZE * 8"
definition DIRSIZ :: nat where "DIRSIZ = 14"
definition T_DIR :: "16 word" where "T_DIR = 1"
definition T_FILE :: "16 word" where "T_FILE = 2"
definition T_DEVICE :: "16 word" where "T_DEVICE = 3"

record inode =
  i_dev :: uint32
  i_inum :: uint32
  i_ref :: int
  i_valid :: bool
  i_type :: "16 word"
  i_major :: "16 word"
  i_minor :: "16 word"
  i_nlink :: "16 word"
  i_size :: uint32
  i_addrs :: "nat \<Rightarrow> uint32"

record fsst = logst +
  sb :: superblock
  inodes :: "nat \<Rightarrow> inode"

type_synonym 'z sw = "'z fsst_scheme \<Rightarrow> 'z fsst_scheme option"

definition IBLOCK :: "uint32 \<Rightarrow> superblock \<Rightarrow> uint32" where
  "IBLOCK i b = i div of_nat IPB + sb_inodestart b"

definition BBLOCK :: "uint32 \<Rightarrow> superblock \<Rightarrow> uint32" where
  "BBLOCK n b = n div of_nat BPB + sb_bmapstart b"

definition upd_inode :: "nat \<Rightarrow> (inode \<Rightarrow> inode) \<Rightarrow> 'z fsst_scheme \<Rightarrow> 'z fsst_scheme" where
  "upd_inode ip f s = s\<lparr>inodes := (inodes s)(ip := f (inodes s ip))\<rparr>"

text \<open>\<open>struct dinode\<close>: offset of inode \<open>inum\<close> in its block, and its fields.\<close>

definition dip_off :: "uint32 \<Rightarrow> nat" where
  "dip_off inum = 64 * (unat inum mod IPB)"

definition dinode_get :: "bytes \<Rightarrow> nat \<Rightarrow> inode \<Rightarrow> inode" where
  "dinode_get d o' ip = ip\<lparr>i_type := ld16 d o', i_major := ld16 d (o' + 2), i_minor := ld16 d (o' + 4),
     i_nlink := ld16 d (o' + 6), i_size := ld32 d (o' + 8),
     i_addrs := (\<lambda>i. if i \<le> NDIRECT then ld32 d (o' + 12 + 4 * i) else i_addrs ip i)\<rparr>"

definition dinode_put :: "bytes \<Rightarrow> nat \<Rightarrow> inode \<Rightarrow> bytes" where
  "dinode_put d o' ip =
     (let d = st16 d o' (i_type ip);
          d = st16 d (o' + 2) (i_major ip);
          d = st16 d (o' + 4) (i_minor ip);
          d = st16 d (o' + 6) (i_nlink ip);
          d = st32 d (o' + 8) (i_size ip)
      in fold (\<lambda>i d. st32 d (o' + 12 + 4 * i) (i_addrs ip i)) [0..<NDIRECT + 1] d)"

section \<open>Super block and blocks\<close>

definition readsb :: "'z sw \<Rightarrow> uint32 \<Rightarrow> 'z fsst_scheme \<Rightarrow> 'z fsst_scheme option" where
  "readsb sw dev s =
     do { (b, s) \<leftarrow> bread sw dev 1 s;
          let d = b_data (bufs s b);
          let s = s\<lparr>sb := \<lparr>sb_magic = ld32 d 0, sb_size = ld32 d 4, sb_nblocks = ld32 d 8,
             sb_ninodes = ld32 d 12, sb_nlog = ld32 d 16, sb_logstart = ld32 d 20,
             sb_inodestart = ld32 d 24, sb_bmapstart = ld32 d 28\<rparr>\<rparr>;
          brelse b s }"

definition bzero :: "'z sw \<Rightarrow> uint32 \<Rightarrow> uint32 \<Rightarrow> 'z fsst_scheme \<Rightarrow> 'z fsst_scheme option" where
  "bzero sw dev bno s =
     do { (b, s) \<leftarrow> bread sw dev bno s;
          let s = upd_buf b (\<lambda>x. x\<lparr>b_data := memset (b_data x) 0 0 BSIZE\<rparr>) s;
          s \<leftarrow> log_write b s;
          brelse b s }"

text \<open>The inner loop of \<open>balloc\<close> only searches: the first clear bit of the bitmap block.\<close>

definition balloc_bit :: "bytes \<Rightarrow> nat \<Rightarrow> nat \<Rightarrow> nat option" where
  "balloc_bit d b sz =
     find (\<lambda>bi. d (bi div 8) AND push_bit (bi mod 8) 1 = 0) [0..<min BPB (sz - b)]"

text \<open>One turn of the outer loop: the blocks whose bits are in one block of the bitmap.\<close>

definition balloc_group :: "'z sw \<Rightarrow> uint32 \<Rightarrow> nat \<Rightarrow> 'z fsst_scheme \<Rightarrow> (uint32 option \<times> 'z fsst_scheme) option" where
  "balloc_group sw dev b s =
     do { (bp, s) \<leftarrow> bread sw dev (BBLOCK (of_nat b) (sb s)) s;
          case balloc_bit (b_data (bufs s bp)) b (unat (sb_size (sb s))) of
            Some bi \<Rightarrow>
              do { let s = upd_buf bp (\<lambda>x. x\<lparr>b_data := (b_data x)(bi div 8 :=
                         b_data x (bi div 8) OR push_bit (bi mod 8) 1)\<rparr>) s;
                   s \<leftarrow> log_write bp s;
                   s \<leftarrow> brelse bp s;
                   s \<leftarrow> bzero sw dev (of_nat (b + bi)) s;
                   Some (Some (of_nat (b + bi)), s) }
          | None \<Rightarrow> do { s \<leftarrow> brelse bp s; Some (None, s) } }"

definition balloc :: "'z sw \<Rightarrow> uint32 \<Rightarrow> 'z fsst_scheme \<Rightarrow> (uint32 \<times> 'z fsst_scheme) option" where
  "balloc sw dev s =
     do { (r, s) \<leftarrow> scan (balloc_group sw dev) (map (\<lambda>k. k * BPB) [0..<(unat (sb_size (sb s)) + BPB - 1) div BPB]) s;
          case r of
            Some a \<Rightarrow> Some (a, s)
          | None \<Rightarrow> do { s \<leftarrow> kprintf ''balloc: out of blocks\<newline>'' [] s; Some (0, s) } }"

definition bfree :: "'z sw \<Rightarrow> uint32 \<Rightarrow> uint32 \<Rightarrow> 'z fsst_scheme \<Rightarrow> 'z fsst_scheme option" where
  "bfree sw dev b s =
     do { (bp, s) \<leftarrow> bread sw dev (BBLOCK b (sb s)) s;
          let bi = unat b mod BPB;
          let m = push_bit (bi mod 8) (1 :: uint8);
          if b_data (bufs s bp) (bi div 8) AND m = 0 then None
          else do {
            let s = upd_buf bp (\<lambda>x. x\<lparr>b_data := (b_data x)(bi div 8 :=
                      b_data x (bi div 8) AND NOT m)\<rparr>) s;
            s \<leftarrow> log_write bp s;
            brelse bp s } }"

section \<open>Inodes\<close>

definition iinit :: "'z fsst_scheme \<Rightarrow> 'z fsst_scheme option" where
  "iinit s = for_each (\<lambda>i s. Some (initsleeplock (SL_inode i) s)) [0..<NINODE] s"

definition iget :: "uint32 \<Rightarrow> uint32 \<Rightarrow> 'z fsst_scheme \<Rightarrow> (nat \<times> 'z fsst_scheme) option" where
  "iget dev inum s =
     do { s \<leftarrow> acquire L_itable s;
          case find (\<lambda>i. i_ref (inodes s i) > 0 \<and> i_dev (inodes s i) = dev \<and>
                        i_inum (inodes s i) = inum) [0..<NINODE] of
            Some ip \<Rightarrow>
              do { let s = upd_inode ip (\<lambda>x. x\<lparr>i_ref := i_ref x + 1\<rparr>) s;
                   s \<leftarrow> release L_itable s;
                   Some (ip, s) }
          | None \<Rightarrow>
              (case find (\<lambda>i. i_ref (inodes s i) = 0) [0..<NINODE] of
                 None \<Rightarrow> None
               | Some ip \<Rightarrow>
                   do { let s = upd_inode ip (\<lambda>x. x\<lparr>i_dev := dev, i_inum := inum, i_ref := 1,
                              i_valid := False\<rparr>) s;
                        s \<leftarrow> release L_itable s;
                        Some (ip, s) }) }"

definition ialloc :: "'z sw \<Rightarrow> uint32 \<Rightarrow> 16 word \<Rightarrow> 'z fsst_scheme \<Rightarrow>
    (nat option \<times> 'z fsst_scheme) option" where
  "ialloc sw dev type s =
     do { (r, s) \<leftarrow> scan (\<lambda>inum s.
            do { (bp, s) \<leftarrow> bread sw dev (IBLOCK (of_nat inum) (sb s)) s;
                 let o' = dip_off (of_nat inum);
                 if (ld16 (b_data (bufs s bp)) o' :: 16 word) = 0 then
                   do { let s = upd_buf bp (\<lambda>x. x\<lparr>b_data :=
                              st16 (memset (b_data x) o' 0 64) o' type\<rparr>) s;
                        s \<leftarrow> log_write bp s;
                        s \<leftarrow> brelse bp s;
                        (ip, s) \<leftarrow> iget dev (of_nat inum) s;
                        Some (Some ip, s) }
                 else do { s \<leftarrow> brelse bp s; Some (None, s) } })
            [1..<unat (sb_ninodes (sb s))] s;
          case r of
            Some ip \<Rightarrow> Some (Some ip, s)
          | None \<Rightarrow> do { s \<leftarrow> kprintf ''ialloc: no inodes\<newline>'' [] s; Some (None, s) } }"

definition iupdate :: "'z sw \<Rightarrow> nat \<Rightarrow> 'z fsst_scheme \<Rightarrow> 'z fsst_scheme option" where
  "iupdate sw ip s =
     do { (bp, s) \<leftarrow> bread sw (i_dev (inodes s ip)) (IBLOCK (i_inum (inodes s ip)) (sb s)) s;
          let s = upd_buf bp (\<lambda>x. x\<lparr>b_data :=
                    dinode_put (b_data x) (dip_off (i_inum (inodes s ip))) (inodes s ip)\<rparr>) s;
          s \<leftarrow> log_write bp s;
          brelse bp s }"

definition idup :: "nat \<Rightarrow> 'z fsst_scheme \<Rightarrow> (nat \<times> 'z fsst_scheme) option" where
  "idup ip s =
     do { s \<leftarrow> acquire L_itable s;
          let s = upd_inode ip (\<lambda>x. x\<lparr>i_ref := i_ref x + 1\<rparr>) s;
          s \<leftarrow> release L_itable s;
          Some (ip, s) }"

definition ilock :: "'z sw \<Rightarrow> nat \<Rightarrow> 'z fsst_scheme \<Rightarrow> 'z fsst_scheme option" where
  "ilock sw ip s =
     (if i_ref (inodes s ip) < 1 then None
      else do {
        s \<leftarrow> acquiresleep sw (SL_inode ip) s;
        if \<not> i_valid (inodes s ip) then
          do { (bp, s) \<leftarrow> bread sw (i_dev (inodes s ip)) (IBLOCK (i_inum (inodes s ip)) (sb s)) s;
               let d = b_data (bufs s bp);
               let s = upd_inode ip (dinode_get d (dip_off (i_inum (inodes s ip)))) s;
               s \<leftarrow> brelse bp s;
               let s = upd_inode ip (\<lambda>x. x\<lparr>i_valid := True\<rparr>) s;
               if i_type (inodes s ip) = 0 then None else Some s }
        else Some s })"

definition iunlock :: "nat \<Rightarrow> 'z fsst_scheme \<Rightarrow> 'z fsst_scheme option" where
  "iunlock ip s =
     do { (h, s) \<leftarrow> holdingsleep (SL_inode ip) s;
          if \<not> h \<or> i_ref (inodes s ip) < 1 then None
          else releasesleep (SL_inode ip) s }"

definition itrunc :: "'z sw \<Rightarrow> nat \<Rightarrow> 'z fsst_scheme \<Rightarrow> 'z fsst_scheme option" where
  "itrunc sw ip s =
     do { s \<leftarrow> for_each (\<lambda>i s.
            if i_addrs (inodes s ip) i \<noteq> 0 then
              do { s \<leftarrow> bfree sw (i_dev (inodes s ip)) (i_addrs (inodes s ip) i) s;
                   Some (upd_inode ip (\<lambda>x. x\<lparr>i_addrs := (i_addrs x)(i := 0)\<rparr>) s) }
            else Some s) [0..<NDIRECT] s;
          s \<leftarrow> (if i_addrs (inodes s ip) NDIRECT \<noteq> 0 then
                 do { (bp, s) \<leftarrow> bread sw (i_dev (inodes s ip)) (i_addrs (inodes s ip) NDIRECT) s;
                      s \<leftarrow> for_each (\<lambda>j s.
                             let a = ld32 (b_data (bufs s bp)) (4 * j)
                             in if a \<noteq> 0 then bfree sw (i_dev (inodes s ip)) a s else Some s)
                           [0..<NINDIRECT] s;
                      s \<leftarrow> brelse bp s;
                      s \<leftarrow> bfree sw (i_dev (inodes s ip)) (i_addrs (inodes s ip) NDIRECT) s;
                      Some (upd_inode ip (\<lambda>x. x\<lparr>i_addrs := (i_addrs x)(NDIRECT := 0)\<rparr>) s) }
               else Some s);
          let s = upd_inode ip (\<lambda>x. x\<lparr>i_size := 0\<rparr>) s;
          iupdate sw ip s }"

definition iput :: "'z sw \<Rightarrow> nat \<Rightarrow> 'z fsst_scheme \<Rightarrow> 'z fsst_scheme option" where
  "iput sw ip s =
     do { s \<leftarrow> acquire L_itable s;
          s \<leftarrow> (if i_ref (inodes s ip) = 1 \<and> i_valid (inodes s ip) \<and> i_nlink (inodes s ip) = 0 then
                 do { s \<leftarrow> acquiresleep sw (SL_inode ip) s;
                      s \<leftarrow> release L_itable s;
                      s \<leftarrow> itrunc sw ip s;
                      let s = upd_inode ip (\<lambda>x. x\<lparr>i_type := 0\<rparr>) s;
                      s \<leftarrow> iupdate sw ip s;
                      let s = upd_inode ip (\<lambda>x. x\<lparr>i_valid := False\<rparr>) s;
                      s \<leftarrow> releasesleep (SL_inode ip) s;
                      acquire L_itable s }
               else Some s);
          let s = upd_inode ip (\<lambda>x. x\<lparr>i_ref := i_ref x - 1\<rparr>) s;
          release L_itable s }"

definition iunlockput :: "'z sw \<Rightarrow> nat \<Rightarrow> 'z fsst_scheme \<Rightarrow> 'z fsst_scheme option" where
  "iunlockput sw ip s = do { s \<leftarrow> iunlock ip s; iput sw ip s }"

definition ireclaim :: "'z sw \<Rightarrow> uint32 \<Rightarrow> 'z fsst_scheme \<Rightarrow> 'z fsst_scheme option" where
  "ireclaim sw dev s =
     for_each (\<lambda>inum s.
       do { (bp, s) \<leftarrow> bread sw dev (IBLOCK (of_nat inum) (sb s)) s;
            let d = b_data (bufs s bp);
            let o' = dip_off (of_nat inum);
            (ip, s) \<leftarrow> (if (ld16 d o' :: 16 word) \<noteq> 0 \<and> (ld16 d (o' + 6) :: 16 word) = 0 then
                          do { s \<leftarrow> kprintf ''ireclaim: orphaned inode %d\<newline>'' [KInt (int inum)] s;
                               (ip, s) \<leftarrow> iget dev (of_nat inum) s;
                               Some (Some ip, s) }
                        else Some (None, s));
            s \<leftarrow> brelse bp s;
            case ip of
              None \<Rightarrow> Some s
            | Some ip \<Rightarrow>
                do { s \<leftarrow> begin_op sw s;
                     s \<leftarrow> ilock sw ip s;
                     s \<leftarrow> iunlock ip s;
                     s \<leftarrow> iput sw ip s;
                     end_op sw s } }) [1..<unat (sb_ninodes (sb s))] s"

definition fsinit :: "'z sw \<Rightarrow> int \<Rightarrow> 'z fsst_scheme \<Rightarrow> 'z fsst_scheme option" where
  "fsinit sw dev s =
     do { s \<leftarrow> readsb sw (blk dev) s;
          if sb_magic (sb s) \<noteq> FSMAGIC then None
          else do { s \<leftarrow> initlog sw dev (sb_logstart (sb s)) s;
                    ireclaim sw (blk dev) s } }"

section \<open>File contents\<close>

text \<open>\<^verbatim>\<open>ip->addrs[j] = a\<close>\<close>

definition set_addr :: "nat \<Rightarrow> uint32 \<Rightarrow> inode \<Rightarrow> inode" where
  "set_addr j a q = q\<lparr>i_addrs := (i_addrs q)(j := a)\<rparr>"

text \<open>The two parts of \<open>bmap\<close>: an entry of \<open>addrs\<close>, and entry \<open>i\<close> of the indirect block.\<close>

definition bmap_slot :: "'z sw \<Rightarrow> nat \<Rightarrow> nat \<Rightarrow> 'z fsst_scheme \<Rightarrow> (uint32 \<times> 'z fsst_scheme) option" where
  "bmap_slot sw ip j s =
     (let addr = i_addrs (inodes s ip) j in
      if addr = 0 then
        do { (addr, s) \<leftarrow> balloc sw (i_dev (inodes s ip)) s;
             if addr = 0 then Some (0, s) else Some (addr, upd_inode ip (set_addr j addr) s) }
      else Some (addr, s))"

definition bmap_entry :: "'z sw \<Rightarrow> nat \<Rightarrow> uint32 \<Rightarrow> nat \<Rightarrow> 'z fsst_scheme \<Rightarrow> (uint32 \<times> 'z fsst_scheme) option" where
  "bmap_entry sw ip addr i s =
     do { (bp, s) \<leftarrow> bread sw (i_dev (inodes s ip)) addr s;
          let addr = ld32 (b_data (bufs s bp)) (4 * i);
          (addr, s) \<leftarrow> (if addr = 0 then
              do { (addr, s) \<leftarrow> balloc sw (i_dev (inodes s ip)) s;
                   if addr \<noteq> 0 then
                     do { let s = upd_buf bp (\<lambda>x. x\<lparr>b_data := st32 (b_data x) (4 * i) addr\<rparr>) s;
                          s \<leftarrow> log_write bp s;
                          Some (addr, s) }
                   else Some (addr, s) }
            else Some (addr, s));
          s \<leftarrow> brelse bp s;
          Some (addr, s) }"

definition bmap :: "'z sw \<Rightarrow> nat \<Rightarrow> uint32 \<Rightarrow> 'z fsst_scheme \<Rightarrow> (uint32 \<times> 'z fsst_scheme) option" where
  "bmap sw ip bn s =
     (if unat bn < NDIRECT then bmap_slot sw ip (unat bn) s
      else if unat bn - NDIRECT < NINDIRECT then
        do { (addr, s) \<leftarrow> bmap_slot sw ip NDIRECT s;
             if addr = 0 then Some (0, s) else bmap_entry sw ip addr (unat bn - NDIRECT) s }
      else None)"

record stat =
  st_dev :: uint32
  st_ino :: uint32
  st_type :: "16 word"
  st_nlink :: "16 word"
  st_size :: uint64

definition stati :: "nat \<Rightarrow> 'z fsst_scheme \<Rightarrow> stat" where
  "stati ip s = \<lparr>st_dev = i_dev (inodes s ip), st_ino = i_inum (inodes s ip),
     st_type = i_type (inodes s ip), st_nlink = i_nlink (inodes s ip),
     st_size = ucast (i_size (inodes s ip))\<rparr>"

definition bsize32 :: uint32 where "bsize32 = of_nat BSIZE"

text \<open>
  The loops of \<open>readi\<close> and \<open>writei\<close>; \<open>dst\<close> and \<open>src\<close> are user addresses or offsets into the
  kernel buffer \<open>kbuf\<close>. Each step moves at least one byte, so the loop ends after at most
  \<open>n\<close> steps.
\<close>

partial_function (option) readi_loop :: "'z sw \<Rightarrow> nat \<Rightarrow> bool \<Rightarrow> uint64 \<Rightarrow> bytes \<Rightarrow> uint32 \<Rightarrow>
    uint32 \<Rightarrow> uint32 \<Rightarrow> 'z fsst_scheme \<Rightarrow> (uint32 \<times> bytes \<times> 'z fsst_scheme) option" where
  "readi_loop sw ip user_dst dst kbuf off n tot s =
     (if tot < n then
        do { (addr, s) \<leftarrow> bmap sw ip (off div bsize32) s;
             if addr = 0 then Some (tot, kbuf, s)
             else do {
               (bp, s) \<leftarrow> bread sw (i_dev (inodes s ip)) addr s;
               let m = min (n - tot) (bsize32 - off mod bsize32);
               (r, kbuf, s) \<leftarrow> either_copyout user_dst dst kbuf (b_data (bufs s bp))
                                 (unat (off mod bsize32)) (ucast m) s;
               s \<leftarrow> brelse bp s;
               if r = -1 then Some (-1, kbuf, s)
               else readi_loop sw ip user_dst (dst + ucast m) kbuf (off + m) n (tot + m) s } }
      else Some (tot, kbuf, s))"

definition readi :: "'z sw \<Rightarrow> nat \<Rightarrow> bool \<Rightarrow> uint64 \<Rightarrow> bytes \<Rightarrow> uint32 \<Rightarrow> uint32 \<Rightarrow> 'z fsst_scheme \<Rightarrow>
    (int \<times> bytes \<times> 'z fsst_scheme) option" where
  "readi sw ip user_dst dst kbuf off n s =
     (let sz = i_size (inodes s ip) in
      if off > sz \<or> off + n < off then Some (0, kbuf, s)
      else do {
        let n = (if off + n > sz then sz - off else n);
        (tot, kbuf, s) \<leftarrow> readi_loop sw ip user_dst dst kbuf off n 0 s;
        Some (sint tot, kbuf, s) })"

partial_function (option) writei_loop :: "'z sw \<Rightarrow> nat \<Rightarrow> bool \<Rightarrow> uint64 \<Rightarrow> bytes \<Rightarrow> uint32 \<Rightarrow>
    uint32 \<Rightarrow> uint32 \<Rightarrow> 'z fsst_scheme \<Rightarrow> (uint32 \<times> uint32 \<times> 'z fsst_scheme) option" where
  "writei_loop sw ip user_src src kbuf off n tot s =
     (if tot < n then
        do { (addr, s) \<leftarrow> bmap sw ip (off div bsize32) s;
             if addr = 0 then Some (tot, off, s)
             else do {
               (bp, s) \<leftarrow> bread sw (i_dev (inodes s ip)) addr s;
               let m = min (n - tot) (bsize32 - off mod bsize32);
               (r, d, s) \<leftarrow> either_copyin (b_data (bufs s bp)) (unat (off mod bsize32)) user_src src
                              kbuf (ucast m) s;
               let s = upd_buf bp (\<lambda>x. x\<lparr>b_data := d\<rparr>) s;
               if r = -1 then do { s \<leftarrow> brelse bp s; Some (tot, off, s) }
               else do {
                 s \<leftarrow> log_write bp s;
                 s \<leftarrow> brelse bp s;
                 writei_loop sw ip user_src (src + ucast m) kbuf (off + m) n (tot + m) s } } }
      else Some (tot, off, s))"

definition writei :: "'z sw \<Rightarrow> nat \<Rightarrow> bool \<Rightarrow> uint64 \<Rightarrow> bytes \<Rightarrow> uint32 \<Rightarrow> uint32 \<Rightarrow> 'z fsst_scheme \<Rightarrow>
    (int \<times> 'z fsst_scheme) option" where
  "writei sw ip user_src src kbuf off n s =
     (if off > i_size (inodes s ip) \<or> off + n < off then Some (-1, s)
      else if unat (off + n) > MAXFILE * BSIZE then Some (-1, s)
      else do {
        (tot, off, s) \<leftarrow> writei_loop sw ip user_src src kbuf off n 0 s;
        let s = (if off > i_size (inodes s ip) then upd_inode ip (\<lambda>x. x\<lparr>i_size := off\<rparr>) s else s);
        s \<leftarrow> iupdate sw ip s;
        Some (sint tot, s) })"

section \<open>Directories\<close>

text \<open>
  The names are in different buffers; \<open>strncmp\<close> is applied to their first \<open>DIRSIZ\<close> bytes, all
  that it reads, side by side.
\<close>

definition namecmp :: "bytes \<Rightarrow> nat \<Rightarrow> bytes \<Rightarrow> nat \<Rightarrow> int" where
  "namecmp a p b q = strncmp (blit (blit (\<lambda>_. 0) 0 a p DIRSIZ) DIRSIZ b q DIRSIZ) 0 DIRSIZ DIRSIZ"

partial_function (option) dirlookup_loop :: "'z sw \<Rightarrow> nat \<Rightarrow> bytes \<Rightarrow> uint32 \<Rightarrow> 'z fsst_scheme \<Rightarrow>
    ((nat \<times> uint32) option \<times> 'z fsst_scheme) option" where
  "dirlookup_loop sw dp name off s =
     (if off < i_size (inodes s dp) then
        do { (r, de, s) \<leftarrow> readi sw dp False 0 (\<lambda>_. 0) off 16 s;
             if r \<noteq> 16 then None
             else if (ld16 de 0 :: 16 word) = 0 then dirlookup_loop sw dp name (off + 16) s
             else if namecmp name 0 de 2 = 0 then
               do { (ip, s) \<leftarrow> iget (i_dev (inodes s dp)) (ucast (ld16 de 0 :: 16 word)) s;
                    Some (Some (ip, off), s) }
             else dirlookup_loop sw dp name (off + 16) s }
      else Some (None, s))"

text \<open>The result carries \<open>*poff\<close> besides the inode.\<close>

definition dirlookup :: "'z sw \<Rightarrow> nat \<Rightarrow> bytes \<Rightarrow> 'z fsst_scheme \<Rightarrow>
    ((nat \<times> uint32) option \<times> 'z fsst_scheme) option" where
  "dirlookup sw dp name s =
     (if i_type (inodes s dp) \<noteq> T_DIR then None else dirlookup_loop sw dp name 0 s)"

partial_function (option) dirlink_loop :: "'z sw \<Rightarrow> nat \<Rightarrow> bytes \<Rightarrow> uint32 \<Rightarrow> 'z fsst_scheme \<Rightarrow>
    (uint32 \<times> bytes \<times> 'z fsst_scheme) option" where
  "dirlink_loop sw dp de off s =
     (if off < i_size (inodes s dp) then
        do { (r, de, s) \<leftarrow> readi sw dp False 0 de off 16 s;
             if r \<noteq> 16 then None
             else if (ld16 de 0 :: 16 word) = 0 then Some (off, de, s)
             else dirlink_loop sw dp de (off + 16) s }
      else Some (off, de, s))"

text \<open>\<open>strncpy\<close> again works on the two buffers side by side: the entry at 0, the name at 16.\<close>

definition dirent :: "bytes \<Rightarrow> bytes \<Rightarrow> 16 word \<Rightarrow> bytes" where
  "dirent de name inum = st16 (strncpy (blit de 16 name 0 DIRSIZ) 2 16 (int DIRSIZ)) 0 inum"

definition dirlink :: "'z sw \<Rightarrow> nat \<Rightarrow> bytes \<Rightarrow> uint32 \<Rightarrow> 'z fsst_scheme \<Rightarrow> (int \<times> 'z fsst_scheme) option" where
  "dirlink sw dp name inum s =
     do { (r, s) \<leftarrow> dirlookup sw dp name s;
          case r of
            Some (ip, _) \<Rightarrow> do { s \<leftarrow> iput sw ip s; Some (-1, s) }
          | None \<Rightarrow>
              do { (off, de, s) \<leftarrow> dirlink_loop sw dp (\<lambda>_. 0) 0 s;
                   (r, s) \<leftarrow> writei sw dp False 0 (dirent de name (ucast inum)) off 16 s;
                   if r \<noteq> 16 then Some (-1, s) else Some (0, s) } }"

section \<open>Paths\<close>

text \<open>\<open>while(P(*path)) path++;\<close> has no result if it never meets a byte that ends it.\<close>

partial_function (option) skip_while :: "(uint8 \<Rightarrow> bool) \<Rightarrow> bytes \<Rightarrow> nat \<Rightarrow> nat option" where
  "skip_while P m p = (if P (m p) then skip_while P m (p + 1) else Some p)"

definition SLASH :: uint8 where "SLASH = 47"

definition skipelem :: "bytes \<Rightarrow> nat \<Rightarrow> bytes \<Rightarrow> (nat option \<times> bytes) option" where
  "skipelem m path name =
     do { path \<leftarrow> skip_while (\<lambda>c. c = SLASH) m path;
          if m path = 0 then Some (None, name)
          else do {
            let s = path;
            path \<leftarrow> skip_while (\<lambda>c. c \<noteq> SLASH \<and> c \<noteq> 0) m path;
            let len = path - s;
            let name = (if len \<ge> DIRSIZ then blit name 0 m s DIRSIZ
                        else (blit name 0 m s len)(len := 0));
            path \<leftarrow> skip_while (\<lambda>c. c = SLASH) m path;
            Some (Some path, name) } }"

text \<open>The loop of \<open>namex\<close>; the result is the inode and the last path element.\<close>

partial_function (option) namex_loop :: "'z sw \<Rightarrow> bytes \<Rightarrow> nat \<Rightarrow> bool \<Rightarrow> bytes \<Rightarrow> nat \<Rightarrow> 'z fsst_scheme \<Rightarrow>
    (nat option \<times> bytes \<times> 'z fsst_scheme) option" where
  "namex_loop sw m path parent name ip s =
     do { (path', name) \<leftarrow> skipelem m path name;
          case path' of
            None \<Rightarrow> if parent then do { s \<leftarrow> iput sw ip s; Some (None, name, s) }
                    else Some (Some ip, name, s)
          | Some path \<Rightarrow>
              do { s \<leftarrow> ilock sw ip s;
                   if i_type (inodes s ip) \<noteq> T_DIR then
                     do { s \<leftarrow> iunlockput sw ip s; Some (None, name, s) }
                   else if parent \<and> m path = 0 then
                     do { s \<leftarrow> iunlock ip s; Some (Some ip, name, s) }
                   else do {
                     (r, s) \<leftarrow> dirlookup sw ip name s;
                     case r of
                       None \<Rightarrow> do { s \<leftarrow> iunlockput sw ip s; Some (None, name, s) }
                     | Some (nxt, _) \<Rightarrow>
                         do { s \<leftarrow> iunlockput sw ip s;
                              namex_loop sw m path parent name nxt s } } } }"

definition namex :: "'z sw \<Rightarrow> bytes \<Rightarrow> bool \<Rightarrow> bytes \<Rightarrow> 'z fsst_scheme \<Rightarrow>
    (nat option \<times> bytes \<times> 'z fsst_scheme) option" where
  "namex sw m parent name s =
     do { (ip, s) \<leftarrow> (if m 0 = SLASH then iget ROOTDEV ROOTINO s
                     else do { p \<leftarrow> myproc s; cwd \<leftarrow> p_cwd (procs s p); idup cwd s });
          namex_loop sw m 0 parent name ip s }"

definition namei :: "'z sw \<Rightarrow> bytes \<Rightarrow> 'z fsst_scheme \<Rightarrow> (nat option \<times> 'z fsst_scheme) option" where
  "namei sw m s = do { (ip, _, s) \<leftarrow> namex sw m False (\<lambda>_. 0) s; Some (ip, s) }"

definition nameiparent :: "'z sw \<Rightarrow> bytes \<Rightarrow> bytes \<Rightarrow> 'z fsst_scheme \<Rightarrow>
    (nat option \<times> bytes \<times> 'z fsst_scheme) option" where
  "nameiparent sw m name s = namex sw m True name s"

text \<open>The zeroed inode table.\<close>

definition fsst0 :: fsst where
  "fsst0 = logst.extend logst0 (fsst.fields \<lparr>sb_magic = 0, sb_size = 0, sb_nblocks = 0, sb_ninodes = 0,
     sb_nlog = 0, sb_logstart = 0, sb_inodestart = 0, sb_bmapstart = 0\<rparr>
     (\<lambda>_. \<lparr>i_dev = 0, i_inum = 0, i_ref = 0, i_valid = False, i_type = 0, i_major = 0, i_minor = 0,
       i_nlink = 0, i_size = 0, i_addrs = (\<lambda>_. 0)\<rparr>))"

lemma fsst0_fields [simp]:
  "held fsst0 = []" "intena fsst0 = True" "hartid fsst0 = 0" "procs fsst0 = (\<lambda>_. proc0)"
  "cpu_proc fsst0 = (\<lambda>_. None)" "klog fsst0 = []" "ticks fsst0 = 0" "myproc fsst0 = None"
  "slocks fsst0 = (\<lambda>_. \<lparr>sl_locked = False, sl_pid = 0\<rparr>)" "disk_writes fsst0 = []" "i_ref (inodes fsst0 i) = 0"
  by (simp_all add: fsst0_def logst.defs fsst.defs kern0_def myproc_def cpuid_def logst0_def bio0_def slk0_def bio.defs slk.defs kern.defs)

end
