(* ===== verification/Ring.thy ===== *)
theory Ring
  imports Xv6_Prelude
begin

text \<open>
  Ring buffers with free-running 32-bit indices, the data structure of pipes and of the
  console: the read and the write index count bytes modulo \<open>2\<^sup>3\<^sup>2\<close>, the byte with index \<open>i\<close> is
  in cell \<open>i mod cap\<close>, and the buffer holds the bytes between the two indices. The locale
  states what an implementation provides; inside it the buffer is shown to be a bounded queue.
\<close>

section \<open>Index arithmetic\<close>

lemma unat_add_mod:
  fixes a :: uint32
  assumes "cap dvd 2 ^ 32"
  shows "unat (a + of_nat k) mod cap = (unat a + k) mod cap"
proof -
  have "unat (a + of_nat k) = (unat a + k) mod 2 ^ 32"
    by (simp add: unat_word_ariths unat_of_nat mod_add_right_eq)
  then show ?thesis using assms by (simp add: mod_mod_cancel)
qed

lemma mod_inj_less:
  fixes a b c :: nat
  assumes "a mod c = b mod c" "a \<le> b" "b < a + c"
  shows "a = b"
proof -
  have "c dvd b - a" using assms(1,2) by (metis mod_eq_dvd_iff_nat)
  then show ?thesis using assms(2,3) by (auto dest: dvd_imp_le)
qed

lemma unat_plus1: "unat (a :: uint32) + 1 < 2 ^ 32 \<Longrightarrow> unat (a + 1) = unat a + 1"
  by (simp add: unat_word_ariths)

section \<open>The interface and the queue it implements\<close>

locale byte_ring =
  fixes cap :: nat and rd wr :: "'s \<Rightarrow> uint32" and cell :: "'s \<Rightarrow> nat \<Rightarrow> uint8"
    and put :: "uint8 \<Rightarrow> 's \<Rightarrow> 's" and get :: "'s \<Rightarrow> 's"
  assumes cap_pos: "0 < cap" and cap_small: "cap < 2 ^ 31" and cap_dvd: "cap dvd 2 ^ 32"
    and rd_put: "rd (put c s) = rd s" and wr_put: "wr (put c s) = wr s + 1"
    and cell_put: "i < cap \<Longrightarrow> cell (put c s) i = (if i = unat (wr s) mod cap then c else cell s i)"
    and rd_get: "rd (get s) = rd s + 1" and wr_get: "wr (get s) = wr s"
    and cell_get: "i < cap \<Longrightarrow> cell (get s) i = cell s i"
begin

definition count :: "'s \<Rightarrow> nat" where
  "count s = unat (wr s - rd s)"

definition contents :: "'s \<Rightarrow> uint8 list" where
  "contents s = map (\<lambda>k. cell s ((unat (rd s) + k) mod cap)) [0..<count s]"

lemma length_contents: "length (contents s) = count s"
  by (simp add: contents_def)

lemma empty_iff: "rd s = wr s \<longleftrightarrow> contents s = []"
  by (auto simp: contents_def count_def unat_eq_0)

lemma full_iff: "count s \<le> cap \<Longrightarrow> wr s = rd s + of_nat cap \<longleftrightarrow> length (contents s) = cap"
proof -
  have c: "unat (of_nat cap :: uint32) = cap" using cap_small by (simp add: unat_of_nat)
  have "wr s = rd s + of_nat cap \<longleftrightarrow> wr s - rd s = of_nat cap" by (auto simp: algebra_simps)
  also have "\<dots> \<longleftrightarrow> unat (wr s - rd s) = cap" by (metis c word_unat_eq_iff)
  finally show ?thesis by (simp add: length_contents count_def)
qed

lemma contents_put:
  assumes "count s < cap"
  shows "contents (put c s) = contents s @ [c]" "count (put c s) = count s + 1"
proof -
  have "unat (wr s - rd s) + 1 < 2 ^ 32" using assms cap_small by (simp add: count_def)
  then show n: "count (put c s) = count s + 1"
    using unat_plus1 [of "wr s - rd s"] by (simp add: count_def rd_put wr_put algebra_simps)
  have w: "unat (wr s) mod cap = (unat (rd s) + count s) mod cap"
    using unat_add_mod [OF cap_dvd, of "rd s" "count s"] by (simp add: count_def)
  have other: "(unat (rd s) + k) mod cap \<noteq> unat (wr s) mod cap" if "k < count s" for k
    using mod_inj_less [of "unat (rd s) + k" cap "unat (rd s) + count s"] that assms unfolding w by auto
  show "contents (put c s) = contents s @ [c]"
    unfolding contents_def n rd_put using cap_pos other w by (simp add: cell_put)
qed

lemma contents_get:
  assumes "contents s \<noteq> []"
  shows "contents s = cell s (unat (rd s) mod cap) # contents (get s)" "count (get s) = count s - 1"
proof -
  have pos: "0 < count s" using assms by (simp add: contents_def)
  then have "wr s - rd s \<noteq> 0" by (auto simp: count_def unat_eq_0)
  then have "unat (wr s - rd s - 1) = unat (wr s - rd s) - 1" by (rule unat_minus_one)
  then show n: "count (get s) = count s - 1"
    by (simp add: count_def rd_get wr_get diff_diff_eq add.commute)
  have u: "unat (rd s + 1) mod cap = (unat (rd s) + 1) mod cap"
    using unat_add_mod [OF cap_dvd, of "rd s" 1] by simp
  have "[0..<count s] = 0 # map Suc [0..<count s - 1]"
    using pos by (metis One_nat_def Suc_diff_1 map_Suc_upt upt_conv_Cons)
  moreover have "cell (get s) ((unat (rd s + 1) + k) mod cap) = cell s ((unat (rd s) + Suc k) mod cap)" for k
  proof -
    have "(unat (rd s + 1) + k) mod cap = (unat (rd s) + Suc k) mod cap"
      using u by (metis add.assoc mod_add_left_eq plus_1_eq_Suc)
    then show ?thesis using cap_pos by (simp add: cell_get)
  qed
  ultimately show "contents s = cell s (unat (rd s) mod cap) # contents (get s)"
    by (simp add: contents_def n rd_get)
qed

end

text \<open>A ring whose last byte can be taken back, as the console does when a line is edited.\<close>

locale editable_ring = byte_ring +
  fixes unput :: "'a \<Rightarrow> 'a"
  assumes rd_unput: "rd (unput s) = rd s" and wr_unput: "wr (unput s) = wr s - 1"
    and cell_unput: "i < cap \<Longrightarrow> cell (unput s) i = cell s i"
begin

lemma contents_unput:
  assumes "contents s \<noteq> []"
  shows "contents (unput s) = butlast (contents s)" "count (unput s) = count s - 1"
    "last (contents s) = cell s (unat (wr s - 1) mod cap)"
proof -
  have pos: "0 < count s" using assms by (simp add: contents_def)
  then have "wr s - rd s \<noteq> 0" by (auto simp: count_def unat_eq_0)
  then have "unat (wr s - rd s - 1) = unat (wr s - rd s) - 1" by (rule unat_minus_one)
  then show n: "count (unput s) = count s - 1"
    by (simp add: count_def rd_unput wr_unput diff_diff_eq add.commute)
  have up: "[0..<count s] = [0..<count s - 1] @ [count s - 1]"
    using pos by (metis Suc_diff_1 le0 upt_Suc_append)
  show "contents (unput s) = butlast (contents s)"
    unfolding contents_def n rd_unput up using cap_pos by (simp add: cell_unput)
  have "rd s + of_nat (count s - 1) = wr s - 1"
  proof -
    have "(of_nat (count s - 1) :: uint32) = of_nat (count s) - 1" using pos by (simp add: of_nat_diff)
    then show ?thesis by (simp add: count_def)
  qed
  then have "unat (wr s - 1) mod cap = (unat (rd s) + (count s - 1)) mod cap"
    using unat_add_mod [OF cap_dvd, of "rd s" "count s - 1"] by simp
  then show "last (contents s) = cell s (unat (wr s - 1) mod cap)"
    unfolding contents_def up by simp
qed

end

end
