(* ===== verification/Console.thy ===== *)
theory Console
  imports Fs Trap Ring
begin

text \<open>
  The console (\<^verbatim>\<open>kernel/console.c\<close>), the serial port driver below it (\<^verbatim>\<open>kernel/uart.c\<close>) and
  the interrupt controller (\<^verbatim>\<open>kernel/plic.c\<close>).

  The devices are not part of the sources: a register read is the parameter \<open>rd\<close>, which gives
  the value of a register and what else the device does, and register writes are recorded in
  order in \<open>uart_writes\<close> and \<open>plic_writes\<close>. Code that runs after a panic is not modelled, so
  \<open>panicking\<close> and \<open>panicked\<close> are zero throughout.
\<close>

section \<open>State\<close>

record con = fsst +
  cons_buf :: bytes
  cons_r :: uint32
  cons_w :: uint32
  cons_e :: uint32
  tx_busy :: bool
  uart_writes :: "(nat \<times> uint8) list"
  plic_writes :: "(uint64 \<times> uint32) list"
  devsw_read :: "nat \<Rightarrow> bool"
  devsw_write :: "nat \<Rightarrow> bool"

type_synonym 'z cw = "'z con_scheme \<Rightarrow> 'z con_scheme option"
type_synonym 'z rd = "nat \<Rightarrow> 'z con_scheme \<Rightarrow> uint8 \<times> 'z con_scheme"

section \<open>The serial port\<close>

definition RHR :: nat where "RHR = 0"
definition THR :: nat where "THR = 0"
definition IER :: nat where "IER = 1"
definition FCR :: nat where "FCR = 2"
definition ISR :: nat where "ISR = 2"
definition LCR :: nat where "LCR = 3"
definition LSR :: nat where "LSR = 5"
definition LSR_RX_READY :: uint8 where "LSR_RX_READY = 1"
definition LSR_TX_IDLE :: uint8 where "LSR_TX_IDLE = push_bit 5 1"

definition WriteReg :: "nat \<Rightarrow> uint8 \<Rightarrow> 'z con_scheme \<Rightarrow> 'z con_scheme" where
  "WriteReg r v s = s\<lparr>uart_writes := uart_writes s @ [(r, v)]\<rparr>"

definition uartinit :: "'z con_scheme \<Rightarrow> 'z con_scheme" where
  "uartinit s =
     (let s = WriteReg IER 0 s;
          s = WriteReg LCR (push_bit 7 1) s;
          s = WriteReg 0 3 s;
          s = WriteReg 1 0 s;
          s = WriteReg LCR 3 s;
          s = WriteReg FCR (1 OR push_bit 1 3) s
      in WriteReg IER (push_bit 1 1 OR 1) s)"

partial_function (option) uart_wait :: "'z cw \<Rightarrow> 'z con_scheme \<Rightarrow> 'z con_scheme option" where
  "uart_wait sw s =
     (if tx_busy s then do { s \<leftarrow> sleep sw C_tx L_tx s; uart_wait sw s } else Some s)"

definition uartwrite :: "'z cw \<Rightarrow> bytes \<Rightarrow> int \<Rightarrow> 'z con_scheme \<Rightarrow> 'z con_scheme option" where
  "uartwrite sw buf n s =
     do { s \<leftarrow> acquire L_tx s;
          s \<leftarrow> for_each (\<lambda>i s.
                 do { s \<leftarrow> uart_wait sw s;
                      let s = WriteReg THR (buf i) s;
                      Some (s\<lparr>tx_busy := True\<rparr>) }) [0..<nat n] s;
          release L_tx s }"

partial_function (option) uart_spin :: "'z rd \<Rightarrow> 'z con_scheme \<Rightarrow> 'z con_scheme option" where
  "uart_spin rd s =
     (let (v, s) = rd LSR s in if v AND LSR_TX_IDLE = 0 then uart_spin rd s else Some s)"

definition uartputc_sync :: "'z rd \<Rightarrow> int \<Rightarrow> 'z con_scheme \<Rightarrow> 'z con_scheme option" where
  "uartputc_sync rd c s =
     do { s \<leftarrow> uart_spin rd s;
          Some (WriteReg THR (word_of_int c) s) }"

definition uartgetc :: "'z rd \<Rightarrow> 'z con_scheme \<Rightarrow> int \<times> 'z con_scheme" where
  "uartgetc rd s =
     (let (v, s) = rd LSR s
      in if v AND LSR_RX_READY \<noteq> 0 then let (c, s) = rd RHR s in (uint c, s) else (-1, s))"

section \<open>The console\<close>

definition INPUT_BUF_SIZE :: nat where "INPUT_BUF_SIZE = 128"
definition BACKSPACE :: int where "BACKSPACE = 0x100"
definition CONSOLE :: nat where "CONSOLE = 1"

text \<open>\<open>C(x)\<close> is a control character.\<close>

definition Ctrl :: "int \<Rightarrow> int" where "Ctrl x = x - 64"

definition consputc :: "'z rd \<Rightarrow> int \<Rightarrow> 'z con_scheme \<Rightarrow> 'z con_scheme option" where
  "consputc rd c s =
     (if c = BACKSPACE then
        do { s \<leftarrow> uartputc_sync rd 8 s;
             s \<leftarrow> uartputc_sync rd 32 s;
             uartputc_sync rd 8 s }
      else uartputc_sync rd c s)"

partial_function (option) consolewrite_loop :: "'z cw \<Rightarrow> bool \<Rightarrow> uint64 \<Rightarrow> bytes \<Rightarrow> int \<Rightarrow> int \<Rightarrow>
    'z con_scheme \<Rightarrow> (int \<times> 'z con_scheme) option" where
  "consolewrite_loop sw user_src src kbuf n i s =
     (if i < n then
        do { let nn = (if 32 > n - i then n - i else 32);
             (r, buf, s) \<leftarrow> either_copyin (\<lambda>_. 0) 0 user_src (src + word_of_int i) kbuf (word_of_int nn) s;
             if r = -1 then Some (i, s)
             else do { s \<leftarrow> uartwrite sw buf nn s;
                       consolewrite_loop sw user_src src kbuf n (i + nn) s } }
      else Some (i, s))"

definition consolewrite :: "'z cw \<Rightarrow> bool \<Rightarrow> uint64 \<Rightarrow> bytes \<Rightarrow> int \<Rightarrow> 'z con_scheme \<Rightarrow>
    (int \<times> 'z con_scheme) option" where
  "consolewrite sw user_src src kbuf n s = consolewrite_loop sw user_src src kbuf n 0 s"

partial_function (option) cons_wait :: "'z cw \<Rightarrow> 'z con_scheme \<Rightarrow> (bool \<times> 'z con_scheme) option" where
  "cons_wait sw s =
     (if cons_r s = cons_w s then
        do { p \<leftarrow> myproc s;
             (k, s) \<leftarrow> killed p s;
             if k \<noteq> 0 then do { s \<leftarrow> release L_cons s; Some (True, s) }
             else do { s \<leftarrow> sleep sw C_cons L_cons s; cons_wait sw s } }
      else Some (False, s))"

text \<open>
  The outer loop of \<open>consoleread\<close>, with \<open>n\<close> bytes still wanted: \<open>None\<close> when the process was
  killed, with the lock released, and otherwise the remaining count.
\<close>

fun consoleread_loop :: "'z cw \<Rightarrow> bool \<Rightarrow> uint64 \<Rightarrow> bytes \<Rightarrow> nat \<Rightarrow> nat \<Rightarrow> 'z con_scheme \<Rightarrow>
    (nat option \<times> bytes \<times> 'z con_scheme) option" where
  "consoleread_loop sw user_dst dst kbuf target 0 s = Some (Some 0, kbuf, s)"
| "consoleread_loop sw user_dst dst kbuf target (Suc n) s =
     do { (k, s) \<leftarrow> cons_wait sw s;
          if k then Some (None, kbuf, s)
          else do {
            let c = cons_buf s (unat (cons_r s) mod INPUT_BUF_SIZE);
            let s = s\<lparr>cons_r := cons_r s + 1\<rparr>;
            if uint c = Ctrl 68 then
              Some (Some (Suc n), kbuf,
                    if Suc n < target then s\<lparr>cons_r := cons_r s - 1\<rparr> else s)
            else do {
              (r, kbuf, s) \<leftarrow> either_copyout user_dst dst kbuf (\<lambda>_. c) 0 1 s;
              if r = -1 then Some (Some (Suc n), kbuf, s)
              else if c = 10 then Some (Some n, kbuf, s)
              else consoleread_loop sw user_dst (dst + 1) kbuf target n s } } }"

definition consoleread :: "'z cw \<Rightarrow> bool \<Rightarrow> uint64 \<Rightarrow> bytes \<Rightarrow> int \<Rightarrow> 'z con_scheme \<Rightarrow>
    (int \<times> bytes \<times> 'z con_scheme) option" where
  "consoleread sw user_dst dst kbuf n s =
     do { s \<leftarrow> acquire L_cons s;
          (r, kbuf, s) \<leftarrow> consoleread_loop sw user_dst dst kbuf (nat n) (nat n) s;
          case r of
            None \<Rightarrow> Some (-1, kbuf, s)
          | Some m \<Rightarrow> do { s \<leftarrow> release L_cons s; Some (int (nat n) - int m, kbuf, s) } }"

text \<open>The loop of control-U; the edit index returns to the write index or to a newline.\<close>

partial_function (option) cons_kill :: "'z rd \<Rightarrow> 'z con_scheme \<Rightarrow> 'z con_scheme option" where
  "cons_kill rd s =
     (if cons_e s \<noteq> cons_w s \<and> cons_buf s (unat (cons_e s - 1) mod INPUT_BUF_SIZE) \<noteq> 10 then
        do { let s = s\<lparr>cons_e := cons_e s - 1\<rparr>;
             s \<leftarrow> consputc rd BACKSPACE s;
             cons_kill rd s }
      else Some s)"

definition consoleintr :: "'z rd \<Rightarrow> int \<Rightarrow> 'z con_scheme \<Rightarrow> 'z con_scheme option" where
  "consoleintr rd c s =
     do { s \<leftarrow> acquire L_cons s;
          s \<leftarrow> (if c = Ctrl 80 then procdump s
               else if c = Ctrl 85 then cons_kill rd s
               else if c = Ctrl 72 \<or> c = 0x7f then
                 (if cons_e s \<noteq> cons_w s
                  then consputc rd BACKSPACE (s\<lparr>cons_e := cons_e s - 1\<rparr>)
                  else Some s)
               else if c \<noteq> 0 \<and> unat (cons_e s - cons_r s) < INPUT_BUF_SIZE then
                 do { let c = (if c = 13 then 10 else c);
                      s \<leftarrow> consputc rd c s;
                      let s = s\<lparr>cons_buf := (cons_buf s)(unat (cons_e s) mod INPUT_BUF_SIZE := word_of_int c),
                                cons_e := cons_e s + 1\<rparr>;
                      if c = 10 \<or> c = Ctrl 68 \<or> unat (cons_e s - cons_r s) = INPUT_BUF_SIZE
                      then wakeup (Some C_cons) (s\<lparr>cons_w := cons_e s\<rparr>)
                      else Some s }
               else Some s);
          release L_cons s }"

definition consoleinit :: "'z con_scheme \<Rightarrow> 'z con_scheme" where
  "consoleinit s =
     (let s = uartinit s
      in s\<lparr>devsw_read := (devsw_read s)(CONSOLE := True), devsw_write := (devsw_write s)(CONSOLE := True)\<rparr>)"

section \<open>Interrupts\<close>

partial_function (option) uart_input :: "'z rd \<Rightarrow> 'z con_scheme \<Rightarrow> 'z con_scheme option" where
  "uart_input rd s =
     (let (c, s) = uartgetc rd s
      in if c = -1 then Some s else do { s \<leftarrow> consoleintr rd c s; uart_input rd s })"

definition uartintr :: "'z rd \<Rightarrow> 'z con_scheme \<Rightarrow> 'z con_scheme option" where
  "uartintr rd s =
     do { let s = snd (rd ISR s);
          s \<leftarrow> acquire L_tx s;
          let (v, s) = rd LSR s;
          s \<leftarrow> (if v AND LSR_TX_IDLE \<noteq> 0 then wakeup (Some C_tx) (s\<lparr>tx_busy := False\<rparr>) else Some s);
          s \<leftarrow> release L_tx s;
          uart_input rd s }"

definition PLIC_SENABLE :: "nat \<Rightarrow> uint64" where "PLIC_SENABLE hart = PLIC + 0x2080 + of_nat hart * 0x100"
definition PLIC_SPRIORITY :: "nat \<Rightarrow> uint64" where "PLIC_SPRIORITY hart = PLIC + 0x201000 + of_nat hart * 0x2000"
definition PLIC_SCLAIM :: "nat \<Rightarrow> uint64" where "PLIC_SCLAIM hart = PLIC + 0x201004 + of_nat hart * 0x2000"

definition plic_write :: "uint64 \<Rightarrow> uint32 \<Rightarrow> 'z con_scheme \<Rightarrow> 'z con_scheme" where
  "plic_write a v s = s\<lparr>plic_writes := plic_writes s @ [(a, v)]\<rparr>"

definition plicinit :: "'z con_scheme \<Rightarrow> 'z con_scheme" where
  "plicinit s =
     (let s = plic_write (PLIC + word_of_int UART0_IRQ * 4) 1 s
      in plic_write (PLIC + word_of_int VIRTIO0_IRQ * 4) 1 s)"

definition plicinithart :: "'z con_scheme \<Rightarrow> 'z con_scheme" where
  "plicinithart s =
     (let hart = cpuid s;
          s = plic_write (PLIC_SENABLE hart) (push_bit (nat UART0_IRQ) 1 OR push_bit (nat VIRTIO0_IRQ) 1) s
      in plic_write (PLIC_SPRIORITY hart) 0 s)"

text \<open>\<open>claim\<close> is the controller's answer to a read of the claim register at an address.\<close>

definition plic_claim :: "(uint64 \<Rightarrow> 'z con_scheme \<Rightarrow> uint32 \<times> 'z con_scheme) \<Rightarrow> 'z con_scheme \<Rightarrow>
    int \<times> 'z con_scheme" where
  "plic_claim claim s = (let hart = cpuid s; (irq, s) = claim (PLIC_SCLAIM hart) s in (sint irq, s))"

definition plic_complete :: "int \<Rightarrow> 'z con_scheme \<Rightarrow> 'z con_scheme" where
  "plic_complete irq s = plic_write (PLIC_SCLAIM (cpuid s)) (word_of_int irq) s"

section \<open>The input line as a ring buffer\<close>

definition cons_put :: "uint8 \<Rightarrow> 'z con_scheme \<Rightarrow> 'z con_scheme" where
  "cons_put c s = s\<lparr>cons_buf := (cons_buf s)(unat (cons_e s) mod INPUT_BUF_SIZE := c), cons_e := cons_e s + 1\<rparr>"

definition cons_get :: "'z con_scheme \<Rightarrow> 'z con_scheme" where
  "cons_get s = s\<lparr>cons_r := cons_r s + 1\<rparr>"

definition cons_unput :: "'z con_scheme \<Rightarrow> 'z con_scheme" where
  "cons_unput s = s\<lparr>cons_e := cons_e s - 1\<rparr>"

interpretation line: editable_ring INPUT_BUF_SIZE cons_r cons_e cons_buf cons_put cons_get cons_unput
proof
  show "0 < INPUT_BUF_SIZE" "INPUT_BUF_SIZE < 2 ^ 31" by (simp_all add: INPUT_BUF_SIZE_def)
  show "INPUT_BUF_SIZE dvd 2 ^ 32" by (simp add: INPUT_BUF_SIZE_def dvd_def exI [of _ "33554432"])
qed (simp_all add: cons_put_def cons_get_def cons_unput_def)

text \<open>The bytes typed and not yet read, and how many of them a reader may take.\<close>

definition cons_line :: "'z con_scheme \<Rightarrow> uint8 list" where
  "cons_line s = map (\<lambda>k. cons_buf s ((unat (cons_r s) + k) mod INPUT_BUF_SIZE)) [0..<unat (cons_e s - cons_r s)]"

definition cons_avail :: "'z con_scheme \<Rightarrow> nat" where
  "cons_avail s = unat (cons_w s - cons_r s)"

lemma cons_line_eq: "cons_line s = line.contents s"
  unfolding cons_line_def line.contents_def line.count_def ..

lemma cons_count: "unat (cons_e s - cons_r s) = length (cons_line s)"
  by (simp add: cons_line_def)

definition cons_ok :: "'z con_scheme \<Rightarrow> bool" where
  "cons_ok s \<longleftrightarrow> cons_avail s \<le> length (cons_line s) \<and> length (cons_line s) \<le> INPUT_BUF_SIZE \<and>
     10 \<notin> set (drop (cons_avail s) (cons_line s))"

lemma cons_e_w: "cons_e s = cons_w s \<longleftrightarrow> length (cons_line s) = cons_avail s"
proof -
  have "cons_e s = cons_w s \<longleftrightarrow> cons_e s - cons_r s = cons_w s - cons_r s" by simp
  also have "\<dots> \<longleftrightarrow> unat (cons_e s - cons_r s) = unat (cons_w s - cons_r s)" by (simp add: word_unat_eq_iff)
  finally show ?thesis by (simp add: cons_count cons_avail_def)
qed

lemma cons_unput_line:
  assumes "cons_avail s < length (cons_line s)"
  shows "cons_line (cons_unput s) = butlast (cons_line s)" "cons_avail (cons_unput s) = cons_avail s"
    "last (cons_line s) = cons_buf s (unat (cons_e s - 1) mod INPUT_BUF_SIZE)"
proof -
  have "line.contents s \<noteq> []" using assms by (auto simp: cons_line_eq)
  from line.contents_unput [OF this]
  show "cons_line (cons_unput s) = butlast (cons_line s)"
    "last (cons_line s) = cons_buf s (unat (cons_e s - 1) mod INPUT_BUF_SIZE)"
    by (simp_all add: cons_line_eq)
  show "cons_avail (cons_unput s) = cons_avail s" by (simp add: cons_avail_def cons_unput_def)
qed

lemma cons_put_line:
  assumes "length (cons_line s) < INPUT_BUF_SIZE"
  shows "cons_line (cons_put c s) = cons_line s @ [c]" "cons_avail (cons_put c s) = cons_avail s"
proof -
  show "cons_line (cons_put c s) = cons_line s @ [c]"
    using line.contents_put(1) [of s c] assms by (simp add: cons_line_eq line.length_contents)
  show "cons_avail (cons_put c s) = cons_avail s" by (simp add: cons_avail_def cons_put_def)
qed

section \<open>Line editing\<close>

text \<open>The contract: what a typed character does to the line and to its available part.\<close>

definition edit :: "int \<Rightarrow> uint8 list \<times> nat \<Rightarrow> uint8 list \<times> nat" where
  "edit c = (\<lambda>(L, n).
     if c = Ctrl 80 then (L, n)
     else if c = Ctrl 85 then (take n L, n)
     else if c = Ctrl 72 \<or> c = 127 then (if n < length L then butlast L else L, n)
     else if c \<noteq> 0 \<and> length L < INPUT_BUF_SIZE then
       (let b = (if c = 13 then 10 else c); L = L @ [word_of_int b]
        in (L, if b = 10 \<or> b = Ctrl 68 \<or> length L = INPUT_BUF_SIZE then length L else n))
     else (L, n))"

text \<open>
  What the driver relies on of the serial port: polling the line status ends, and the read
  itself changes nothing of the kernel's state.
\<close>

definition uart_idle :: "'z rd \<Rightarrow> bool" where
  "uart_idle rd \<longleftrightarrow> (\<forall>s. uart_spin rd s = Some s)"

lemma consputc_eq:
  "uart_idle rd \<Longrightarrow> consputc rd c s = Some (s\<lparr>uart_writes := uart_writes s @
     (if c = BACKSPACE then [(THR, 8), (THR, 32), (THR, 8)] else [(THR, word_of_int c)])\<rparr>)"
  by (simp add: consputc_def uartputc_sync_def uart_idle_def WriteReg_def)

lemma cons_frame:
  "cons_line (s\<lparr>uart_writes := u\<rparr>) = cons_line s" "cons_avail (s\<lparr>uart_writes := u\<rparr>) = cons_avail s"
  "cons_line (s\<lparr>held := h\<rparr>) = cons_line s" "cons_avail (s\<lparr>held := h\<rparr>) = cons_avail s"
  "cons_line (s\<lparr>klog := k\<rparr>) = cons_line s" "cons_avail (s\<lparr>klog := k\<rparr>) = cons_avail s"
  "cons_line (s\<lparr>procs := ps\<rparr>) = cons_line s" "cons_avail (s\<lparr>procs := ps\<rparr>) = cons_avail s"
  by (simp_all add: cons_line_def cons_avail_def)

lemma cons_kill_eq:
  assumes "uart_idle rd" "cons_avail s \<le> length (cons_line s)" "10 \<notin> set (drop (cons_avail s) (cons_line s))"
  shows "runs (cons_kill rd s) (\<lambda>t. held t = held s \<and> cons_r t = cons_r s \<and>
    cons_line t = take (cons_avail s) (cons_line s) \<and> cons_avail t = cons_avail s)"
  using assms(2,3)
proof (induction "length (cons_line s) - cons_avail s" arbitrary: s)
  case 0
  then have "cons_e s = cons_w s" by (simp add: cons_e_w)
  then have "cons_kill rd s = Some s" by (subst cons_kill.simps) simp
  then show ?case using 0 by simp
next
  case (Suc k)
  then have lt: "cons_avail s < length (cons_line s)" by simp
  let ?s = "cons_unput s"
  let ?t = "?s\<lparr>uart_writes := uart_writes ?s @ [(THR, 8), (THR, 32), (THR, 8)]\<rparr>"
  note u = cons_unput_line [OF lt]
  have "last (cons_line s) \<in> set (drop (cons_avail s) (cons_line s))"
    using lt by (metis drop_eq_Nil2 last_drop last_in_set leD)
  then have "cons_buf s (unat (cons_e s - 1) mod INPUT_BUF_SIZE) \<noteq> 10" using Suc.prems(2) u(3) by metis
  moreover have "cons_e s \<noteq> cons_w s" using lt by (simp add: cons_e_w)
  ultimately have e: "cons_kill rd s = cons_kill rd ?t"
    by (subst cons_kill.simps) (simp add: consputc_eq [OF assms(1)] cons_unput_def)
  have d: "drop (cons_avail s) (butlast (cons_line s)) = butlast (drop (cons_avail s) (cons_line s))"
    by (simp add: drop_butlast)
  have "runs (cons_kill rd ?t) (\<lambda>t'. held t' = held ?t \<and> cons_r t' = cons_r ?t \<and>
      cons_line t' = take (cons_avail ?t) (cons_line ?t) \<and> cons_avail t' = cons_avail ?t)"
    by (rule Suc.hyps(1))
       (use Suc.hyps(2) Suc.prems lt in \<open>auto simp: cons_frame u d dest: in_set_butlastD\<close>)
  then show ?case unfolding e
    by (rule runs_conseq)
       (use lt in \<open>auto simp: cons_frame u take_butlast\<close>, simp_all add: cons_unput_def)
qed

lemma procdump_log: "L_pr \<notin> set (held s) \<Longrightarrow> runs (procdump s) (\<lambda>t. \<exists>k. t = s\<lparr>klog := k\<rparr>)"
proof -
  assume L: "L_pr \<notin> set (held s)"
  have f: "runs (for_each (\<lambda>p s. let q = procs s p in
            if p_state q = UNUSED then Some s
            else
              let state = (case procdump_state (p_state q) of None \<Rightarrow> ''???'' | Some x \<Rightarrow> x)
              in kprintf (tab_line [''%d'', ''%s'', ''%s'', ''%d'', ''%d'', ''%d'', ''%d'', ''%d''])
                   [KInt (p_pid q), KStr state, KStr (cname (p_name q)), KInt (p_priority q),
                    KInt (p_rtime q), KInt (p_wtime q), KInt (p_nrun q), KInt (p_starving q)] s) l u)
     (\<lambda>t. \<exists>k. t = s\<lparr>klog := k\<rparr>)" if "\<exists>k. u = s\<lparr>klog := k\<rparr>" for l u
    using that by (rule runs_for_each) (auto simp: Let_def kprintf_eq L)
  show ?thesis unfolding procdump_def by (simp add: kprintf_eq L) (rule f, blast)
qed

definition cons_abs :: "'z con_scheme \<Rightarrow> uint8 list \<times> nat" where
  "cons_abs s = (cons_line s, cons_avail s)"

lemma cons_ok_edit:
  assumes "cons_ok s" "0 \<le> c" "c < 256" "cons_abs t = edit c (cons_abs s)"
  shows "cons_ok t"
proof -
  have "word_of_int c = (10 :: uint8) \<longleftrightarrow> c = 10"
  proof
    assume "word_of_int c = (10 :: uint8)"
    then have "uint (word_of_int c :: uint8) = 10" by simp
    then show "c = 10" using assms(2,3) by (simp add: uint_word_of_int)
  qed simp
  then show ?thesis using assms(1,4)
    by (auto simp: cons_ok_def cons_abs_def edit_def Let_def drop_butlast Ctrl_def split: if_splits dest: in_set_butlastD)
qed

text \<open>A step of the handler, under its lock, that edits the line as the contract says.\<close>

definition edits :: "int \<Rightarrow> 'z con_scheme \<Rightarrow> 'z con_scheme option \<Rightarrow> bool" where
  "edits c s m \<longleftrightarrow> runs m (\<lambda>t. cons_abs t = edit c (cons_abs s) \<and> cons_r t = cons_r s \<and> held t = held s)"

lemmas edits_defs = edits_def cons_abs_def edit_def cons_frame Ctrl_def

lemma dump_edits: "L_pr \<notin> set (held s) \<Longrightarrow> edits (Ctrl 80) s (procdump s)"
  unfolding edits_def by (rule runs_conseq [OF procdump_log]) (auto simp: edits_defs)

lemma kill_edits: "uart_idle rd \<Longrightarrow> cons_ok s \<Longrightarrow> edits (Ctrl 85) s (cons_kill rd s)"
  unfolding edits_def by (rule runs_conseq [OF cons_kill_eq]) (auto simp: edits_defs cons_ok_def)

lemma erase_edits:
  "uart_idle rd \<Longrightarrow> cons_ok s \<Longrightarrow> c = Ctrl 72 \<or> c = 127 \<Longrightarrow>
   edits c s (if cons_e s \<noteq> cons_w s then consputc rd BACKSPACE (s\<lparr>cons_e := cons_e s - 1\<rparr>) else Some s)"
  using cons_unput_line [of s] by (auto simp: edits_defs cons_e_w consputc_eq cons_ok_def cons_unput_def)

lemma type_edits:
  assumes "uart_idle rd" "others_free s" "c \<noteq> 0" "c \<notin> {Ctrl 80, Ctrl 85, Ctrl 72, 127, BACKSPACE}"
    "length (cons_line s) < INPUT_BUF_SIZE" and b: "b = (if c = 13 then 10 else c)"
  shows "edits c s
    (do { s \<leftarrow> consputc rd b s;
          let s = s\<lparr>cons_buf := (cons_buf s)(unat (cons_e s) mod INPUT_BUF_SIZE := word_of_int b),
                    cons_e := cons_e s + 1\<rparr>;
          if b = 10 \<or> b = Ctrl 68 \<or> unat (cons_e s - cons_r s) = INPUT_BUF_SIZE
          then wakeup (Some C_cons) (s\<lparr>cons_w := cons_e s\<rparr>)
          else Some s })"
proof -
  let ?u = "s\<lparr>uart_writes := uart_writes s @ [(THR, word_of_int b)]\<rparr>"
  let ?v = "cons_put (word_of_int b) ?u"
  let ?w = "?v\<lparr>cons_w := cons_e ?v\<rparr>"
  have l: "cons_line ?v = cons_line s @ [word_of_int b]" "cons_avail ?v = cons_avail s"
    using cons_put_line [of ?u] assms(5) by (simp_all add: cons_frame)
  have w: "cons_line ?w = cons_line ?v" "cons_avail ?w = length (cons_line ?v)"
    by (simp_all add: cons_line_def cons_avail_def)
  have "others_free ?w" using assms(2) by (simp add: others_free_def myproc_def cpuid_def cons_put_def)
  from wakeup_eq [OF this, of "Some C_cons"]
  have "edits c s (if b = 10 \<or> b = Ctrl 68 \<or> unat (cons_e ?v - cons_r ?v) = INPUT_BUF_SIZE
      then wakeup (Some C_cons) ?w else Some ?v)"
    using assms(3-5) l w unfolding cons_count by (auto simp: edits_defs Let_def b) (simp_all add: cons_put_def)
  moreover have "b \<noteq> BACKSPACE" using assms(4) by (simp add: b BACKSPACE_def)
  ultimately show ?thesis by (simp add: consputc_eq [OF assms(1)] cons_put_def Let_def cong: if_cong)
qed

lemma idle_edits:
  "c \<notin> {Ctrl 85, Ctrl 72, 127} \<Longrightarrow> \<not> (c \<noteq> 0 \<and> unat (cons_e s - cons_r s) < INPUT_BUF_SIZE) \<Longrightarrow> edits c s (Some s)"
  by (auto simp: edits_defs cons_count)

lemma edits_if: "(P \<Longrightarrow> edits c s m) \<Longrightarrow> (\<not> P \<Longrightarrow> edits c s n) \<Longrightarrow> edits c s (if P then m else n)"
  by simp

lemma edits_release:
  assumes "edits c (s\<lparr>held := l # held s\<rparr>) m"
  shows "runs (Option.bind m (release l)) (\<lambda>t. cons_abs t = edit c (cons_abs s) \<and> cons_r t = cons_r s \<and> held t = held s)"
  using assms by (auto simp: edits_def cons_abs_def cons_frame release_head elim!: runsE)

lemma consoleintr_runs:
  assumes "uart_idle rd" "cons_ok s" "c < 256" "L_cons \<notin> set (held s)" "L_pr \<notin> set (held s)" "others_free s"
  shows "runs (consoleintr rd c s) (\<lambda>t. cons_abs t = edit c (cons_abs s) \<and> cons_r t = cons_r s \<and> held t = held s)"
proof -
  let ?s = "s\<lparr>held := L_cons # held s\<rparr>"
  have s: "others_free ?s" "cons_ok ?s" "L_pr \<notin> set (held ?s)"
    using assms by (simp_all add: others_free_def myproc_def cpuid_def cons_ok_def cons_frame)
  have "c \<noteq> BACKSPACE" using assms(3) by (simp add: BACKSPACE_def)
  then show ?thesis unfolding consoleintr_def acquire_free [OF assms(4)] Option.bind.bind_lunit Let_def
    by (intro edits_release edits_if [of "c = Ctrl 80"] edits_if [of "c = Ctrl 85"]
          edits_if [of "c = Ctrl 72 \<or> c = 127"] edits_if [of "c \<noteq> 0 \<and> _"] erase_edits type_edits [unfolded Let_def] idle_edits)
       (use s assms(1) in \<open>auto simp: dump_edits kill_edits cons_count cons_frame\<close>)
qed

text \<open>
  C11: the console's line discipline implements the editing contract. For a byte from the
  serial port, and a transmitter that comes ready, the console interrupt returns with its
  lock released; the line and its available part become what the contract says (append and
  commit on newline, on control-D or when the buffer is full; erase one uncommitted
  character; kill the uncommitted line; nothing otherwise), and the indices stay in order
  with no newline in the uncommitted part.
\<close>

theorem consoleintr_edits:
  assumes "uart_idle rd" "cons_ok s" "0 \<le> c" "c < 256" "L_cons \<notin> set (held s)" "L_pr \<notin> set (held s)" "others_free s"
  shows "\<exists>t. consoleintr rd c s = Some t \<and> cons_abs t = edit c (cons_abs s) \<and> cons_ok t \<and>
    cons_r t = cons_r s \<and> held t = held s"
  by (rule runsE [OF consoleintr_runs [OF assms(1,2,4-7)]]) (use cons_ok_edit [OF assms(2-4)] in blast)

text \<open>The console at boot.\<close>

definition con0 :: con where
  "con0 = fsst.extend fsst0 (con.fields (\<lambda>_. 0) 0 0 0 False [] [] (\<lambda>_. False) (\<lambda>_. False))"

lemma con0_fields [simp]:
  "held con0 = []" "intena con0 = True" "hartid con0 = 0" "procs con0 = (\<lambda>_. proc0)"
  "cpu_proc con0 = (\<lambda>_. None)" "klog con0 = []" "ticks con0 = 0" "myproc con0 = None"
  "cons_buf con0 = (\<lambda>_. 0)" "cons_r con0 = 0" "cons_w con0 = 0" "cons_e con0 = 0" "uart_writes con0 = []"
  by (simp_all add: con0_def fsst.defs con.defs kern0_def myproc_def cpuid_def fsst0_def logst0_def bio0_def slk0_def logst.defs bio.defs slk.defs kern.defs)

definition cons_ex :: con where
  "cons_ex = con0\<lparr>cons_buf := (\<lambda>_. 97), cons_e := 1\<rparr>"

theorem consoleintr_edits_witness:
  "\<exists>t. consoleintr (\<lambda>r s. (32, s)) 10 cons_ex = Some t \<and> cons_abs t = ([97, 10], 2)"
proof -
  have "uart_idle (\<lambda>r s :: con. (32, s))"
    unfolding uart_idle_def by (intro allI, subst uart_spin.simps) (simp add: LSR_TX_IDLE_def)
  moreover have "cons_abs cons_ex = ([97], 0)"
    by (simp add: cons_abs_def cons_line_def cons_avail_def cons_ex_def)
  moreover from this have "cons_ok cons_ex" by (simp add: cons_ok_def cons_abs_def INPUT_BUF_SIZE_def)
  moreover have "held cons_ex = []" "others_free cons_ex" by (simp_all add: cons_ex_def others_free_def)
  ultimately show ?thesis
    using consoleintr_edits [of "\<lambda>r s. (32, s)" cons_ex 10]
    by (auto simp: edit_def Ctrl_def INPUT_BUF_SIZE_def)
qed

end
