(* ===== verification/Pipe.thy ===== *)
theory Pipe
  imports Vmcopy Scheduler Ring
begin

text \<open>
  Pipes, \<^verbatim>\<open>kernel/pipe.c\<close>. A pipe lives in a page of physical memory: \<open>pi\<close> is its address
  and the fields of \<open>struct pipe\<close> are read and written at their offsets, behind the 24 bytes
  of its spin lock.
\<close>

section \<open>Layout\<close>

definition PIPESIZE :: nat where "PIPESIZE = 512"

definition pi_data :: nat where "pi_data = 24"
definition pi_nread :: nat where "pi_nread = 536"
definition pi_nwrite :: nat where "pi_nwrite = 540"
definition pi_readopen :: nat where "pi_readopen = 544"
definition pi_writeopen :: nat where "pi_writeopen = 548"

definition pipe_get :: "uint64 \<Rightarrow> nat \<Rightarrow> 'z mach_scheme \<Rightarrow> uint32" where
  "pipe_get pi f s = ld32 (mem s) (unat pi + f)"

definition pipe_set :: "uint64 \<Rightarrow> nat \<Rightarrow> uint32 \<Rightarrow> 'z mach_scheme \<Rightarrow> 'z mach_scheme" where
  "pipe_set pi f v s = s\<lparr>mem := st32 (mem s) (unat pi + f) v\<rparr>"

definition pipe_byte :: "uint64 \<Rightarrow> uint32 \<Rightarrow> 'z mach_scheme \<Rightarrow> uint8" where
  "pipe_byte pi i s = mem s (unat pi + pi_data + unat i mod PIPESIZE)"

definition pipe_put :: "uint64 \<Rightarrow> uint32 \<Rightarrow> uint8 \<Rightarrow> 'z mach_scheme \<Rightarrow> 'z mach_scheme" where
  "pipe_put pi i c s = s\<lparr>mem := (mem s)(unat pi + pi_data + unat i mod PIPESIZE := c)\<rparr>"

section \<open>Operations\<close>

text \<open>The part of \<open>pipealloc\<close> that initialises the structure.\<close>

definition pipe_init :: "uint64 \<Rightarrow> 'z mach_scheme \<Rightarrow> 'z mach_scheme" where
  "pipe_init pi s =
     (let s = pipe_set pi pi_readopen 1 s;
          s = pipe_set pi pi_writeopen 1 s;
          s = pipe_set pi pi_nwrite 0 s
      in pipe_set pi pi_nread 0 s)"

definition pipeclose :: "uint64 \<Rightarrow> bool \<Rightarrow> 'z kern_scheme \<Rightarrow> 'z kern_scheme option" where
  "pipeclose pi wr s =
     do { s \<leftarrow> acquire (L_pipe pi) s;
          s \<leftarrow> (if wr
               then wakeup (Some (C_nread pi)) (pipe_set pi pi_writeopen 0 s)
               else wakeup (Some (C_nwrite pi)) (pipe_set pi pi_readopen 0 s));
          if pipe_get pi pi_readopen s = 0 \<and> pipe_get pi pi_writeopen s = 0
          then do { s \<leftarrow> release (L_pipe pi) s; kfree pi s }
          else release (L_pipe pi) s }"

text \<open>
  The loop of \<open>pipewrite\<close>: \<open>Inl\<close> when it returned from inside, with the lock released,
  \<open>Inr i\<close> when it ended with \<open>i\<close> bytes written.
\<close>

partial_function (option) pipewrite_loop ::
  "('z kern_scheme \<Rightarrow> 'z kern_scheme option) \<Rightarrow> nat \<Rightarrow> uint64 \<Rightarrow> uint64 \<Rightarrow> int \<Rightarrow> int \<Rightarrow>
   'z kern_scheme \<Rightarrow> ((int + int) \<times> 'z kern_scheme) option" where
  "pipewrite_loop sw pr pi addr n i s =
     (if i < n then
        do { (k, s) \<leftarrow> (if pipe_get pi pi_readopen s = 0 then Some (True, s)
                      else do { (k, s) \<leftarrow> killed pr s; Some (k \<noteq> 0, s) });
             if k then do { s \<leftarrow> release (L_pipe pi) s; Some (Inl (-1), s) }
             else if pipe_get pi pi_nwrite s = pipe_get pi pi_nread s + of_nat PIPESIZE then
               do { s \<leftarrow> wakeup (Some (C_nread pi)) s;
                    s \<leftarrow> sleep sw (C_nwrite pi) (L_pipe pi) s;
                    pipewrite_loop sw pr pi addr n i s }
             else
               do { (r, ch, s) \<leftarrow> copyin (p_pagetable (procs s pr)) (\<lambda>_. 0) 0
                                   (addr + word_of_int i) 1 s;
                    if r = -1 then Some (Inr i, s)
                    else do {
                      let w = pipe_get pi pi_nwrite s;
                      let s = pipe_set pi pi_nwrite (w + 1) s;
                      pipewrite_loop sw pr pi addr n (i + 1) (pipe_put pi w (ch 0) s) } } }
      else Some (Inr i, s))"

definition pipewrite ::
  "('z kern_scheme \<Rightarrow> 'z kern_scheme option) \<Rightarrow> uint64 \<Rightarrow> uint64 \<Rightarrow> int \<Rightarrow> 'z kern_scheme \<Rightarrow>
   (int \<times> 'z kern_scheme) option" where
  "pipewrite sw pi addr n s =
     do { pr \<leftarrow> myproc s;
          s \<leftarrow> acquire (L_pipe pi) s;
          (r, s) \<leftarrow> pipewrite_loop sw pr pi addr n 0 s;
          case r of
            Inl e \<Rightarrow> Some (e, s)
          | Inr i \<Rightarrow>
              do { s \<leftarrow> wakeup (Some (C_nread pi)) s;
                   s \<leftarrow> release (L_pipe pi) s;
                   Some (i, s) } }"

text \<open>Waiting for data: \<open>True\<close> when the process was killed, with the lock released.\<close>

partial_function (option) piperead_wait ::
  "('z kern_scheme \<Rightarrow> 'z kern_scheme option) \<Rightarrow> nat \<Rightarrow> uint64 \<Rightarrow> 'z kern_scheme \<Rightarrow>
   (bool \<times> 'z kern_scheme) option" where
  "piperead_wait sw pr pi s =
     (if pipe_get pi pi_nread s = pipe_get pi pi_nwrite s \<and> pipe_get pi pi_writeopen s \<noteq> 0 then
        do { (k, s) \<leftarrow> killed pr s;
             if k \<noteq> 0 then do { s \<leftarrow> release (L_pipe pi) s; Some (True, s) }
             else do { s \<leftarrow> sleep sw (C_nread pi) (L_pipe pi) s;
                       piperead_wait sw pr pi s } }
      else Some (False, s))"

text \<open>The copying loop; the last argument counts \<open>n - i\<close> down.\<close>

fun piperead_loop :: "nat \<Rightarrow> uint64 \<Rightarrow> uint64 \<Rightarrow> int \<Rightarrow> nat \<Rightarrow> 'z kern_scheme \<Rightarrow>
   (int \<times> 'z kern_scheme) option" where
  "piperead_loop pr pi addr i 0 s = Some (i, s)"
| "piperead_loop pr pi addr i (Suc k) s =
     (if pipe_get pi pi_nread s = pipe_get pi pi_nwrite s then Some (i, s)
      else do {
        let ch = pipe_byte pi (pipe_get pi pi_nread s) s;
        (r, s) \<leftarrow> copyout (p_pagetable (procs s pr)) (addr + word_of_int i) (\<lambda>_. ch) 0 1 s;
        if r = -1 then Some (if i = 0 then -1 else i, s)
        else piperead_loop pr pi addr (i + 1) k
               (pipe_set pi pi_nread (pipe_get pi pi_nread s + 1) s) })"

definition piperead ::
  "('z kern_scheme \<Rightarrow> 'z kern_scheme option) \<Rightarrow> uint64 \<Rightarrow> uint64 \<Rightarrow> int \<Rightarrow> 'z kern_scheme \<Rightarrow>
   (int \<times> 'z kern_scheme) option" where
  "piperead sw pi addr n s =
     do { pr \<leftarrow> myproc s;
          s \<leftarrow> acquire (L_pipe pi) s;
          (k, s) \<leftarrow> piperead_wait sw pr pi s;
          if k then Some (-1, s)
          else do {
            (i, s) \<leftarrow> piperead_loop pr pi addr 0 (nat n) s;
            s \<leftarrow> wakeup (Some (C_nwrite pi)) s;
            s \<leftarrow> release (L_pipe pi) s;
            Some (i, s) } }"

section \<open>The ring buffer of a pipe\<close>

definition pipe_enq :: "uint64 \<Rightarrow> uint8 \<Rightarrow> 'z mach_scheme \<Rightarrow> 'z mach_scheme" where
  "pipe_enq pi c s = (let w = pipe_get pi pi_nwrite s in pipe_put pi w c (pipe_set pi pi_nwrite (w + 1) s))"

definition pipe_deq :: "uint64 \<Rightarrow> 'z mach_scheme \<Rightarrow> 'z mach_scheme" where
  "pipe_deq pi s = pipe_set pi pi_nread (pipe_get pi pi_nread s + 1) s"

lemmas pipe_offsets = pi_data_def pi_nread_def pi_nwrite_def pi_readopen_def pi_writeopen_def PIPESIZE_def

lemma pipe_get_set:
  "f + 4 \<le> g \<or> g + 4 \<le> f \<or> f = g \<Longrightarrow> pipe_get pi f (pipe_set pi g v s) = (if f = g then v else pipe_get pi f s)"
  by (auto simp: pipe_get_def pipe_set_def ldn_stn_same ldn_stn_disjoint)

lemma pipe_get_put: "536 \<le> f \<Longrightarrow> pipe_get pi f (pipe_put pi i c s) = pipe_get pi f s"
proof -
  assume "536 \<le> f"
  moreover have "unat i mod 512 < 512" by simp
  ultimately have "unat pi + 24 + unat i mod 512 < unat pi + f" by linarith
  then show ?thesis by (simp add: pipe_get_def pipe_put_def pipe_offsets ldn_upd_disjoint)
qed

lemma pipe_cell_set: "i < 512 \<Longrightarrow> 536 \<le> f \<Longrightarrow> mem (pipe_set pi f v s) (unat pi + 24 + i) = mem s (unat pi + 24 + i)"
  by (simp add: pipe_set_def stn_apply)

interpretation pipe: byte_ring PIPESIZE "pipe_get pi pi_nread" "pipe_get pi pi_nwrite"
    "\<lambda>s i. mem s (unat pi + pi_data + i)" "pipe_enq pi" "pipe_deq pi" for pi :: uint64
proof
  show "0 < PIPESIZE" "PIPESIZE < 2 ^ 31" by (simp_all add: PIPESIZE_def)
  show "PIPESIZE dvd 2 ^ 32" by (simp add: PIPESIZE_def dvd_def exI [of _ "8388608"])
  show "pipe_get pi pi_nread (pipe_enq pi c s) = pipe_get pi pi_nread s"
    "pipe_get pi pi_nwrite (pipe_enq pi c s) = pipe_get pi pi_nwrite s + 1" for c and s :: "'a mach_scheme"
    by (simp_all add: pipe_enq_def Let_def pipe_get_put pipe_get_set pipe_offsets)
  show "mem (pipe_enq pi c s) (unat pi + pi_data + i) =
      (if i = unat (pipe_get pi pi_nwrite s) mod PIPESIZE then c else mem s (unat pi + pi_data + i))"
    if "i < PIPESIZE" for i c and s :: "'a mach_scheme"
    using that by (auto simp: pipe_enq_def Let_def pipe_put_def pipe_cell_set pipe_offsets)
  show "pipe_get pi pi_nread (pipe_deq pi s) = pipe_get pi pi_nread s + 1"
    "pipe_get pi pi_nwrite (pipe_deq pi s) = pipe_get pi pi_nwrite s" for s :: "'a mach_scheme"
    by (simp_all add: pipe_deq_def pipe_get_set pipe_offsets)
  show "mem (pipe_deq pi s) (unat pi + pi_data + i) = mem s (unat pi + pi_data + i)"
    if "i < PIPESIZE" for i and s :: "'a mach_scheme"
    using that by (simp add: pipe_deq_def pipe_cell_set pipe_offsets)
qed

text \<open>The bytes that were written to the pipe and not yet read.\<close>

definition pipe_contents :: "uint64 \<Rightarrow> 'z mach_scheme \<Rightarrow> uint8 list" where
  "pipe_contents pi s = map (\<lambda>k. mem s (unat pi + pi_data + (unat (pipe_get pi pi_nread s) + k) mod PIPESIZE))
     [0..<unat (pipe_get pi pi_nwrite s - pipe_get pi pi_nread s)]"

lemma pipe_contents_eq: "pipe_contents pi s = pipe.contents pi s"
  unfolding pipe_contents_def pipe.contents_def pipe.count_def ..

lemmas pipe_ring = pipe.contents_put pipe.contents_get pipe.empty_iff pipe.full_iff

lemma pipe_contents_enq:
  "length (pipe_contents pi s) < PIPESIZE \<Longrightarrow> pipe_contents pi (pipe_enq pi c s) = pipe_contents pi s @ [c]"
  by (simp add: pipe_contents_eq pipe.length_contents pipe.contents_put)

lemma pipe_contents_deq:
  "pipe_contents pi s = c # cs \<Longrightarrow> pipe_contents pi (pipe_deq pi s) = cs \<and> pipe_byte pi (pipe_get pi pi_nread s) s = c"
  using pipe.contents_get(1) [of pi s] by (simp add: pipe_contents_eq pipe_byte_def)

lemma pipe_full:
  "length (pipe_contents pi s) < PIPESIZE \<Longrightarrow> pipe_get pi pi_nwrite s \<noteq> pipe_get pi pi_nread s + of_nat PIPESIZE"
  using pipe.full_iff [of pi s] by (simp add: pipe_contents_eq pipe.length_contents)

lemma pipe_empty: "pipe_get pi pi_nread s = pipe_get pi pi_nwrite s \<longleftrightarrow> pipe_contents pi s = []"
  by (simp add: pipe_contents_eq pipe.empty_iff)

text \<open>Only the page of the pipe changes.\<close>

definition in_page :: "uint64 \<Rightarrow> nat \<Rightarrow> bool" where
  "in_page pg a \<longleftrightarrow> unat pg \<le> a \<and> a < unat pg + 4096"

lemma pipe_set_page: "f + 4 \<le> 4096 \<Longrightarrow> \<not> in_page pi a \<Longrightarrow> mem (pipe_set pi f v s) a = mem s a"
  by (auto simp: pipe_set_def stn_apply in_page_def)

lemma pipe_put_page: "\<not> in_page pi a \<Longrightarrow> mem (pipe_put pi i c s) a = mem s a"
proof -
  assume "\<not> in_page pi a"
  moreover have "unat i mod 512 < 512" by simp
  ultimately show ?thesis by (auto simp: pipe_put_def in_page_def pipe_offsets)
qed

lemma pipe_enq_page: "\<not> in_page pi a \<Longrightarrow> mem (pipe_enq pi c s) a = mem s a"
  by (simp add: pipe_enq_def Let_def pipe_put_page pipe_set_page pipe_offsets)

lemma pipe_deq_page: "\<not> in_page pi a \<Longrightarrow> mem (pipe_deq pi s) a = mem s a"
  by (simp add: pipe_deq_def pipe_set_page pipe_offsets)


section \<open>User memory apart from the pipe\<close>

text \<open>
  The bytes \<open>K\<close> of an address space are mapped on pages of the allocator, and neither these
  pages nor the tables are the page \<open>pg\<close>.
\<close>

definition user_apart :: "'z mach_scheme \<Rightarrow> uint64 \<Rightarrow> uint64 \<Rightarrow> nat set \<Rightarrow> bool" where
  "user_apart s r pg K \<longleftrightarrow> pt_wf s r \<and> page_ok s pg \<and> pg \<notin> tabs (mem s) r \<and>
     (\<forall>k \<in> K. umapped (mem s) r k \<and> page_ok s (PTE2PA (pte_of (mem s) r (of_nat k))) \<and>
        PTE2PA (pte_of (mem s) r (of_nat k)) \<noteq> pg)"

lemma user_apart_mono: "user_apart s r pg K \<Longrightarrow> L \<subseteq> K \<Longrightarrow> user_apart s r pg L"
  by (auto simp: user_apart_def)

lemma user_apartD:
  assumes "user_apart s r pg K" "k \<in> K"
  shows "pt_wf s r" "umapped (mem s) r k" "\<not> in_page pg (uaddr (mem s) r k)"
proof -
  show "pt_wf s r" "umapped (mem s) r k" using assms by (simp_all add: user_apart_def)
  let ?pa = "PTE2PA (pte_of (mem s) r (of_nat k))"
  have "?pa mod PGSIZE = 0" "pg mod PGSIZE = 0" "?pa \<noteq> pg"
    using assms unfolding user_apart_def page_ok_def by blast+
  from aligned_disjoint [OF this] have "unat ?pa + 4096 \<le> unat pg \<or> unat pg + 4096 \<le> unat ?pa" .
  moreover have "k mod 4096 < 4096" by simp
  ultimately show "\<not> in_page pg (uaddr (mem s) r k)"
    unfolding in_page_def uaddr_def by linarith
qed

lemma user_apart_frame:
  assumes ua: "user_apart s r pg K" and m': "\<And>a. \<not> in_page pg a \<Longrightarrow> m' a = mem s a"
  shows "pte_of m' r va = pte_of (mem s) r va" "user_apart (s\<lparr>mem := m'\<rparr>) r pg K"
    "k \<in> K \<Longrightarrow> ubyte m' r k = ubyte (mem s) r k" "tabs m' r = tabs (mem s) r" "pt_wf (s\<lparr>mem := m'\<rparr>) r"
proof -
  have e: "ent m' t i = ent (mem s) t i" if "t \<in> tabs (mem s) r" "i < 512" for t i
  proof (rule ent_frame)
    show "page_ok s t" using ua that by (auto simp: user_apart_def tabs_def dest: pt_wf_page)
    show "page_ok s pg" "t \<noteq> pg" using ua that by (auto simp: user_apart_def)
    show "m' a = mem s a" if "a < unat pg \<or> unat pg + 4096 \<le> a" for a
      using that by (intro m') (auto simp: in_page_def)
  qed (rule that(2))
  show p: "pte_of m' r va = pte_of (mem s) r va" for va using e by (rule space_frame)
  show t: "tabs m' r = tabs (mem s) r" using e by (rule space_frame)
  show w: "pt_wf (s\<lparr>mem := m'\<rparr>) r" using ua e by (intro pt_wf_frame) (auto simp: user_apart_def)
  show "user_apart (s\<lparr>mem := m'\<rparr>) r pg K" using ua p t w by (simp add: user_apart_def umapped_def)
  show "ubyte m' r k = ubyte (mem s) r k" if "k \<in> K"
    using user_apartD(3) [OF ua that] m' by (simp add: ubyte_def uaddr_def p)
qed

section \<open>Writing\<close>

lemma mem_upd: "pipe_enq pi c s = s\<lparr>mem := mem (pipe_enq pi c s)\<rparr>" "pipe_deq pi s = s\<lparr>mem := mem (pipe_deq pi s)\<rparr>"
  by (simp_all add: pipe_enq_def pipe_deq_def Let_def pipe_put_def pipe_set_def)

lemma pipe_get_enq: "f = pi_readopen \<or> f = pi_writeopen \<Longrightarrow> pipe_get pi f (pipe_enq pi c s) = pipe_get pi f s"
  by (auto simp: pipe_enq_def Let_def pipe_get_put pipe_get_set pipe_offsets)

lemma pipewrite_step:
  fixes s :: "'z kern_scheme"
  assumes "int i < n" "pipe_get pi pi_readopen s \<noteq> 0" "L_proc pr \<notin> set (held s)" "p_killed (procs s pr) = 0"
    and "length (pipe_contents pi s) < PIPESIZE"
    and ua: "user_apart s r pi K" "unat addr + i \<in> K" "unat addr + i < unat MAXVA"
    and r: "p_pagetable (procs s pr) = r"
  shows "pipewrite_loop sw pr pi addr n (int i) s =
    pipewrite_loop sw pr pi addr n (int i + 1) (pipe_enq pi (ubyte (mem s) r (unat addr + i)) s)"
proof -
  let ?va = "addr + word_of_nat i"
  have va: "unat ?va = unat addr + i"
    using ua(3) MAXVA_unat by (simp add: unat_word_ariths unat_of_nat)
  have "copyin r (\<lambda>_. 0) 0 ?va 1 s = Some (0, got (\<lambda>_. 0) 0 (mem s) r (unat ?va) (unat (1 :: uint64)), s)"
    by (rule copyin_mapped) (use user_apartD [OF ua(1,2)] ua(3) va in \<open>auto simp: le_less_Suc_eq\<close>)
  then have c: "copyin r (\<lambda>_. 0) 0 ?va 1 s = Some (0, got (\<lambda>_. 0) 0 (mem s) r (unat addr + i) 1, s)"
    unfolding va by simp
  have g: "got (\<lambda>_. 0) 0 (mem s) r (unat addr + i) (Suc 0) 0 = ubyte (mem s) r (unat addr + i)"
    by (simp add: got_def)
  show ?thesis
    by (subst pipewrite_loop.simps)
       (use assms(1-4) pipe_full [OF assms(5)] in \<open>simp add: killed_eq r c g pipe_enq_def Let_def\<close>)
qed

lemma pipewrite_loop_appends:
  fixes s :: "'z kern_scheme"
  assumes "i \<le> N" "pipe_get pi pi_readopen s \<noteq> 0" "L_proc pr \<notin> set (held s)" "p_killed (procs s pr) = 0"
    and "length (pipe_contents pi s) + (N - i) \<le> PIPESIZE"
    and "user_apart s r pi {unat addr..<unat addr + N}" "unat addr + N \<le> unat MAXVA"
    and "p_pagetable (procs s pr) = r"
  shows "\<exists>m'. pipewrite_loop sw pr pi addr (int N) (int i) s = Some (Inr (int N), s\<lparr>mem := m'\<rparr>) \<and>
    pipe_contents pi (s\<lparr>mem := m'\<rparr>) =
      pipe_contents pi s @ map (\<lambda>j. ubyte (mem s) r (unat addr + j)) [i..<N] \<and>
    (\<forall>a. \<not> in_page pi a \<longrightarrow> m' a = mem s a)"
  using assms
proof (induction "N - i" arbitrary: i s)
  case 0
  then have "i = N" by simp
  moreover have "pipewrite_loop sw pr pi addr (int N) (int N) s = Some (Inr (int N), s\<lparr>mem := mem s\<rparr>)"
    by (subst pipewrite_loop.simps) simp
  ultimately show ?case by (intro exI [of _ "mem s"]) simp
next
  case (Suc k)
  let ?c = "ubyte (mem s) r (unat addr + i)"
  let ?s = "pipe_enq pi ?c s"
  note mem_s = mem_upd(1) [of pi ?c s]
  have lt: "i < N" using Suc.hyps(2) by simp
  have len: "length (pipe_contents pi s) < PIPESIZE" using Suc.prems(5) Suc.hyps(2) by linarith
  have step: "pipewrite_loop sw pr pi addr (int N) (int i) s = pipewrite_loop sw pr pi addr (int N) (int (Suc i)) ?s"
    by (subst pipewrite_step [where r = r and K = "{unat addr..<unat addr + N}"])
       (use lt Suc.prems len in \<open>simp_all add: add.commute\<close>)
  have pg: "mem ?s a = mem s a" if "\<not> in_page pi a" for a using that by (rule pipe_enq_page)
  note frame = user_apart_frame [OF Suc.prems(6) pg]
  have c: "pipe_contents pi ?s = pipe_contents pi s @ [?c]" using len by (rule pipe_contents_enq)
  have "\<exists>m'. pipewrite_loop sw pr pi addr (int N) (int (Suc i)) ?s = Some (Inr (int N), ?s\<lparr>mem := m'\<rparr>) \<and>
    pipe_contents pi (?s\<lparr>mem := m'\<rparr>) =
      pipe_contents pi ?s @ map (\<lambda>j. ubyte (mem ?s) r (unat addr + j)) [Suc i..<N] \<and>
    (\<forall>a. \<not> in_page pi a \<longrightarrow> m' a = mem ?s a)"
  proof (rule Suc.hyps(1))
    show "k = N - Suc i" "Suc i \<le> N" using Suc.hyps(2) by simp_all
    show "pipe_get pi pi_readopen ?s \<noteq> 0" using Suc.prems(2) by (simp add: pipe_get_enq)
    show "L_proc pr \<notin> set (held ?s)" "p_killed (procs ?s pr) = 0" "p_pagetable (procs ?s pr) = r"
      by (subst mem_s, use Suc.prems in simp)+
    show "length (pipe_contents pi ?s) + (N - Suc i) \<le> PIPESIZE" using c Suc.prems(5) lt by simp
    show "user_apart ?s r pi {unat addr..<unat addr + N}" using frame(2) mem_s by metis
  qed (use Suc.prems in auto)
  then obtain m' where m': "pipewrite_loop sw pr pi addr (int N) (int (Suc i)) ?s = Some (Inr (int N), ?s\<lparr>mem := m'\<rparr>)"
    "pipe_contents pi (?s\<lparr>mem := m'\<rparr>) =
      pipe_contents pi ?s @ map (\<lambda>j. ubyte (mem ?s) r (unat addr + j)) [Suc i..<N]"
    "\<forall>a. \<not> in_page pi a \<longrightarrow> m' a = mem ?s a"
    by blast
  have e: "?s\<lparr>mem := m'\<rparr> = s\<lparr>mem := m'\<rparr>" by (subst mem_s) simp
  have "map (\<lambda>j. ubyte (mem ?s) r (unat addr + j)) [Suc i..<N] = map (\<lambda>j. ubyte (mem s) r (unat addr + j)) [Suc i..<N]"
    using frame(3) by simp
  moreover have "[i..<N] = i # [Suc i..<N]" using lt by (rule upt_conv_Cons)
  ultimately show ?case
    using m' unfolding step e c by (intro exI [of _ m']) (simp add: pg)
qed

text \<open>
  C12: \<open>pipewrite\<close> of \<open>N\<close> bytes that fit, from mapped user memory, returns \<open>N\<close>: the bytes are
  appended to the contents of the pipe in order, whatever the values of the wrapping indices,
  no byte outside the page of the pipe changes, and every process that waits for data on the
  pipe is made runnable.
\<close>

theorem pipewrite_appends:
  fixes s :: "'z kern_scheme"
  assumes "myproc s = Some pr" "held s = []" "p_killed (procs s pr) = 0" "p_pagetable (procs s pr) = r"
    and "pipe_get pi pi_readopen s \<noteq> 0" "length (pipe_contents pi s) + N \<le> PIPESIZE"
    and "user_apart s r pi {unat addr..<unat addr + N}" "unat addr + N \<le> unat MAXVA"
  shows "\<exists>t. pipewrite sw pi addr (int N) s = Some (int N, t) \<and> held t = [] \<and>
    pipe_contents pi t = pipe_contents pi s @ map (\<lambda>j. ubyte (mem s) r (unat addr + j)) [0..<N] \<and>
    (\<forall>a. \<not> in_page pi a \<longrightarrow> mem t a = mem s a) \<and>
    (\<forall>p < NPROC. p \<noteq> pr \<and> pstate s p = SLEEPING \<and> p_chan (procs s p) = Some (C_nread pi) \<longrightarrow>
       pstate t p = RUNNABLE)"
proof -
  let ?s = "s\<lparr>held := [L_pipe pi]\<rparr>"
  have c: "pipe_contents pi ?s = pipe_contents pi s" "pipe_get pi pi_readopen ?s = pipe_get pi pi_readopen s"
    "user_apart ?s r pi {unat addr..<unat addr + N}"
    using assms(7) by (simp_all add: pipe_contents_def pipe_get_def user_apart_def pt_wf_def)
  obtain m' where m': "pipewrite_loop sw pr pi addr (int N) (int 0) ?s = Some (Inr (int N), ?s\<lparr>mem := m'\<rparr>)"
      "pipe_contents pi (?s\<lparr>mem := m'\<rparr>) = pipe_contents pi ?s @ map (\<lambda>j. ubyte (mem ?s) r (unat addr + j)) [0..<N]"
      "\<forall>a. \<not> in_page pi a \<longrightarrow> m' a = mem ?s a"
    using pipewrite_loop_appends [of 0 N pi ?s pr r addr sw] assms c by auto
  let ?ps = "\<lambda>p. if p < NPROC then woken (Some (C_nread pi)) (Some pr) p (procs s p) else procs s p"
  let ?t = "s\<lparr>mem := m', procs := ?ps\<rparr>"
  have "others_free (?s\<lparr>mem := m'\<rparr>)" by (simp add: others_free_def)
  then have w: "wakeup (Some (C_nread pi)) (?s\<lparr>mem := m'\<rparr>) = Some (?s\<lparr>mem := m', procs := ?ps\<rparr>)"
    using assms(1) by (simp add: wakeup_eq cong: if_cong)
  have "pipewrite sw pi addr (int N) s = Some (int N, ?t)"
    using assms(1,2) m'(1) w by (simp add: pipewrite_def kernel_simps)
  moreover have "pipe_contents pi ?t = pipe_contents pi s @ map (\<lambda>j. ubyte (mem s) r (unat addr + j)) [0..<N]"
    using m'(2) c(1) by (simp add: pipe_contents_def pipe_get_def)
  ultimately show ?thesis
    using m'(3) assms(2) by (intro exI [of _ ?t]) (auto simp: woken_def)
qed

section \<open>Reading\<close>

lemma writable_frame:
  assumes w: "writable s r K" and ua: "user_apart s r pg K" and m': "\<And>a. \<not> in_page pg a \<Longrightarrow> m' a = mem s a"
  shows "writable (s\<lparr>mem := m'\<rparr>) r K"
proof -
  note f = user_apart_frame [OF ua m']
  have "uaddr m' r = uaddr (mem s) r" by (simp add: uaddr_def f fun_eq_iff)
  then show ?thesis using w f(4,5) unfolding writable_def umapped_def by (simp add: f(1))
qed

text \<open>
  One byte copied to the user: neither the pipe nor any other byte changes.
\<close>

lemma copyout_byte:
  fixes s :: "'z kern_scheme"
  assumes w: "writable s r K" and ua: "user_apart s r pi K" and k: "unat addr + i \<in> K" "unat addr + i < unat MAXVA"
  obtains m' where "copyout r (addr + word_of_nat i) (\<lambda>_. ch) 0 1 s = Some (0, s\<lparr>mem := m'\<rparr>)"
    "ubyte m' r (unat addr + i) = ch" "\<forall>a. a \<noteq> uaddr (mem s) r (unat addr + i) \<longrightarrow> m' a = mem s a"
    "\<forall>va. pte_of m' r va = pte_of (mem s) r va" "writable (s\<lparr>mem := m'\<rparr>) r K" "user_apart (s\<lparr>mem := m'\<rparr>) r pi K"
proof -
  let ?va = "addr + word_of_nat i :: uint64"
  have va: "unat ?va = unat addr + i"
    using k(2) MAXVA_unat by (simp add: unat_word_ariths unat_of_nat)
  have "writable s r {unat ?va..<unat ?va + unat (1 :: uint64)}"
    by (rule writable_mono [OF w]) (use k va in \<open>auto simp: le_less_Suc_eq\<close>)
  from copyout_mapped [OF this, of "\<lambda>_. ch" 0] obtain m' where
    m': "copyout r ?va (\<lambda>_. ch) 0 1 s = Some (0, s\<lparr>mem := m'\<rparr>)"
      "copied (mem s) m' r (unat addr + i) (\<lambda>_. ch) 0 1"
    using k(2) va by auto
  have b: "ubyte m' r (unat addr + i) = ch" and o': "\<And>a. a \<noteq> uaddr (mem s) r (unat addr + i) \<Longrightarrow> m' a = mem s a"
    and p: "\<And>va. pte_of m' r va = pte_of (mem s) r va"
    using m'(2) by (auto simp: copied_def)
  let ?pa = "PTE2PA (pte_of (mem s) r (of_nat (unat addr + i)))"
  have pa: "page_ok s ?pa" "?pa \<notin> tabs (mem s) r" using w k(1) unfolding writable_def by blast+
  have out: "a = uaddr (mem s) r (unat addr + i) \<Longrightarrow> unat ?pa \<le> a \<and> a < unat ?pa + 4096" for a
    by (simp add: uaddr_def)
  have e: "ent m' t j = ent (mem s) t j" if "t \<in> tabs (mem s) r" "j < 512" for t j
  proof (rule ent_frame [where u = ?pa])
    show "page_ok s t" using ua that by (auto simp: user_apart_def tabs_def dest: pt_wf_page)
    show "m' a = mem s a" if "a < unat ?pa \<or> unat ?pa + 4096 \<le> a" for a
      using that out by (intro o') auto
  qed (use pa that in auto)
  have t: "tabs m' r = tabs (mem s) r" using e by (rule space_frame)
  have wf: "pt_wf (s\<lparr>mem := m'\<rparr>) r" using ua e by (intro pt_wf_frame) (auto simp: user_apart_def)
  have "uaddr m' r = uaddr (mem s) r" by (simp add: uaddr_def p fun_eq_iff)
  then have "writable (s\<lparr>mem := m'\<rparr>) r K" using w t wf unfolding writable_def umapped_def by (simp add: p)
  moreover have "user_apart (s\<lparr>mem := m'\<rparr>) r pi K" using ua t wf p by (simp add: user_apart_def umapped_def)
  ultimately show ?thesis using that m'(1) b o' p by blast
qed

lemma pipe_same:
  assumes "\<And>a. in_page pi a \<Longrightarrow> m' a = mem s a"
  shows "f + 4 \<le> 4096 \<Longrightarrow> pipe_get pi f (s\<lparr>mem := m'\<rparr>) = pipe_get pi f s"
    "pipe_contents pi (s\<lparr>mem := m'\<rparr>) = pipe_contents pi s"
proof -
  show g: "pipe_get pi f (s\<lparr>mem := m'\<rparr>) = pipe_get pi f s" if "f + 4 \<le> 4096" for f
    unfolding pipe_get_def using that by (intro ldn_cong) (auto intro!: assms simp: in_page_def)
  have "m' (unat pi + pi_data + k mod PIPESIZE) = mem s (unat pi + pi_data + k mod PIPESIZE)" for k
  proof (rule assms)
    have "k mod 512 < 512" by simp
    then show "in_page pi (unat pi + pi_data + k mod PIPESIZE)"
      unfolding in_page_def pipe_offsets by linarith
  qed
  then show "pipe_contents pi (s\<lparr>mem := m'\<rparr>) = pipe_contents pi s"
    by (simp add: pipe_contents_def g pipe_offsets(2,3))
qed

lemma piperead_step:
  fixes s :: "'z kern_scheme"
  assumes w: "writable s r K" and ua: "user_apart s r pi K" and k: "unat addr + i \<in> K" "unat addr + i < unat MAXVA"
    and r: "p_pagetable (procs s pr) = r" and cs: "pipe_contents pi s = c # cs"
  obtains m' where
    "piperead_loop pr pi addr (int i) (Suc n) s = piperead_loop pr pi addr (int (Suc i)) n (s\<lparr>mem := m'\<rparr>)"
    "ubyte m' r (unat addr + i) = c" "pipe_contents pi (s\<lparr>mem := m'\<rparr>) = cs"
    "\<forall>a. \<not> in_page pi a \<and> a \<noteq> uaddr (mem s) r (unat addr + i) \<longrightarrow> m' a = mem s a"
    "\<forall>va. pte_of m' r va = pte_of (mem s) r va" "writable (s\<lparr>mem := m'\<rparr>) r K" "user_apart (s\<lparr>mem := m'\<rparr>) r pi K"
proof -
  obtain m1 where m1: "copyout r (addr + word_of_nat i) (\<lambda>_. c) 0 1 s = Some (0, s\<lparr>mem := m1\<rparr>)"
    "ubyte m1 r (unat addr + i) = c" "\<forall>a. a \<noteq> uaddr (mem s) r (unat addr + i) \<longrightarrow> m1 a = mem s a"
    "\<forall>va. pte_of m1 r va = pte_of (mem s) r va" "writable (s\<lparr>mem := m1\<rparr>) r K" "user_apart (s\<lparr>mem := m1\<rparr>) r pi K"
    by (rule copyout_byte [OF w ua k, where ch = c])
  let ?s1 = "s\<lparr>mem := m1\<rparr>"
  have "m1 a = mem s a" if "in_page pi a" for a
    using user_apartD(3) [OF ua k(1)] that m1(3) by metis
  note same = pipe_same [OF this]
  let ?s2 = "pipe_deq pi ?s1"
  let ?m = "mem ?s2"
  have s2: "?s2 = s\<lparr>mem := ?m\<rparr>" using mem_upd(2) [of pi ?s1] by simp
  have pg: "?m a = mem ?s1 a" if "\<not> in_page pi a" for a using that by (rule pipe_deq_page)
  note f = user_apart_frame [OF m1(6) pg]
  have c1: "pipe_contents pi ?s1 = c # cs" using cs same(2) by simp
  have "pipe_contents pi s \<noteq> []" and byte: "pipe_byte pi (pipe_get pi pi_nread s) s = c"
    using cs pipe_contents_deq by auto
  then have ne: "pipe_get pi pi_nread s \<noteq> pipe_get pi pi_nwrite s" using pipe_empty by blast
  have g: "pipe_get pi pi_nread ?s1 = pipe_get pi pi_nread s" using same(1) by (simp add: pipe_offsets)
  have "piperead_loop pr pi addr (int i) (Suc n) s = piperead_loop pr pi addr (int (Suc i)) n ?s2"
    using m1(1) r ne by (simp add: byte pipe_deq_def g add.commute)
  moreover have "ubyte ?m r (unat addr + i) = c" using f(3) k(1) m1(2) by simp
  moreover have "pipe_contents pi ?s2 = cs" using pipe_contents_deq [OF c1] by simp
  moreover have "\<forall>a. \<not> in_page pi a \<and> a \<noteq> uaddr (mem s) r (unat addr + i) \<longrightarrow> ?m a = mem s a"
    using pg m1(3) by simp
  moreover have "\<forall>va. pte_of ?m r va = pte_of (mem s) r va" using f(1) m1(4) by simp
  moreover have "writable ?s2 r K" using writable_frame [OF m1(5,6) pg] s2 by simp
  moreover have "user_apart ?s2 r pi K" using f(2) s2 by simp
  ultimately show ?thesis using s2 by (intro that [of ?m]) simp_all
qed

lemma piperead_loop_takes:
  fixes s :: "'z kern_scheme"
  assumes "writable s r {unat addr..<unat addr + N}" "user_apart s r pi {unat addr..<unat addr + N}"
    and "i + k \<le> N" "unat addr + N \<le> unat MAXVA" "p_pagetable (procs s pr) = r"
  shows "\<exists>m'. piperead_loop pr pi addr (int i) k s =
      Some (int (i + min k (length (pipe_contents pi s))), s\<lparr>mem := m'\<rparr>) \<and>
    pipe_contents pi (s\<lparr>mem := m'\<rparr>) = drop k (pipe_contents pi s) \<and>
    (\<forall>l < min k (length (pipe_contents pi s)). ubyte m' r (unat addr + i + l) = pipe_contents pi s ! l) \<and>
    (\<forall>a. \<not> in_page pi a \<and> a \<notin> uaddr (mem s) r ` {unat addr + i..<unat addr + i + k} \<longrightarrow> m' a = mem s a) \<and>
    (\<forall>va. pte_of m' r va = pte_of (mem s) r va)"
  using assms
proof (induction k arbitrary: i s)
  case 0
  then show ?case by (intro exI [of _ "mem s"]) simp
next
  case (Suc k)
  show ?case
  proof (cases "pipe_contents pi s")
    case Nil
    then have "pipe_get pi pi_nread s = pipe_get pi pi_nwrite s" by (simp add: pipe_empty)
    then show ?thesis using Nil by (intro exI [of _ "mem s"]) simp
  next
    case (Cons c cs)
    have k: "unat addr + i \<in> {unat addr..<unat addr + N}" "unat addr + i < unat MAXVA"
      using Suc.prems(3,4) by auto
    obtain m1 where m1:
      "piperead_loop pr pi addr (int i) (Suc k) s = piperead_loop pr pi addr (int (Suc i)) k (s\<lparr>mem := m1\<rparr>)"
      "ubyte m1 r (unat addr + i) = c" "pipe_contents pi (s\<lparr>mem := m1\<rparr>) = cs"
      "\<forall>a. \<not> in_page pi a \<and> a \<noteq> uaddr (mem s) r (unat addr + i) \<longrightarrow> m1 a = mem s a"
      "\<forall>va. pte_of m1 r va = pte_of (mem s) r va"
      "writable (s\<lparr>mem := m1\<rparr>) r {unat addr..<unat addr + N}"
      "user_apart (s\<lparr>mem := m1\<rparr>) r pi {unat addr..<unat addr + N}"
      by (rule piperead_step [OF Suc.prems(1,2) k Suc.prems(5) Cons, where n = k])
    have ua: "uaddr m1 r = uaddr (mem s) r" by (simp add: uaddr_def m1(5) fun_eq_iff)
    obtain m' where m': "piperead_loop pr pi addr (int (Suc i)) k (s\<lparr>mem := m1\<rparr>) =
        Some (int (Suc i + min k (length cs)), s\<lparr>mem := m'\<rparr>)"
      "pipe_contents pi (s\<lparr>mem := m'\<rparr>) = drop k cs"
      "\<forall>l < min k (length cs). ubyte m' r (unat addr + Suc i + l) = cs ! l"
      "\<forall>a. \<not> in_page pi a \<and> a \<notin> uaddr (mem s) r ` {unat addr + Suc i..<unat addr + Suc i + k} \<longrightarrow> m' a = m1 a"
      "\<forall>va. pte_of m' r va = pte_of m1 r va"
      using Suc.IH [of "s\<lparr>mem := m1\<rparr>" "Suc i"] m1(3,6,7) Suc.prems(3-5) ua by auto
    have "inj_on (uaddr (mem s) r) {unat addr..<unat addr + N}"
      using Suc.prems(1) by (simp add: writable_def)
    then have "uaddr (mem s) r (unat addr + i) \<notin> uaddr (mem s) r ` {unat addr + Suc i..<unat addr + Suc i + k}"
      using Suc.prems(3) k(1) by (auto dest: inj_onD)
    then have "m' (uaddr (mem s) r (unat addr + i)) = m1 (uaddr (mem s) r (unat addr + i))"
      using m'(4) user_apartD(3) [OF Suc.prems(2) k(1)] by blast
    then have first: "ubyte m' r (unat addr + i) = c"
      using m1(2) m'(5) m1(5) by (simp add: ubyte_def uaddr_def)
    have bytes: "ubyte m' r (unat addr + i + l) = (c # cs) ! l" if "l < min (Suc k) (length (c # cs))" for l
      using that first m'(3) by (cases l) auto
    have frame: "m' a = mem s a"
      if "\<not> in_page pi a" "a \<notin> uaddr (mem s) r ` {unat addr + i..<unat addr + i + Suc k}" for a
    proof -
      have "a \<notin> uaddr (mem s) r ` {unat addr + Suc i..<unat addr + Suc i + k}" "a \<noteq> uaddr (mem s) r (unat addr + i)"
        using that(2) by auto
      then show ?thesis using that(1) m'(4) m1(4) by metis
    qed
    show ?thesis
      unfolding Cons
      by (intro exI [of _ m']) (use m1(1,5) m'(1,2,5) bytes frame in auto)
  qed
qed

text \<open>
  C13: \<open>piperead\<close> of up to \<open>N\<close> bytes into writable user memory, from a pipe that has data or whose
  write end is closed, returns the number of bytes that were available, at most \<open>N\<close>: user memory
  receives exactly these bytes, oldest first, the rest stay in the pipe in order, no other byte
  outside the page of the pipe changes, and every process that waits for room is made runnable.
\<close>

theorem piperead_takes:
  fixes s :: "'z kern_scheme"
  assumes "myproc s = Some pr" "held s = []" "p_pagetable (procs s pr) = r"
    and "pipe_contents pi s \<noteq> [] \<or> pipe_get pi pi_writeopen s = 0"
    and "writable s r {unat addr..<unat addr + N}" "user_apart s r pi {unat addr..<unat addr + N}"
    and "unat addr + N \<le> unat MAXVA"
  shows "\<exists>t. let k = min N (length (pipe_contents pi s)) in
    piperead sw pi addr (int N) s = Some (int k, t) \<and> held t = [] \<and>
    (\<forall>j < k. ubyte (mem t) r (unat addr + j) = pipe_contents pi s ! j) \<and>
    pipe_contents pi t = drop N (pipe_contents pi s) \<and>
    (\<forall>a. \<not> in_page pi a \<and> a \<notin> uaddr (mem s) r ` {unat addr..<unat addr + N} \<longrightarrow> mem t a = mem s a) \<and>
    (\<forall>p < NPROC. p \<noteq> pr \<and> pstate s p = SLEEPING \<and> p_chan (procs s p) = Some (C_nwrite pi) \<longrightarrow>
       pstate t p = RUNNABLE)"
proof -
  let ?s = "s\<lparr>held := [L_pipe pi]\<rparr>"
  have c: "pipe_contents pi ?s = pipe_contents pi s" "pipe_get pi f ?s = pipe_get pi f s"
    "user_apart ?s r pi {unat addr..<unat addr + N}" "writable ?s r {unat addr..<unat addr + N}" for f
    using assms(5,6) by (simp_all add: pipe_contents_def pipe_get_def user_apart_def pt_wf_def writable_def)
  obtain m' where m': "piperead_loop pr pi addr (int 0) N ?s =
        Some (int (0 + min N (length (pipe_contents pi ?s))), ?s\<lparr>mem := m'\<rparr>)"
      "pipe_contents pi (?s\<lparr>mem := m'\<rparr>) = drop N (pipe_contents pi ?s)"
      "\<forall>l < min N (length (pipe_contents pi ?s)). ubyte m' r (unat addr + 0 + l) = pipe_contents pi ?s ! l"
      "\<forall>a. \<not> in_page pi a \<and> a \<notin> uaddr (mem ?s) r ` {unat addr + 0..<unat addr + 0 + N} \<longrightarrow> m' a = mem ?s a"
    using piperead_loop_takes [OF c(4,3), of 0 N pr] assms(3,7) by auto
  let ?ps = "\<lambda>p. if p < NPROC then woken (Some (C_nwrite pi)) (Some pr) p (procs s p) else procs s p"
  let ?t = "s\<lparr>mem := m', procs := ?ps\<rparr>"
  have "others_free (?s\<lparr>mem := m'\<rparr>)" by (simp add: others_free_def)
  then have w: "wakeup (Some (C_nwrite pi)) (?s\<lparr>mem := m'\<rparr>) = Some (?s\<lparr>mem := m', procs := ?ps\<rparr>)"
    using assms(1) by (simp add: wakeup_eq cong: if_cong)
  have "piperead_wait sw pr pi ?s = Some (False, ?s)"
    using assms(4) pipe_empty [of pi ?s] c by (subst piperead_wait.simps) auto
  then have "piperead sw pi addr (int N) s = Some (int (min N (length (pipe_contents pi s))), ?t)"
    using assms(1,2) m'(1) w c(1) by (simp add: piperead_def kernel_simps)
  moreover have "pipe_contents pi ?t = drop N (pipe_contents pi s)"
    using m'(2) c(1) by (simp add: pipe_contents_def pipe_get_def)
  ultimately show ?thesis
    unfolding Let_def using m'(3,4) c(1) assms(2) by (intro exI [of _ ?t]) (auto simp: woken_def)
qed

section \<open>Examples\<close>

text \<open>A pipe at \<open>0x87ffb000\<close> with two bytes in it and process 0 as the caller.\<close>

definition pipe_ex :: kern where
  "pipe_ex = (space_ex 0x21FFFC17)\<lparr>mem := (st32 (st32 (mem (space_ex 0x21FFFC17)) (0x87ffb000 + 540) 2)
       (0x87ffb000 + 544) 1)(0x87ffb000 + 24 := 7, 0x87ffb000 + 25 := 8),
     cpu_proc := (\<lambda>_. Some 0), procs := (\<lambda>_. proc0\<lparr>p_pagetable := 0x87ffc000\<rparr>)\<rparr>"

lemma pipe_ex_fields [simp]:
  "myproc pipe_ex = Some 0" "held pipe_ex = []" "p_killed (procs pipe_ex 0) = 0"
  "p_pagetable (procs pipe_ex 0) = 0x87ffc000"
  by (simp_all add: pipe_ex_def space_ex_def myproc_def cpuid_def)

lemma pipe_ex_get:
  "pipe_get 0x87ffb000 pi_nread pipe_ex = 0" "pipe_get 0x87ffb000 pi_nwrite pipe_ex = 2"
  "pipe_get 0x87ffb000 pi_readopen pipe_ex = 1"
  by (simp_all add: pipe_get_def pipe_offsets pipe_ex_def space_ex_def ldn_upd_disjoint ldn_stn_same
      ldn_stn_disjoint ldn_zero)

lemma pipe_ex_contents: "pipe_contents 0x87ffb000 pipe_ex = [7, 8]"
proof -
  have "[0..<2] = [0::nat, 1]" by (simp add: upt_rec)
  then show ?thesis unfolding pipe_contents_def pipe_ex_get by (simp add: pipe_ex_def pipe_offsets)
qed

lemma writable_cpu: "writable (s\<lparr>cpu_proc := c, procs := ps\<rparr>) r K = writable s r K"
  by (simp add: writable_def pt_wf_def page_ok_def)

lemma user_apart_cpu: "user_apart (s\<lparr>cpu_proc := c, procs := ps\<rparr>) r pg K = user_apart s r pg K"
  by (simp add: user_apart_def pt_wf_def page_ok_def)

lemma pipe_ex_apart:
  assumes "K \<subseteq> {..<4096}"
  shows "user_apart pipe_ex 0x87ffc000 0x87ffb000 K" "writable pipe_ex 0x87ffc000 K"
proof -
  let ?s = "space_ex 0x21FFFC17"
  have pa: "PTE2PA 0x21FFFC17 = 0x87fff000" by (simp add: PTE2PA_def)
  have ua: "user_apart ?s 0x87ffc000 0x87ffb000 K"
    using assms by (auto simp: user_apart_def space_ex_wf space_ex_page space_ex_tabs space_ex_pte pa
        intro!: space_ex_umapped)
  have m: "mem pipe_ex a = mem ?s a" if "\<not> in_page 0x87ffb000 a" for a
  proof -
    have "a < 2281680896 \<or> 2281684992 \<le> a" using that by (simp add: in_page_def) linarith
    then have "\<not> (2281681436 \<le> a \<and> a < 2281681436 + 4)" "\<not> (2281681440 \<le> a \<and> a < 2281681440 + 4)"
      "a \<noteq> 2281680920" "a \<noteq> 2281680921" by linarith+
    then show ?thesis by (auto simp: pipe_ex_def stn_apply)
  qed
  have e: "pipe_ex = (?s\<lparr>mem := mem pipe_ex\<rparr>)\<lparr>cpu_proc := (\<lambda>_. Some 0), procs := (\<lambda>_. proc0\<lparr>p_pagetable := 0x87ffc000\<rparr>)\<rparr>"
    by (simp add: pipe_ex_def)
  have "user_apart (?s\<lparr>mem := mem pipe_ex\<rparr>) 0x87ffc000 0x87ffb000 K"
    by (rule user_apart_frame(2) [OF ua m])
  then show "user_apart pipe_ex 0x87ffc000 0x87ffb000 K"
    using e by (metis user_apart_cpu)
  have "writable (?s\<lparr>mem := mem pipe_ex\<rparr>) 0x87ffc000 K"
    by (rule writable_frame [OF space_ex_writable [OF assms] ua m])
  then show "writable pipe_ex 0x87ffc000 K"
    using e by (metis writable_cpu)
qed

theorem pipewrite_appends_witness:
  "\<exists>t. pipewrite (\<lambda>_. None) 0x87ffb000 16 (int 3) pipe_ex = Some (int 3, t) \<and>
     take 2 (pipe_contents 0x87ffb000 t) = [7, 8] \<and> length (pipe_contents 0x87ffb000 t) = 5"
proof -
  have "{unat (16 :: uint64)..<unat (16 :: uint64) + 3} \<subseteq> {..<4096}" by auto
  from pipewrite_appends [of pipe_ex 0 "0x87ffc000" "0x87ffb000" 3 16 "\<lambda>_. None", OF _ _ _ _ _ _ pipe_ex_apart(1) [OF this]]
  show ?thesis by (auto simp: pipe_ex_get pipe_ex_contents PIPESIZE_def MAXVA_unat)
qed

theorem piperead_takes_witness:
  "\<exists>t. piperead (\<lambda>_. None) 0x87ffb000 16 (int 5) pipe_ex = Some (2, t) \<and>
     ubyte (mem t) 0x87ffc000 (16 + 1) = 8 \<and> pipe_contents 0x87ffb000 t = []"
proof -
  have "{unat (16 :: uint64)..<unat (16 :: uint64) + 5} \<subseteq> {..<4096}" by auto
  note a = pipe_ex_apart [OF this]
  obtain t where "let k = min 5 (length (pipe_contents 0x87ffb000 pipe_ex)) in
    piperead (\<lambda>_. None) 0x87ffb000 16 (int 5) pipe_ex = Some (int k, t) \<and>
    (\<forall>j < k. ubyte (mem t) 0x87ffc000 (unat (16 :: uint64) + j) = pipe_contents 0x87ffb000 pipe_ex ! j) \<and>
    pipe_contents 0x87ffb000 t = drop 5 (pipe_contents 0x87ffb000 pipe_ex)"
    using piperead_takes [of pipe_ex 0 "0x87ffc000" "0x87ffb000" 16 5 "\<lambda>_. None", OF _ _ _ _ a(2,1)]
    unfolding Let_def by (auto simp: pipe_ex_contents MAXVA_unat)
  then show ?thesis by (intro exI [of _ t]) (auto simp: pipe_ex_contents Let_def dest: spec [of _ 1])
qed

end
