(* ===== verification/File.thy ===== *)
theory File
  imports Console Pipe
begin

text \<open>
  Open files, \<^verbatim>\<open>kernel/file.c\<close>, and \<open>pipealloc\<close> of \<^verbatim>\<open>kernel/pipe.c\<close>. A \<open>struct file *\<close> is an index
  into \<open>ftable\<close>. The only functions stored in \<open>devsw\<close> are those of the console, so an entry is
  whether it is set.
\<close>

section \<open>Data\<close>

datatype ftype = FD_NONE | FD_PIPE | FD_INODE | FD_DEVICE

record kfile =
  f_type :: ftype
  f_ref :: int
  f_readable :: bool
  f_writable :: bool
  f_pipe :: uint64
  f_ip :: "nat option"
  f_off :: uint32
  f_major :: "16 word"

record files = con +
  ftable :: "nat \<Rightarrow> kfile"

type_synonym 'z fw = "'z files_scheme \<Rightarrow> 'z files_scheme option"

definition upd_file :: "nat \<Rightarrow> (kfile \<Rightarrow> kfile) \<Rightarrow> 'z files_scheme \<Rightarrow> 'z files_scheme" where
  "upd_file f g s = s\<lparr>ftable := (ftable s)(f := g (ftable s f))\<rparr>"

section \<open>Operations\<close>

definition filealloc :: "'z files_scheme \<Rightarrow> (nat option \<times> 'z files_scheme) option" where
  "filealloc s =
     do { s \<leftarrow> acquire L_ftable s;
          case find (\<lambda>f. f_ref (ftable s f) = 0) [0..<NFILE] of
            Some f \<Rightarrow> do { let s = upd_file f (\<lambda>x. x\<lparr>f_ref := 1\<rparr>) s;
                           s \<leftarrow> release L_ftable s;
                           Some (Some f, s) }
          | None \<Rightarrow> do { s \<leftarrow> release L_ftable s; Some (None, s) } }"

definition filedup :: "nat \<Rightarrow> 'z files_scheme \<Rightarrow> (nat \<times> 'z files_scheme) option" where
  "filedup f s =
     do { s \<leftarrow> acquire L_ftable s;
          if f_ref (ftable s f) < 1 then None
          else do {
            let s = upd_file f (\<lambda>x. x\<lparr>f_ref := f_ref x + 1\<rparr>) s;
            s \<leftarrow> release L_ftable s;
            Some (f, s) } }"

definition fileclose :: "'z fw \<Rightarrow> nat \<Rightarrow> 'z files_scheme \<Rightarrow> 'z files_scheme option" where
  "fileclose sw f s =
     do { s \<leftarrow> acquire L_ftable s;
          if f_ref (ftable s f) < 1 then None
          else do {
            let s = upd_file f (\<lambda>x. x\<lparr>f_ref := f_ref x - 1\<rparr>) s;
            if f_ref (ftable s f) > 0 then release L_ftable s
            else do {
              let ff = ftable s f;
              let s = upd_file f (\<lambda>x. x\<lparr>f_ref := 0, f_type := FD_NONE\<rparr>) s;
              s \<leftarrow> release L_ftable s;
              case f_type ff of
                FD_PIPE \<Rightarrow> pipeclose (f_pipe ff) (f_writable ff) s
              | FD_NONE \<Rightarrow> Some s
              | _ \<Rightarrow> do { s \<leftarrow> begin_op sw s;
                         ip \<leftarrow> f_ip ff;
                         s \<leftarrow> iput sw ip s;
                         end_op sw s } } } }"

definition pipealloc :: "'z fw \<Rightarrow> 'z files_scheme \<Rightarrow> ((nat \<times> nat) option \<times> 'z files_scheme) option" where
  "pipealloc sw s =
     do { (f0, s) \<leftarrow> filealloc s;
          case f0 of
            None \<Rightarrow> Some (None, s)
          | Some f0 \<Rightarrow>
              do { (f1, s) \<leftarrow> filealloc s;
                   case f1 of
                     None \<Rightarrow> do { s \<leftarrow> fileclose sw f0 s; Some (None, s) }
                   | Some f1 \<Rightarrow>
                       do { (pi, s) \<leftarrow> kalloc s;
                            if pi = 0 then
                              do { s \<leftarrow> fileclose sw f0 s;
                                   s \<leftarrow> fileclose sw f1 s;
                                   Some (None, s) }
                            else do {
                              let s = pipe_init pi s;
                              let s = upd_file f0 (\<lambda>x. x\<lparr>f_type := FD_PIPE, f_readable := True,
                                        f_writable := False, f_pipe := pi\<rparr>) s;
                              let s = upd_file f1 (\<lambda>x. x\<lparr>f_type := FD_PIPE, f_readable := False,
                                        f_writable := True, f_pipe := pi\<rparr>) s;
                              Some (Some (f0, f1), s) } } } }"

text \<open>\<open>struct stat\<close> as bytes; the four bytes of padding, not initialised in the source, are zero.\<close>

definition stat_bytes :: "stat \<Rightarrow> bytes" where
  "stat_bytes st =
     (let b = st32 (\<lambda>_. 0) 0 (st_dev st);
          b = st32 b 4 (st_ino st);
          b = st16 b 8 (st_type st);
          b = st16 b 10 (st_nlink st)
      in st64 b 16 (st_size st))"

definition filestat :: "'z fw \<Rightarrow> nat \<Rightarrow> uint64 \<Rightarrow> 'z files_scheme \<Rightarrow> (int \<times> 'z files_scheme) option" where
  "filestat sw f addr s =
     do { p \<leftarrow> myproc s;
          if f_type (ftable s f) = FD_INODE \<or> f_type (ftable s f) = FD_DEVICE then
            do { ip \<leftarrow> f_ip (ftable s f);
                 s \<leftarrow> ilock sw ip s;
                 let st = stati ip s;
                 s \<leftarrow> iunlock ip s;
                 (r, s) \<leftarrow> copyout (p_pagetable (procs s p)) addr (stat_bytes st) 0 24 s;
                 Some (if r < 0 then -1 else 0, s) }
          else Some (-1, s) }"

definition dev_ok :: "16 word \<Rightarrow> (nat \<Rightarrow> bool) \<Rightarrow> bool" where
  "dev_ok major tab \<longleftrightarrow> \<not> (sint major < 0 \<or> sint major \<ge> NDEV \<or> \<not> tab (nat (sint major)))"

definition fileread :: "'z fw \<Rightarrow> nat \<Rightarrow> uint64 \<Rightarrow> int \<Rightarrow> 'z files_scheme \<Rightarrow> (int \<times> 'z files_scheme) option" where
  "fileread sw f addr n s =
     (let ff = ftable s f in
      if \<not> f_readable ff then Some (-1, s)
      else case f_type ff of
        FD_PIPE \<Rightarrow> piperead sw (f_pipe ff) addr n s
      | FD_DEVICE \<Rightarrow>
          if \<not> dev_ok (f_major ff) (devsw_read s) then Some (-1, s)
          else do { (r, _, s) \<leftarrow> consoleread sw True addr (\<lambda>_. 0) n s; Some (r, s) }
      | FD_INODE \<Rightarrow>
          do { ip \<leftarrow> f_ip ff;
               s \<leftarrow> ilock sw ip s;
               (r, _, s) \<leftarrow> readi sw ip True addr (\<lambda>_. 0) (f_off (ftable s f)) (word_of_int n) s;
               let s = (if r > 0 then upd_file f (\<lambda>x. x\<lparr>f_off := f_off x + word_of_int r\<rparr>) s else s);
               s \<leftarrow> iunlock ip s;
               Some (r, s) }
      | FD_NONE \<Rightarrow> None)"

definition write_max :: int where
  "write_max = ((MAXOPBLOCKS - 1 - 1 - 2) div 2) * int BSIZE"

partial_function (option) filewrite_loop :: "'z fw \<Rightarrow> nat \<Rightarrow> nat \<Rightarrow> uint64 \<Rightarrow> int \<Rightarrow> int \<Rightarrow> 'z files_scheme \<Rightarrow>
    (int \<times> 'z files_scheme) option" where
  "filewrite_loop sw f ip addr n i s =
     (if i < n then
        do { let n1 = (if n - i > write_max then write_max else n - i);
             s \<leftarrow> begin_op sw s;
             s \<leftarrow> ilock sw ip s;
             (r, s) \<leftarrow> writei sw ip True (addr + word_of_int i) (\<lambda>_. 0) (f_off (ftable s f)) (word_of_int n1) s;
             let s = (if r > 0 then upd_file f (\<lambda>x. x\<lparr>f_off := f_off x + word_of_int r\<rparr>) s else s);
             s \<leftarrow> iunlock ip s;
             s \<leftarrow> end_op sw s;
             if r \<noteq> n1 then Some (i, s)
             else filewrite_loop sw f ip addr n (i + r) s }
      else Some (i, s))"

definition filewrite :: "'z fw \<Rightarrow> nat \<Rightarrow> uint64 \<Rightarrow> int \<Rightarrow> 'z files_scheme \<Rightarrow> (int \<times> 'z files_scheme) option" where
  "filewrite sw f addr n s =
     (let ff = ftable s f in
      if \<not> f_writable ff then Some (-1, s)
      else case f_type ff of
        FD_PIPE \<Rightarrow> pipewrite sw (f_pipe ff) addr n s
      | FD_DEVICE \<Rightarrow>
          if \<not> dev_ok (f_major ff) (devsw_write s) then Some (-1, s)
          else consolewrite sw True addr (\<lambda>_. 0) n s
      | FD_INODE \<Rightarrow>
          do { ip \<leftarrow> f_ip ff;
               (i, s) \<leftarrow> filewrite_loop sw f ip addr n 0 s;
               Some (if i = n then n else -1, s) }
      | FD_NONE \<Rightarrow> None)"

end
