(* ===== verification/Procmem.thy ===== *)
theory Procmem
  imports Vmcopy
begin

text \<open>
  Allocation of process-table slots and of their memory: \<open>allocproc\<close>, \<open>freeproc\<close>,
  \<open>proc_pagetable\<close>, \<open>proc_freepagetable\<close>, \<open>growproc\<close> and \<open>proc_mapstacks\<close> of
  \<^verbatim>\<open>kernel/proc.c\<close>, and the kernel's own page table, \<open>kvmmake\<close> of \<^verbatim>\<open>kernel/vm.c\<close>.
\<close>

section \<open>Page tables of processes\<close>

definition proc_pagetable :: "nat \<Rightarrow> 'z kern_scheme \<Rightarrow> (uint64 \<times> 'z kern_scheme) option" where
  "proc_pagetable p s =
     do { (pagetable, s) \<leftarrow> uvmcreate s;
          if pagetable = 0 then Some (0, s)
          else do {
            (r, s) \<leftarrow> mappages pagetable TRAMPOLINE PGSIZE (sym_trampoline (syms s)) (PTE_R OR PTE_X) s;
            if r < 0 then do { s \<leftarrow> uvmfree pagetable 0 s; Some (0, s) }
            else do {
              (r, s) \<leftarrow> mappages pagetable TRAPFRAME PGSIZE (p_trapframe (procs s p)) (PTE_R OR PTE_W) s;
              if r < 0 then
                do { s \<leftarrow> uvmunmap pagetable TRAMPOLINE 1 False s;
                     s \<leftarrow> uvmfree pagetable 0 s;
                     Some (0, s) }
              else Some (pagetable, s) } } }"

definition proc_freepagetable :: "uint64 \<Rightarrow> uint64 \<Rightarrow> 'z mach_scheme \<Rightarrow> 'z mach_scheme option" where
  "proc_freepagetable pagetable sz s =
     do { s \<leftarrow> uvmunmap pagetable TRAMPOLINE 1 False s;
          s \<leftarrow> uvmunmap pagetable TRAPFRAME 1 False s;
          uvmfree pagetable sz s }"

section \<open>Slots of the process table\<close>

definition freeproc :: "nat \<Rightarrow> 'z kern_scheme \<Rightarrow> 'z kern_scheme option" where
  "freeproc p s =
     do { s \<leftarrow> (if p_trapframe (procs s p) \<noteq> 0 then kfree (p_trapframe (procs s p)) s else Some s);
          let s = upd_proc p (\<lambda>q. q\<lparr>p_trapframe := 0\<rparr>) s;
          s \<leftarrow> (if p_pagetable (procs s p) \<noteq> 0
               then proc_freepagetable (p_pagetable (procs s p)) (p_sz (procs s p)) s
               else Some s);
          Some (upd_proc p (\<lambda>q. q\<lparr>p_pagetable := 0, p_sz := 0, p_pid := 0, p_parent := None,
            p_name := (p_name q)(0 := 0), p_chan := None, p_killed := 0, p_xstate := 0,
            p_state := UNUSED\<rparr>) s) }"

text \<open>The search for an unused slot, which returns with the slot locked.\<close>

definition allocproc_slot :: "'z kern_scheme \<Rightarrow> (nat option \<times> 'z kern_scheme) option" where
  "allocproc_slot s =
     scan (\<lambda>p s.
       do { s \<leftarrow> acquire (L_proc p) s;
            if pstate s p = UNUSED then Some (Some p, s)
            else do { s \<leftarrow> release (L_proc p) s; Some (None, s) } }) proc_ids s"

text \<open>The fields that a new process starts with.\<close>

definition newborn :: "int \<Rightarrow> uint32 \<Rightarrow> proc \<Rightarrow> proc" where
  "newborn pid now q = q\<lparr>p_pid := pid, p_state := USED, p_rtime := 0, p_wtime := 0, p_nrun := 0,
     p_stime := 0, p_pbs_rtime := 0, p_pbs_stime := 0, p_priority := DEFAULT_PRIORITY,
     p_starving := 0, p_ctime := ucast now\<rparr>"

text \<open>The code after the label \<open>found\<close>.\<close>

definition allocproc_found :: "nat \<Rightarrow> 'z kern_scheme \<Rightarrow> (nat option \<times> 'z kern_scheme) option" where
  "allocproc_found p s =
     do { (pid, s) \<leftarrow> allocpid s;
          let s = upd_proc p (newborn pid (ticks s)) s;
          (tf, s) \<leftarrow> kalloc s;
          let s = upd_proc p (\<lambda>q. q\<lparr>p_trapframe := tf\<rparr>) s;
          if tf = 0 then
            do { s \<leftarrow> freeproc p s;
                 s \<leftarrow> release (L_proc p) s;
                 Some (None, s) }
          else do {
            (pt, s) \<leftarrow> proc_pagetable p s;
            let s = upd_proc p (\<lambda>q. q\<lparr>p_pagetable := pt\<rparr>) s;
            if pt = 0 then
              do { s \<leftarrow> freeproc p s;
                   s \<leftarrow> release (L_proc p) s;
                   Some (None, s) }
            else
              Some (Some p, upd_proc p (\<lambda>q. q\<lparr>p_context :=
                \<lparr>c_ra = sym_forkret (syms s), c_sp = p_kstack q + PGSIZE, c_s = (\<lambda>_. 0)\<rparr>\<rparr>) s) } }"

definition allocproc :: "'z kern_scheme \<Rightarrow> (nat option \<times> 'z kern_scheme) option" where
  "allocproc s =
     do { (r, s) \<leftarrow> allocproc_slot s;
          case r of
            None \<Rightarrow> Some (None, s)
          | Some p \<Rightarrow> allocproc_found p s }"

definition growproc :: "int \<Rightarrow> 'z kern_scheme \<Rightarrow> (int \<times> 'z kern_scheme) option" where
  "growproc n s =
     do { p \<leftarrow> myproc s;
          let sz = p_sz (procs s p);
          if n > 0 then
            (if sz + word_of_int n > TRAPFRAME then Some (-1, s)
             else do {
               (sz, s) \<leftarrow> uvmalloc (p_pagetable (procs s p)) sz (sz + word_of_int n) PTE_W s;
               if sz = 0 then Some (-1, s)
               else Some (0, upd_proc p (\<lambda>q. q\<lparr>p_sz := sz\<rparr>) s) })
          else if n < 0 then
            do { (sz, s) \<leftarrow> uvmdealloc (p_pagetable (procs s p)) sz (sz + word_of_int n) s;
                 Some (0, upd_proc p (\<lambda>q. q\<lparr>p_sz := sz\<rparr>) s) }
          else Some (0, upd_proc p (\<lambda>q. q\<lparr>p_sz := sz\<rparr>) s) }"

section \<open>The kernel's page table\<close>

definition proc_mapstacks :: "uint64 \<Rightarrow> 'z mach_scheme \<Rightarrow> 'z mach_scheme option" where
  "proc_mapstacks kpgtbl s =
     for_each (\<lambda>p s.
       do { (pa, s) \<leftarrow> kalloc s;
            if pa = 0 then None
            else kvmmap kpgtbl (KSTACK p) pa PGSIZE (PTE_R OR PTE_W) s }) proc_ids s"

text \<open>
  \<open>etext\<close> and \<open>trampoline\<close> are addresses that the linker assigns. With no page left the
  first \<open>memset\<close> writes through a null pointer.
\<close>

definition kvmmake :: "uint64 \<Rightarrow> uint64 \<Rightarrow> 'z mach_scheme \<Rightarrow> (uint64 \<times> 'z mach_scheme) option" where
  "kvmmake etext trampoline s =
     do { (kpgtbl, s) \<leftarrow> kalloc s;
          if kpgtbl = 0 then None
          else do {
            let s = zero_page kpgtbl s;
            s \<leftarrow> kvmmap kpgtbl UART0 UART0 PGSIZE (PTE_R OR PTE_W) s;
            s \<leftarrow> kvmmap kpgtbl VIRTIO0 VIRTIO0 PGSIZE (PTE_R OR PTE_W) s;
            s \<leftarrow> kvmmap kpgtbl PLIC PLIC 0x4000000 (PTE_R OR PTE_W) s;
            s \<leftarrow> kvmmap kpgtbl KERNBASE KERNBASE (etext - KERNBASE) (PTE_R OR PTE_X) s;
            s \<leftarrow> kvmmap kpgtbl etext etext (PHYSTOP - etext) (PTE_R OR PTE_W) s;
            s \<leftarrow> kvmmap kpgtbl TRAMPOLINE trampoline PGSIZE (PTE_R OR PTE_X) s;
            s \<leftarrow> proc_mapstacks kpgtbl s;
            Some (kpgtbl, s) } }"

section \<open>Effect on the process table\<close>

lemma rest_kern:
  assumes "rest t = rest s"
  shows "procs t = procs s" "cpu_proc t = cpu_proc s" "nextpid t = nextpid s" "ticks t = ticks s"
    "initproc t = initproc s" "syms t = syms s" "csr t = csr s" "myproc t = myproc s"
  using arg_cong [OF assms, of procs] arg_cong [OF assms, of cpu_proc] arg_cong [OF assms, of nextpid]
    arg_cong [OF assms, of ticks] arg_cong [OF assms, of initproc] arg_cong [OF assms, of syms]
    arg_cong [OF assms, of csr] arg_cong [OF assms, of myproc]
  by (simp_all add: rest_def myproc_def cpuid_def)

lemma proc_freepagetable_rest: "proc_freepagetable pt sz s = Some t \<Longrightarrow> rest t = rest s"
  by (auto simp: proc_freepagetable_def dest!: uvmunmap_rest uvmfree_rest split: bind_frames)

lemma proc_pagetable_rest: "proc_pagetable p s = Some (r, t) \<Longrightarrow> rest t = rest s"
  by (auto simp: proc_pagetable_def dest!: uvmunmap_rest uvmfree_rest mappages_rest uvmcreate_rest
      split: bind_frames)

text \<open>What \<open>freeproc\<close> leaves of an entry.\<close>

definition freed :: "proc \<Rightarrow> proc" where
  "freed q = q\<lparr>p_trapframe := 0, p_pagetable := 0, p_sz := 0, p_pid := 0, p_parent := None,
     p_name := (p_name q)(0 := 0), p_chan := None, p_killed := 0, p_xstate := 0, p_state := UNUSED\<rparr>"

lemma freeproc_effect:
  assumes "freeproc p s = Some t"
  shows "procs t = (procs s)(p := freed (procs s p))" "held t = held s" "nextpid t = nextpid s"
proof -
  let ?fin = "\<lambda>q. q\<lparr>p_pagetable := 0, p_sz := 0, p_pid := 0, p_parent := None,
            p_name := (p_name q)(0 := 0), p_chan := None, p_killed := 0, p_xstate := 0,
            p_state := UNUSED\<rparr>"
  obtain u v where
    ku: "(if p_trapframe (procs s p) \<noteq> 0 then kfree (p_trapframe (procs s p)) s else Some s) = Some u" and
    fv: "(if p_pagetable (procs (upd_proc p (\<lambda>q. q\<lparr>p_trapframe := 0\<rparr>) u) p) \<noteq> 0
      then proc_freepagetable (p_pagetable (procs (upd_proc p (\<lambda>q. q\<lparr>p_trapframe := 0\<rparr>) u) p))
             (p_sz (procs (upd_proc p (\<lambda>q. q\<lparr>p_trapframe := 0\<rparr>) u) p))
             (upd_proc p (\<lambda>q. q\<lparr>p_trapframe := 0\<rparr>) u)
      else Some (upd_proc p (\<lambda>q. q\<lparr>p_trapframe := 0\<rparr>) u)) = Some v" and
    t: "t = upd_proc p ?fin v"
    using assms unfolding freeproc_def Let_def bind_eq_Some_conv by blast
  have u: "rest u = rest s" using ku kfree_rest by (metis option.inject)
  have v: "rest v = rest (upd_proc p (\<lambda>q. q\<lparr>p_trapframe := 0\<rparr>) u)"
    using fv proc_freepagetable_rest by (metis option.inject)
  show "procs t = (procs s)(p := freed (procs s p))"
    unfolding t upd_proc_fields rest_kern [OF v] rest_kern [OF u] freed_def by simp
  show "held t = held s" "nextpid t = nextpid s"
    unfolding t upd_proc_fields rest_kern [OF v] rest_kern [OF u] rest_fields [OF v] rest_fields [OF u]
    by simp_all
qed

lemma allocproc_slot_eq:
  assumes "procs_free s"
  shows "allocproc_slot s = Some (case find (\<lambda>p. pstate s p = UNUSED) proc_ids of
      None \<Rightarrow> (None, s)
    | Some p \<Rightarrow> (Some p, s\<lparr>held := L_proc p # held s\<rparr>))"
proof -
  have "allocproc_slot s = (case find (\<lambda>p. pstate s p = UNUSED) proc_ids of
      None \<Rightarrow> Some (None, s)
    | Some p \<Rightarrow> Some (Some p, s\<lparr>held := L_proc p # held s\<rparr>))"
    unfolding allocproc_slot_def
    using assms by (intro scan_find) (auto simp: procs_free_def kernel_simps)
  then show ?thesis by (simp split: option.splits)
qed

text \<open>
  The new entry: the identifier and the scheduling fields of \<open>newborn\<close>, its memory and its
  first context; all that is not named keeps its old value.
\<close>

definition born :: "'z kern_scheme \<Rightarrow> uint64 \<Rightarrow> uint64 \<Rightarrow> proc \<Rightarrow> proc" where
  "born s tf pt q = (newborn (nextpid s) (ticks s) q)\<lparr>p_trapframe := tf, p_pagetable := pt,
     p_context := \<lparr>c_ra = sym_forkret (syms s), c_sp = p_kstack q + PGSIZE, c_s = (\<lambda>_. 0)\<rparr>\<rparr>"

text \<open>The two exits of \<open>allocproc_found\<close> that give the slot back.\<close>

lemma give_back:
  assumes "held v = L_proc p # h" "nextpid v = n" "procs v = (procs s)(p := q)"
  shows "post (do { s' \<leftarrow> freeproc p v; s' \<leftarrow> release (L_proc p) s'; Some (None, s') })
    (\<lambda>(r, t). r = None \<and> nextpid t = n \<and> held t = h \<and> procs t = (procs s)(p := freed q))"
proof (rule post_bind, rule postI, rule post_bind, rule postI)
  fix w t assume w: "freeproc p v = Some w" "release (L_proc p) w = Some t"
  then show "post (Some (None, t)) (\<lambda>(r, t). r = None \<and> nextpid t = n \<and> held t = h \<and>
      procs t = (procs s)(p := freed q))"
    using freeproc_effect [OF w(1)] assms by (auto simp: release_Some_iff)
qed

lemma allocproc_found_effect:
  assumes h: "held s = L_proc p # h" "L_pid \<notin> set h"
  shows "post (allocproc_found p s) (\<lambda>(r, t). nextpid t = nextpid s + 1 \<and>
    (r = None \<and> held t = h \<and>
       (\<exists>tf pt. procs t = (procs s)(p := freed ((newborn (nextpid s) (ticks s) (procs s p))
          \<lparr>p_trapframe := tf, p_pagetable := pt\<rparr>))) \<or>
     r = Some p \<and> held t = held s \<and>
       (\<exists>tf pt. tf \<noteq> 0 \<and> pt \<noteq> 0 \<and> procs t = (procs s)(p := born s tf pt (procs s p)))))"
    (is "post _ ?P")
proof -
  let ?q = "newborn (nextpid s) (ticks s) (procs s p)"
  let ?s1 = "upd_proc p (newborn (nextpid s) (ticks s)) (s\<lparr>nextpid := nextpid s + 1\<rparr>)"
  have pid: "allocpid s = Some (nextpid s, s\<lparr>nextpid := nextpid s + 1\<rparr>)"
    by (rule allocpid_eq) (simp add: h)
  have tk: "ticks (s\<lparr>nextpid := nextpid s + 1\<rparr>) = ticks s" by simp
  have lost: "?P x" if "case x of (r, t) \<Rightarrow> r = None \<and> nextpid t = nextpid s + 1 \<and> held t = h \<and>
      procs t = (procs s)(p := freed (?q\<lparr>p_trapframe := tf, p_pagetable := pt\<rparr>))" for x tf pt
    using that by (cases x) auto
  show ?thesis
    unfolding allocproc_found_def pid bind.bind_lunit prod.case Let_def tk
  proof (rule post_bind, rule post_pairI, unfold prod.case, split if_split, intro conjI impI)
    fix tf s2 assume tf: "kalloc ?s1 = Some (tf, s2)"
    note s2 = rest_kern [OF kalloc_rest [OF tf]] rest_fields(1) [OF kalloc_rest [OF tf]]
    let ?s3 = "upd_proc p (\<lambda>q. q\<lparr>p_trapframe := tf\<rparr>) s2"
    show "post (do { s' \<leftarrow> freeproc p ?s3; s' \<leftarrow> release (L_proc p) s'; Some (None, s') }) ?P"
      by (rule post_conseq [OF give_back [where s = s and h = h] lost [where tf = tf and pt = "p_pagetable ?q"]])
         (simp_all add: s2 h)
    assume nz: "tf \<noteq> 0"
    show "post (do { (pt, s') \<leftarrow> proc_pagetable p ?s3;
            if pt = 0 then
              do { s' \<leftarrow> freeproc p (upd_proc p (\<lambda>q. q\<lparr>p_pagetable := pt\<rparr>) s');
                   s' \<leftarrow> release (L_proc p) s';
                   Some (None, s') }
            else
              Some (Some p, upd_proc p (\<lambda>q. q\<lparr>p_context := \<lparr>c_ra = sym_forkret (syms (upd_proc p (\<lambda>q. q\<lparr>p_pagetable := pt\<rparr>) s')),
                 c_sp = p_kstack q + PGSIZE, c_s = (\<lambda>_. 0)\<rparr>\<rparr>) (upd_proc p (\<lambda>q. q\<lparr>p_pagetable := pt\<rparr>) s')) }) ?P"
    proof (rule post_bind, rule post_pairI, unfold prod.case, split if_split, intro conjI impI)
      fix pt s4 assume pt: "proc_pagetable p ?s3 = Some (pt, s4)"
      note s4 = rest_kern [OF proc_pagetable_rest [OF pt]] rest_fields(1) [OF proc_pagetable_rest [OF pt]]
      let ?s5 = "upd_proc p (\<lambda>q. q\<lparr>p_pagetable := pt\<rparr>) s4"
      show "post (do { s' \<leftarrow> freeproc p ?s5; s' \<leftarrow> release (L_proc p) s'; Some (None, s') }) ?P"
        by (rule post_conseq [OF give_back [where s = s and h = h] lost [where tf = tf and pt = pt]])
           (simp_all add: s2 s4 h)
      assume "pt \<noteq> 0"
      then show "post (Some (Some p, upd_proc p (\<lambda>q. q\<lparr>p_context := \<lparr>c_ra = sym_forkret (syms ?s5),
                 c_sp = p_kstack q + PGSIZE, c_s = (\<lambda>_. 0)\<rparr>\<rparr>) ?s5)) ?P"
        using nz unfolding post_Some prod.case
        by (intro conjI disjI2 exI [of _ tf] exI [of _ pt]) (simp_all add: s2 s4 born_def newborn_def)
    qed
  qed
qed
lemma allocproc_effect:
  assumes free: "procs_free s" "L_pid \<notin> set (held s)" and a: "allocproc s = Some (r, t)"
  shows "case find (\<lambda>p. pstate s p = UNUSED) proc_ids of
      None \<Rightarrow> r = None \<and> t = s
    | Some p \<Rightarrow> nextpid t = nextpid s + 1 \<and>
        (r = None \<and> held t = held s \<and>
           (\<exists>tf pt. procs t = (procs s)(p := freed ((newborn (nextpid s) (ticks s) (procs s p))
              \<lparr>p_trapframe := tf, p_pagetable := pt\<rparr>))) \<or>
         r = Some p \<and> held t = L_proc p # held s \<and>
           (\<exists>tf pt. tf \<noteq> 0 \<and> pt \<noteq> 0 \<and> procs t = (procs s)(p := born s tf pt (procs s p))))"
proof (cases "find (\<lambda>p. pstate s p = UNUSED) proc_ids")
  case None
  then show ?thesis using a by (simp add: allocproc_def allocproc_slot_eq [OF free(1)])
next
  case (Some p)
  let ?s = "s\<lparr>held := L_proc p # held s\<rparr>"
  have "allocproc_found p ?s = Some (r, t)"
    using a by (simp add: allocproc_def allocproc_slot_eq [OF free(1)] Some)
  then have "(\<lambda>(r, t). nextpid t = nextpid ?s + 1 \<and>
      (r = None \<and> held t = held s \<and>
         (\<exists>tf pt. procs t = (procs ?s)(p := freed ((newborn (nextpid ?s) (ticks ?s) (procs ?s p))
            \<lparr>p_trapframe := tf, p_pagetable := pt\<rparr>))) \<or>
       r = Some p \<and> held t = held ?s \<and>
         (\<exists>tf pt. tf \<noteq> 0 \<and> pt \<noteq> 0 \<and> procs t = (procs ?s)(p := born ?s tf pt (procs ?s p))))) (r, t)"
    by (rule postD [OF allocproc_found_effect, rotated 2]) (simp_all add: free(2))
  then show ?thesis unfolding Some option.case by (simp add: born_def)
qed

end
