(* ===== verification/Lifecycle.thy ===== *)
theory Lifecycle
  imports File Procmem
begin

text \<open>
  Creation, exit and collection of processes: \<open>userinit\<close>, \<open>kfork\<close>, \<open>kexit\<close> and \<open>kwait\<close> of
  \<^verbatim>\<open>kernel/proc.c\<close>.
\<close>

section \<open>Operations\<close>

text \<open>
  \<open>safestrcpy\<close> between two arrays of 16 bytes, placed side by side: at most 15 bytes of
  the source are read.
\<close>

definition name_copy :: "bytes \<Rightarrow> bytes \<Rightarrow> nat \<Rightarrow> bytes" where
  "name_copy dst src so = safestrcpy (blit dst 16 src so 16) 0 16 16"

definition userinit :: "'z fw \<Rightarrow> 'z files_scheme \<Rightarrow> 'z files_scheme option" where
  "userinit sw s =
     do { (r, s) \<leftarrow> allocproc s;
          let s = s\<lparr>initproc := r\<rparr>;
          p \<leftarrow> r;
          (ip, s) \<leftarrow> namei sw ((\<lambda>_. 0)(0 := SLASH)) s;
          let s = upd_proc p (\<lambda>q. q\<lparr>p_cwd := ip\<rparr>) s;
          let s = set_state p RUNNABLE s;
          release (L_proc p) s }"

definition fork_files :: "nat \<Rightarrow> nat \<Rightarrow> 'z files_scheme \<Rightarrow> 'z files_scheme option" where
  "fork_files p np s =
     for_each (\<lambda>i s.
       case p_ofile (procs s p) i of
         None \<Rightarrow> Some s
       | Some f \<Rightarrow>
           do { (f, s) \<leftarrow> filedup f s;
                Some (upd_proc np (\<lambda>q. q\<lparr>p_ofile := (p_ofile q)(i := Some f)\<rparr>) s) }) [0..<NOFILE] s"

definition kfork :: "'z files_scheme \<Rightarrow> (int \<times> 'z files_scheme) option" where
  "kfork s =
     do { p \<leftarrow> myproc s;
          (r, s) \<leftarrow> allocproc s;
          case r of
            None \<Rightarrow> Some (-1, s)
          | Some np \<Rightarrow>
              do { (c, s) \<leftarrow> uvmcopy (p_pagetable (procs s p)) (p_pagetable (procs s np)) (p_sz (procs s p)) s;
                   if c < 0 then
                     do { s \<leftarrow> freeproc np s;
                          s \<leftarrow> release (L_proc np) s;
                          Some (-1, s) }
                   else do {
                     let s = upd_proc np (\<lambda>q. q\<lparr>p_sz := p_sz (procs s p)\<rparr>) s;
                     let s = s\<lparr>mem := blit (mem s) (unat (p_trapframe (procs s np)))
                                        (mem s) (unat (p_trapframe (procs s p))) 288\<rparr>;
                     let s = tf_set np (tf_a 0) 0 s;
                     s \<leftarrow> fork_files p np s;
                     cwd \<leftarrow> p_cwd (procs s p);
                     (cwd, s) \<leftarrow> idup cwd s;
                     let s = upd_proc np (\<lambda>q. q\<lparr>p_cwd := Some cwd\<rparr>) s;
                     let s = upd_proc np (\<lambda>q. q\<lparr>p_name := name_copy (p_name q) (p_name (procs s p)) 0\<rparr>) s;
                     let pid = p_pid (procs s np);
                     s \<leftarrow> release (L_proc np) s;
                     s \<leftarrow> acquire L_wait s;
                     let s = upd_proc np (\<lambda>q. q\<lparr>p_parent := Some p\<rparr>) s;
                     s \<leftarrow> release L_wait s;
                     s \<leftarrow> acquire (L_proc np) s;
                     let s = set_state np RUNNABLE s;
                     s \<leftarrow> release (L_proc np) s;
                     Some (pid, s) } } }"

definition exit_files :: "'z fw \<Rightarrow> nat \<Rightarrow> 'z files_scheme \<Rightarrow> 'z files_scheme option" where
  "exit_files sw p s =
     for_each (\<lambda>fd s.
       case p_ofile (procs s p) fd of
         None \<Rightarrow> Some s
       | Some f \<Rightarrow>
           do { s \<leftarrow> fileclose sw f s;
                Some (upd_proc p (\<lambda>q. q\<lparr>p_ofile := (p_ofile q)(fd := None)\<rparr>) s) }) [0..<NOFILE] s"

text \<open>
  \<open>kexit\<close> does not return; \<open>kexit_enter\<close> is its work up to the call of \<open>sched\<close>, the state in
  which the scheduler and the parent find the process.
\<close>

definition kexit_enter :: "'z fw \<Rightarrow> int \<Rightarrow> 'z files_scheme \<Rightarrow> 'z files_scheme option" where
  "kexit_enter sw status s =
     do { p \<leftarrow> myproc s;
          if initproc s = Some p then None
          else do {
            s \<leftarrow> exit_files sw p s;
            s \<leftarrow> begin_op sw s;
            cwd \<leftarrow> p_cwd (procs s p);
            s \<leftarrow> iput sw cwd s;
            s \<leftarrow> end_op sw s;
            let s = upd_proc p (\<lambda>q. q\<lparr>p_cwd := None\<rparr>) s;
            s \<leftarrow> acquire L_wait s;
            s \<leftarrow> reparent p s;
            s \<leftarrow> wakeup (map_option C_proc (p_parent (procs s p))) s;
            s \<leftarrow> acquire (L_proc p) s;
            let s = upd_proc p (\<lambda>q. q\<lparr>p_xstate := status, p_state := ZOMBIE\<rparr>) s;
            release L_wait s } }"

definition kexit :: "'z fw \<Rightarrow> int \<Rightarrow> 'z files_scheme \<Rightarrow> 'z files_scheme option" where
  "kexit sw status s =
     do { s \<leftarrow> kexit_enter sw status s;
          s \<leftarrow> sched sw s;
          None }"

text \<open>
  One pass of \<open>kwait\<close> over the table: whether there are children, and the result if the
  function returned from inside, with its locks released.
\<close>

definition kwait_scan :: "nat \<Rightarrow> uint64 \<Rightarrow> 'z files_scheme \<Rightarrow> (int option \<times> bool \<times> 'z files_scheme) option" where
  "kwait_scan p addr s =
     do { (r, have, s) \<leftarrow> scan (\<lambda>pp (have, s).
            if p_parent (procs s pp) = Some p then
              do { s \<leftarrow> acquire (L_proc pp) s;
                   if pstate s pp = ZOMBIE then
                     do { let pid = p_pid (procs s pp);
                          (c, s) \<leftarrow> (if addr \<noteq> 0
                             then copyout (p_pagetable (procs s p)) addr
                                    (st32 (\<lambda>_. 0) 0 (word_of_int (p_xstate (procs s pp)))) 0 4 s
                             else Some (0, s));
                          if c < 0 then
                            do { s \<leftarrow> release (L_proc pp) s;
                                 s \<leftarrow> release L_wait s;
                                 Some (Some (-1), True, s) }
                          else do {
                            s \<leftarrow> freeproc pp s;
                            s \<leftarrow> release (L_proc pp) s;
                            s \<leftarrow> release L_wait s;
                            Some (Some pid, True, s) } }
                   else do { s \<leftarrow> release (L_proc pp) s; Some (None, True, s) } }
            else Some (None, have, s)) proc_ids (False, s);
          Some (r, have, s) }"

partial_function (option) kwait_loop :: "'z fw \<Rightarrow> nat \<Rightarrow> uint64 \<Rightarrow> 'z files_scheme \<Rightarrow>
    (int \<times> 'z files_scheme) option" where
  "kwait_loop sw p addr s =
     do { (r, have, s) \<leftarrow> kwait_scan p addr s;
          case r of
            Some pid \<Rightarrow> Some (pid, s)
          | None \<Rightarrow>
              do { (k, s) \<leftarrow> (if \<not> have then Some (True, s)
                            else do { (k, s) \<leftarrow> killed p s; Some (k \<noteq> 0, s) });
                   if k then do { s \<leftarrow> release L_wait s; Some (-1, s) }
                   else do { s \<leftarrow> sleep sw (C_proc p) L_wait s;
                             kwait_loop sw p addr s } } }"

definition kwait :: "'z fw \<Rightarrow> uint64 \<Rightarrow> 'z files_scheme \<Rightarrow> (int \<times> 'z files_scheme) option" where
  "kwait sw addr s =
     do { p \<leftarrow> myproc s;
          s \<leftarrow> acquire L_wait s;
          kwait_loop sw p addr s }"

end
