(* ===== verification/Sysproc.thy ===== *)
theory Sysproc
  imports Sysargs Lifecycle
begin

text \<open>
  The system calls of \<^verbatim>\<open>kernel/sysproc.c\<close>: priorities, processes, memory and time. The result
  is the 64-bit value that \<open>syscall\<close> stores in \<open>a0\<close>.
\<close>

section \<open>Priorities\<close>

definition sys_setpriority :: "'z kern_scheme \<Rightarrow> (uint64 \<times> 'z kern_scheme) option" where
  "sys_setpriority s =
     do { pid \<leftarrow> argint 0 s;
          pr \<leftarrow> argint 1 s;
          if pr < MIN_PRIORITY \<or> pr > MAX_PRIORITY then Some (-1, s)
          else do {
            (r, s) \<leftarrow> scan (\<lambda>p s.
              do { s \<leftarrow> acquire (L_proc p) s;
                   if p_pid (procs s p) = pid then
                     do { let s = upd_proc p (\<lambda>q. q\<lparr>p_priority := pr\<rparr>) s;
                          s \<leftarrow> release (L_proc p) s;
                          Some (Some 0, s) }
                   else do { s \<leftarrow> release (L_proc p) s; Some (None, s) } }) proc_ids s;
            Some (case r of Some v \<Rightarrow> v | None \<Rightarrow> -1, s) } }"

definition sys_getpriority :: "'z kern_scheme \<Rightarrow> (uint64 \<times> 'z kern_scheme) option" where
  "sys_getpriority s =
     do { pid \<leftarrow> argint 0 s;
          (r, s) \<leftarrow> scan (\<lambda>p s.
            do { s \<leftarrow> acquire (L_proc p) s;
                 if p_pid (procs s p) = pid then
                   do { let pr = p_priority (procs s p);
                        s \<leftarrow> release (L_proc p) s;
                        Some (Some (word_of_int pr), s) }
                 else do { s \<leftarrow> release (L_proc p) s; Some (None, s) } }) proc_ids s;
          Some (case r of Some v \<Rightarrow> v | None \<Rightarrow> -1, s) }"

section \<open>Processes and memory\<close>

definition sys_exit :: "'z fw \<Rightarrow> 'z files_scheme \<Rightarrow> (uint64 \<times> 'z files_scheme) option" where
  "sys_exit sw s =
     do { n \<leftarrow> argint 0 s;
          s \<leftarrow> kexit sw n s;
          Some (0, s) }"

definition sys_getpid :: "'z kern_scheme \<Rightarrow> (uint64 \<times> 'z kern_scheme) option" where
  "sys_getpid s = do { p \<leftarrow> myproc s; Some (word_of_int (p_pid (procs s p)), s) }"

definition sys_fork :: "'z files_scheme \<Rightarrow> (uint64 \<times> 'z files_scheme) option" where
  "sys_fork s = do { (r, s) \<leftarrow> kfork s; Some (word_of_int r, s) }"

definition sys_wait :: "'z fw \<Rightarrow> 'z files_scheme \<Rightarrow> (uint64 \<times> 'z files_scheme) option" where
  "sys_wait sw s =
     do { p \<leftarrow> argaddr 0 s;
          (r, s) \<leftarrow> kwait sw p s;
          Some (word_of_int r, s) }"

definition SBRK_EAGER :: int where "SBRK_EAGER = 1"

definition sys_sbrk :: "'z kern_scheme \<Rightarrow> (uint64 \<times> 'z kern_scheme) option" where
  "sys_sbrk s =
     do { n \<leftarrow> argint 0 s;
          t \<leftarrow> argint 1 s;
          p \<leftarrow> myproc s;
          let addr = p_sz (procs s p);
          if t = SBRK_EAGER \<or> n < 0 then
            do { (r, s) \<leftarrow> growproc n s;
                 if r < 0 then Some (-1, s) else Some (addr, s) }
          else if addr + word_of_int n < addr then Some (-1, s)
          else if addr + word_of_int n > TRAPFRAME then Some (-1, s)
          else Some (addr, upd_proc p (\<lambda>q. q\<lparr>p_sz := p_sz q + word_of_int n\<rparr>) s) }"

section \<open>Time\<close>

partial_function (option) pause_loop :: "('z kern_scheme \<Rightarrow> 'z kern_scheme option) \<Rightarrow> uint32 \<Rightarrow> uint32 \<Rightarrow>
    'z kern_scheme \<Rightarrow> (uint64 \<times> 'z kern_scheme) option" where
  "pause_loop sw ticks0 n s =
     (if ticks s - ticks0 < n then
        do { p \<leftarrow> myproc s;
             (k, s) \<leftarrow> killed p s;
             if k \<noteq> 0 then do { s \<leftarrow> release L_ticks s; Some (-1, s) }
             else do { s \<leftarrow> sleep sw C_ticks L_ticks s; pause_loop sw ticks0 n s } }
      else do { s \<leftarrow> release L_ticks s; Some (0, s) })"

definition sys_pause :: "('z kern_scheme \<Rightarrow> 'z kern_scheme option) \<Rightarrow> 'z kern_scheme \<Rightarrow>
    (uint64 \<times> 'z kern_scheme) option" where
  "sys_pause sw s =
     do { n \<leftarrow> argint 0 s;
          let n = (if n < 0 then 0 else n);
          s \<leftarrow> acquire L_ticks s;
          pause_loop sw (ticks s) (word_of_int n) s }"

definition sys_kill :: "'z kern_scheme \<Rightarrow> (uint64 \<times> 'z kern_scheme) option" where
  "sys_kill s =
     do { pid \<leftarrow> argint 0 s;
          (r, s) \<leftarrow> kkill pid s;
          Some (word_of_int r, s) }"

definition sys_uptime :: "'z kern_scheme \<Rightarrow> (uint64 \<times> 'z kern_scheme) option" where
  "sys_uptime s =
     do { s \<leftarrow> acquire L_ticks s;
          let xticks = ticks s;
          s \<leftarrow> release L_ticks s;
          Some (ucast xticks, s) }"

section \<open>Demonstration calls\<close>

definition sys_hello :: "'z kern_scheme \<Rightarrow> (uint64 \<times> 'z kern_scheme) option" where
  "sys_hello s =
     do { p \<leftarrow> myproc s;
          s \<leftarrow> kprintf ''kernel: hello() called by pid %d (running in kernel)\<newline>''
                 [KInt (p_pid (procs s p))] s;
          Some (0, s) }"

definition sys_kalloc1 :: "'z mach_scheme \<Rightarrow> (uint64 \<times> 'z mach_scheme) option" where
  "sys_kalloc1 s =
     do { (pa, s) \<leftarrow> kalloc s;
          if pa = 0 then
            do { s \<leftarrow> kprintf ''kernel: kalloc1() failed: out of memory\<newline>'' [] s; Some (-1, s) }
          else do {
            s \<leftarrow> kprintf ''kernel: kalloc1() got page at %p, freeing it now\<newline>'' [KU64 pa] s;
            s \<leftarrow> kfree pa s;
            Some (0, s) } }"

definition sys_psx :: "'z kern_scheme \<Rightarrow> (uint64 \<times> 'z kern_scheme) option" where
  "sys_psx s = do { s \<leftarrow> procdump s; Some (0, s) }"

definition sys_ps :: "'z kern_scheme \<Rightarrow> (uint64 \<times> 'z kern_scheme) option" where
  "sys_ps s = do { s \<leftarrow> procdump s; Some (0, s) }"

section \<open>Setting and reading priorities\<close>

lemma setpriority_scan:
  assumes "procs_free s"
  shows "scan (\<lambda>p s.
              do { s \<leftarrow> acquire (L_proc p) s;
                   if p_pid (procs s p) = pid then
                     do { let s = upd_proc p (\<lambda>q. q\<lparr>p_priority := pr\<rparr>) s;
                          s \<leftarrow> release (L_proc p) s;
                          Some (Some (0 :: uint64), s) }
                   else do { s \<leftarrow> release (L_proc p) s; Some (None, s) } }) proc_ids s =
    (case find (\<lambda>p. p_pid (procs s p) = pid) proc_ids of
       None \<Rightarrow> Some (None, s)
     | Some p \<Rightarrow> Some (Some 0, upd_proc p (\<lambda>q. q\<lparr>p_priority := pr\<rparr>) s))"
  using assms by (intro scan_find) (auto simp: procs_free_def kernel_simps)

lemma sys_setpriority_eq:
  assumes "procs_free s" "argint 0 s = Some pid" "argint 1 s = Some pr"
  shows "sys_setpriority s = Some (
    if pr < 0 \<or> 100 < pr then (-1, s)
    else case find (\<lambda>p. p_pid (procs s p) = pid) proc_ids of
           None \<Rightarrow> (-1, s)
         | Some p \<Rightarrow> (0, upd_proc p (\<lambda>q. q\<lparr>p_priority := pr\<rparr>) s))"
  using assms
  by (simp add: sys_setpriority_def setpriority_scan priority_defs split: option.splits)

lemma sys_getpriority_eq:
  assumes "procs_free s" "argint 0 s = Some pid"
  shows "sys_getpriority s = Some (
    case find (\<lambda>p. p_pid (procs s p) = pid) proc_ids of
      None \<Rightarrow> (-1, s)
    | Some p \<Rightarrow> (word_of_int (p_priority (procs s p)), s))"
proof -
  have "scan (\<lambda>p s.
            do { s \<leftarrow> acquire (L_proc p) s;
                 if p_pid (procs s p) = pid then
                   do { let pr = p_priority (procs s p);
                        s \<leftarrow> release (L_proc p) s;
                        Some (Some (word_of_int pr :: uint64), s) }
                 else do { s \<leftarrow> release (L_proc p) s; Some (None, s) } }) proc_ids s =
    (case find (\<lambda>p. p_pid (procs s p) = pid) proc_ids of
       None \<Rightarrow> Some (None, s)
     | Some p \<Rightarrow> Some (Some (word_of_int (p_priority (procs s p))), s))"
    using assms(1) by (intro scan_find) (auto simp: procs_free_def kernel_simps)
  then show ?thesis using assms(2) by (simp add: sys_getpriority_def split: option.splits)
qed

text \<open>The arguments of a call do not depend on the scheduling fields.\<close>

lemma tf_get_priority [simp]:
  "tf_get y n (upd_proc p (\<lambda>q. q\<lparr>p_priority := pr\<rparr>) s) = tf_get y n s"
  by (simp add: tf_get_def)

lemma argint_priority [simp]:
  "argint n (upd_proc p (\<lambda>q. q\<lparr>p_priority := pr\<rparr>) s) = argint n s"
  by (simp add: argint_def argraw_def cong: if_cong)

lemma procs_free_upd [simp]: "procs_free (upd_proc p f s) = procs_free s"
  by (simp add: procs_free_def)

text \<open>
  C40: \<open>setpriority(pid, pr)\<close> fails and changes nothing when \<open>pr\<close> is outside 0..100 or no entry of
  the table has the identifier; otherwise it changes the priority of the first such entry and
  nothing else, and a following \<open>getpriority(pid)\<close> returns \<open>pr\<close>.
\<close>

theorem setpriority_getpriority:
  assumes "procs_free s" "argint 0 s = Some pid" "argint 1 s = Some pr"
  shows "(pr \<notin> {0..100} \<or> (\<forall>p < NPROC. p_pid (procs s p) \<noteq> pid) \<longrightarrow> sys_setpriority s = Some (-1, s)) \<and>
    (\<forall>p < NPROC. pr \<in> {0..100} \<and> p_pid (procs s p) = pid \<and> (\<forall>i < p. p_pid (procs s i) \<noteq> pid) \<longrightarrow>
       (let t = upd_proc p (\<lambda>q. q\<lparr>p_priority := pr\<rparr>) s
        in sys_setpriority s = Some (0, t) \<and> sys_getpriority t = Some (word_of_int pr, t)))"
proof (intro conjI allI impI)
  assume "pr \<notin> {0..100} \<or> (\<forall>p < NPROC. p_pid (procs s p) \<noteq> pid)"
  then have "pr < 0 \<or> 100 < pr \<or> find (\<lambda>p. p_pid (procs s p) = pid) proc_ids = None"
    by (auto simp: find_upt_None)
  then show "sys_setpriority s = Some (-1, s)"
    using assms by (auto simp: sys_setpriority_eq)
next
  fix p
  assume "p < NPROC" and p: "pr \<in> {0..100} \<and> p_pid (procs s p) = pid \<and> (\<forall>i < p. p_pid (procs s i) \<noteq> pid)"
  let ?t = "upd_proc p (\<lambda>q. q\<lparr>p_priority := pr\<rparr>) s"
  have f: "find (\<lambda>i. p_pid (procs s i) = pid) proc_ids = Some p"
    using \<open>p < NPROC\<close> p by (simp add: find_upt_Some)
  have ft: "find (\<lambda>i. p_pid (procs ?t i) = pid) proc_ids = Some p"
    using \<open>p < NPROC\<close> p by (auto simp: find_upt_Some)
  have "sys_setpriority s = Some (0, ?t)" using assms p f by (simp add: sys_setpriority_eq)
  moreover have "sys_getpriority ?t = Some (word_of_int pr, ?t)"
    using sys_getpriority_eq [of ?t pid] assms(1,2) ft by simp
  ultimately show "let t = ?t in sys_setpriority s = Some (0, t) \<and> sys_getpriority t = Some (word_of_int pr, t)"
    unfolding Let_def ..
qed

text \<open>Process 7 in slot 0 asks for priority 30 for itself.\<close>

definition call_ex :: kern where
  "call_ex = kern0\<lparr>mem := st64 (st64 (\<lambda>_. 0) 112 7) 120 30, cpu_proc := (\<lambda>_. Some 0),
     procs := (\<lambda>_. proc0)(0 := proc0\<lparr>p_pid := 7\<rparr>)\<rparr>"

lemma call_ex_args: "argint 0 call_ex = Some 7" "argint 1 call_ex = Some 30" "procs_free call_ex"
  by (simp_all add: argint_def argraw_def tf_get_def tf_a_def call_ex_def myproc_def cpuid_def
      ldn_stn_same ldn_stn_disjoint procs_free_def)

theorem setpriority_getpriority_witness:
  "sys_setpriority call_ex = Some (0, upd_proc 0 (\<lambda>q. q\<lparr>p_priority := 30\<rparr>) call_ex) \<and>
   sys_getpriority (upd_proc 0 (\<lambda>q. q\<lparr>p_priority := 30\<rparr>) call_ex) =
     Some (30, upd_proc 0 (\<lambda>q. q\<lparr>p_priority := 30\<rparr>) call_ex)"
proof -
  have "(0::nat) < NPROC" "p_pid (procs call_ex 0) = 7"
    by (simp_all add: NPROC_def call_ex_def)
  then show ?thesis
    using setpriority_getpriority [OF call_ex_args(3,1,2), THEN conjunct2, rule_format, of 0]
    by (simp add: Let_def)
qed

end
