(* ===== verification/Exec.thy ===== *)
theory Exec
  imports Lifecycle
begin

text \<open>
  The \<open>exec\<close> system call, \<^verbatim>\<open>kernel/exec.c\<close>, and the first return of a process to user space,
  \<open>forkret\<close> of \<^verbatim>\<open>kernel/proc.c\<close>. The headers of an executable are kernel buffers, read at the
  offsets of \<^verbatim>\<open>kernel/elf.h\<close>; \<open>argv\<close> is the list of the argument strings, each an array.
\<close>

section \<open>Executable files\<close>

definition ELF_MAGIC :: uint32 where "ELF_MAGIC = 0x464C457F"
definition ELF_PROG_LOAD :: uint32 where "ELF_PROG_LOAD = 1"

record proghdr =
  ph_type :: uint32
  ph_flags :: uint32
  ph_off :: uint64
  ph_vaddr :: uint64
  ph_filesz :: uint64
  ph_memsz :: uint64

definition proghdr_get :: "bytes \<Rightarrow> proghdr" where
  "proghdr_get d = \<lparr>ph_type = ld32 d 0, ph_flags = ld32 d 4, ph_off = ld64 d 8, ph_vaddr = ld64 d 16,
     ph_filesz = ld64 d 32, ph_memsz = ld64 d 40\<rparr>"

definition elf_magic :: "bytes \<Rightarrow> uint32" where "elf_magic d = ld32 d 0"
definition elf_entry :: "bytes \<Rightarrow> uint64" where "elf_entry d = ld64 d 24"
definition elf_phoff :: "bytes \<Rightarrow> uint64" where "elf_phoff d = ld64 d 32"
definition elf_phnum :: "bytes \<Rightarrow> 16 word" where "elf_phnum d = ld16 d 56"

definition flags2perm :: "uint32 \<Rightarrow> uint64" where
  "flags2perm flags =
     (let perm = (if flags AND 1 \<noteq> 0 then PTE_X else 0)
      in if flags AND 2 \<noteq> 0 then perm OR PTE_W else perm)"

section \<open>Loading\<close>

text \<open>
  \<open>readi\<close> fills a buffer that is then placed in the physical page; a read into kernel
  memory does not fail after copying, so its result is the number of bytes placed.
\<close>

partial_function (option) loadseg_from :: "'z fw \<Rightarrow> uint64 \<Rightarrow> uint64 \<Rightarrow> nat \<Rightarrow> uint32 \<Rightarrow> uint32 \<Rightarrow> uint32 \<Rightarrow>
    'z files_scheme \<Rightarrow> (int \<times> 'z files_scheme) option" where
  "loadseg_from sw pagetable va ip offset sz i s =
     (if i < sz then
        do { (pa, s) \<leftarrow> walkaddr pagetable (va + ucast i) s;
             if pa = 0 then None
             else do {
               let n = (if sz - i < 4096 then sz - i else 4096);
               (r, d, s) \<leftarrow> readi sw ip False 0 (\<lambda>_. 0) (offset + i) n s;
               let s = s\<lparr>mem := blit (mem s) (unat pa) d 0 (nat r)\<rparr>;
               if r \<noteq> uint n then Some (-1, s)
               else loadseg_from sw pagetable va ip offset sz (i + 4096) s } }
      else Some (0, s))"

definition loadseg :: "'z fw \<Rightarrow> uint64 \<Rightarrow> uint64 \<Rightarrow> nat \<Rightarrow> uint32 \<Rightarrow> uint32 \<Rightarrow> 'z files_scheme \<Rightarrow>
    (int \<times> 'z files_scheme) option" where
  "loadseg sw pagetable va ip offset sz s = loadseg_from sw pagetable va ip offset sz 0 s"

text \<open>
  The loop over the program headers: the size reached, or \<open>False\<close> for \<open>goto bad\<close>; the last
  argument counts the headers that are left.
\<close>

fun load_segs :: "'z fw \<Rightarrow> uint64 \<Rightarrow> nat \<Rightarrow> uint32 \<Rightarrow> uint64 \<Rightarrow> nat \<Rightarrow> 'z files_scheme \<Rightarrow>
    (bool \<times> uint64 \<times> 'z files_scheme) option" where
  "load_segs sw pagetable ip off sz 0 s = Some (True, sz, s)"
| "load_segs sw pagetable ip off sz (Suc k) s =
     do { (r, d, s) \<leftarrow> readi sw ip False 0 (\<lambda>_. 0) off 56 s;
          let ph = proghdr_get d;
          if r \<noteq> 56 then Some (False, sz, s)
          else if ph_type ph \<noteq> ELF_PROG_LOAD then load_segs sw pagetable ip (off + 56) sz k s
          else if ph_memsz ph < ph_filesz ph then Some (False, sz, s)
          else if ph_vaddr ph + ph_memsz ph < ph_vaddr ph then Some (False, sz, s)
          else if ph_vaddr ph mod PGSIZE \<noteq> 0 then Some (False, sz, s)
          else do {
            (sz1, s) \<leftarrow> uvmalloc pagetable sz (ph_vaddr ph + ph_memsz ph) (flags2perm (ph_flags ph)) s;
            if sz1 = 0 then Some (False, sz, s)
            else do {
              (r, s) \<leftarrow> loadseg sw pagetable (ph_vaddr ph) ip (ucast (ph_off ph)) (ucast (ph_filesz ph)) s;
              if r < 0 then Some (False, sz1, s)
              else load_segs sw pagetable ip (off + 56) sz1 k s } } }"

text \<open>
  The argument strings on the new stack: the final \<open>sp\<close> and \<open>ustack\<close>, the addresses of the
  strings, or \<open>None\<close> for \<open>goto bad\<close>.
\<close>

fun push_args :: "uint64 \<Rightarrow> uint64 \<Rightarrow> bytes list \<Rightarrow> uint64 \<Rightarrow> uint64 list \<Rightarrow> 'z files_scheme \<Rightarrow>
    ((uint64 \<times> uint64 list) option \<times> 'z files_scheme) option" where
  "push_args pagetable stackbase [] sp ustack s = Some (Some (sp, ustack), s)"
| "push_args pagetable stackbase (arg # argv) sp ustack s =
     (if length ustack \<ge> MAXARG then Some (None, s)
      else do {
        n \<leftarrow> strlen arg 0;
        let sp = sp - (of_nat n + 1);
        let sp = sp - sp mod 16;
        if sp < stackbase then Some (None, s)
        else do {
          (r, s) \<leftarrow> copyout pagetable sp arg 0 (of_nat n + 1) s;
          if r < 0 then Some (None, s)
          else push_args pagetable stackbase argv sp (ustack @ [sp]) s } })"

definition words_bytes :: "uint64 list \<Rightarrow> bytes" where
  "words_bytes ws = fold (\<lambda>(i, w) b. st64 b (8 * i) w) (zip [0..<length ws] ws) (\<lambda>_. 0)"

text \<open>\<open>for(last=s=path; *s; s++) if(*s == '/') last = s+1;\<close>\<close>

partial_function (option) path_last :: "bytes \<Rightarrow> nat \<Rightarrow> nat \<Rightarrow> nat option" where
  "path_last m s last' =
     (if m s = 0 then Some last' else path_last m (s + 1) (if m s = SLASH then s + 1 else last'))"

text \<open>\<open>bad:\<close>, with the page table and the inode if they are set.\<close>

definition exec_bad :: "'z fw \<Rightarrow> uint64 \<Rightarrow> uint64 \<Rightarrow> nat option \<Rightarrow> 'z files_scheme \<Rightarrow> (int \<times> 'z files_scheme) option" where
  "exec_bad sw pagetable sz ip s =
     do { s \<leftarrow> (if pagetable \<noteq> 0 then proc_freepagetable pagetable sz s else Some s);
          s \<leftarrow> (case ip of
                 None \<Rightarrow> Some s
               | Some ip \<Rightarrow> do { s \<leftarrow> iunlockput sw ip s; end_op sw s });
          Some (-1, s) }"

text \<open>From the loaded image on: the stack, the arguments and the commit.\<close>

definition exec_stack :: "'z fw \<Rightarrow> bytes \<Rightarrow> bytes list \<Rightarrow> uint64 \<Rightarrow> uint64 \<Rightarrow> uint64 \<Rightarrow> 'z files_scheme \<Rightarrow>
    (int \<times> 'z files_scheme) option" where
  "exec_stack sw path argv pagetable sz entry s =
     do { p \<leftarrow> myproc s;
          let oldsz = p_sz (procs s p);
          let sz = PGROUNDUP sz;
          (sz1, s) \<leftarrow> uvmalloc pagetable sz (sz + (USERSTACK + 1) * PGSIZE) PTE_W s;
          if sz1 = 0 then exec_bad sw pagetable sz None s
          else do {
            let sz = sz1;
            s \<leftarrow> uvmclear pagetable (sz - (USERSTACK + 1) * PGSIZE) s;
            let stackbase = sz - USERSTACK * PGSIZE;
            (r, s) \<leftarrow> push_args pagetable stackbase argv sz [] s;
            case r of
              None \<Rightarrow> exec_bad sw pagetable sz None s
            | Some (sp, ustack) \<Rightarrow>
                do { let argc = length ustack;
                     let sp = sp - of_nat (argc + 1) * 8;
                     let sp = sp - sp mod 16;
                     if sp < stackbase then exec_bad sw pagetable sz None s
                     else do {
                       (r, s) \<leftarrow> copyout pagetable sp (words_bytes (ustack @ [0])) 0 (of_nat (argc + 1) * 8) s;
                       if r < 0 then exec_bad sw pagetable sz None s
                       else do {
                         let s = tf_set p (tf_a 1) sp s;
                         last' \<leftarrow> path_last path 0 0;
                         let s = upd_proc p (\<lambda>q. q\<lparr>p_name := name_copy (p_name q) path last'\<rparr>) s;
                         let old = p_pagetable (procs s p);
                         let s = upd_proc p (\<lambda>q. q\<lparr>p_pagetable := pagetable, p_sz := sz\<rparr>) s;
                         let s = tf_set p tf_epc entry s;
                         let s = tf_set p tf_sp sp s;
                         s \<leftarrow> proc_freepagetable old oldsz s;
                         Some (int argc, s) } } } } }"

definition kexec :: "'z fw \<Rightarrow> bytes \<Rightarrow> bytes list \<Rightarrow> 'z files_scheme \<Rightarrow> (int \<times> 'z files_scheme) option" where
  "kexec sw path argv s =
     do { p \<leftarrow> myproc s;
          s \<leftarrow> begin_op sw s;
          (ip, s) \<leftarrow> namei sw path s;
          case ip of
            None \<Rightarrow> do { s \<leftarrow> end_op sw s; Some (-1, s) }
          | Some ip \<Rightarrow>
              do { s \<leftarrow> ilock sw ip s;
                   (r, elf, s) \<leftarrow> readi sw ip False 0 (\<lambda>_. 0) 0 64 s;
                   if r \<noteq> 64 then exec_bad sw 0 0 (Some ip) s
                   else if elf_magic elf \<noteq> ELF_MAGIC then exec_bad sw 0 0 (Some ip) s
                   else do {
                     (pagetable, s) \<leftarrow> proc_pagetable p s;
                     if pagetable = 0 then exec_bad sw 0 0 (Some ip) s
                     else do {
                       (ok, sz, s) \<leftarrow> load_segs sw pagetable ip (ucast (elf_phoff elf)) 0
                                        (unat (elf_phnum elf)) s;
                       if \<not> ok then exec_bad sw pagetable sz (Some ip) s
                       else do {
                         s \<leftarrow> iunlockput sw ip s;
                         s \<leftarrow> end_op sw s;
                         exec_stack sw path argv pagetable sz (elf_entry elf) s } } } } }"

section \<open>The first return to user space\<close>

record os = files +
  forkret_first :: bool

text \<open>The string \<open>"/init"\<close>.\<close>

definition init_path :: bytes where
  "init_path = (\<lambda>i. if i < 5 then of_char (''/init'' ! i) else 0)"

text \<open>The result is the \<open>satp\<close> that is passed to \<open>userret\<close>, which enters user space.\<close>

definition forkret :: "('z os_scheme \<Rightarrow> 'z os_scheme option) \<Rightarrow> 'z os_scheme \<Rightarrow> (uint64 \<times> 'z os_scheme) option" where
  "forkret sw s =
     do { p \<leftarrow> myproc s;
          s \<leftarrow> release (L_proc p) s;
          s \<leftarrow> (if forkret_first s then
                 do { s \<leftarrow> fsinit sw (uint ROOTDEV) s;
                      let s = s\<lparr>forkret_first := False\<rparr>;
                      (r, s) \<leftarrow> kexec sw init_path [init_path] s;
                      let s = tf_set p (tf_a 0) (word_of_int r) s;
                      if tf_get p (tf_a 0) s = -1 then None else Some s }
               else Some s);
          s \<leftarrow> prepare_return s;
          Some (MAKE_SATP (p_pagetable (procs s p)), s) }"

end
