(* ===== verification/Sysfile.thy ===== *)
theory Sysfile
  imports Sysargs Exec Fcntl
begin

text \<open>
  The file-system calls of \<^verbatim>\<open>kernel/sysfile.c\<close>. Paths are kernel buffers of \<open>MAXPATH\<close> bytes; the
  result is the 64-bit value that \<open>syscall\<close> stores in \<open>a0\<close>.
\<close>

section \<open>File descriptors\<close>

text \<open>\<open>None\<close> inside the result is the return value \<open>-1\<close>.\<close>

definition argfd :: "nat \<Rightarrow> 'z kern_scheme \<Rightarrow> (nat \<times> nat) option option" where
  "argfd n s =
     do { fd \<leftarrow> argint n s;
          p \<leftarrow> myproc s;
          if fd < 0 \<or> fd \<ge> int NOFILE then Some None
          else case p_ofile (procs s p) (nat fd) of
                 None \<Rightarrow> Some None
               | Some f \<Rightarrow> Some (Some (nat fd, f)) }"

definition fdalloc :: "nat \<Rightarrow> 'z kern_scheme \<Rightarrow> (int \<times> 'z kern_scheme) option" where
  "fdalloc f s =
     do { p \<leftarrow> myproc s;
          case find (\<lambda>fd. p_ofile (procs s p) fd = None) [0..<NOFILE] of
            Some fd \<Rightarrow> Some (int fd, upd_proc p (\<lambda>q. q\<lparr>p_ofile := (p_ofile q)(fd := Some f)\<rparr>) s)
          | None \<Rightarrow> Some (-1, s) }"

definition sys_dup :: "'z files_scheme \<Rightarrow> (uint64 \<times> 'z files_scheme) option" where
  "sys_dup s =
     do { a \<leftarrow> argfd 0 s;
          case a of
            None \<Rightarrow> Some (-1, s)
          | Some (_, f) \<Rightarrow>
              do { (fd, s) \<leftarrow> fdalloc f s;
                   if fd < 0 then Some (-1, s)
                   else do { (_, s) \<leftarrow> filedup f s; Some (word_of_int fd, s) } } }"

definition sys_read :: "'z fw \<Rightarrow> 'z files_scheme \<Rightarrow> (uint64 \<times> 'z files_scheme) option" where
  "sys_read sw s =
     do { p \<leftarrow> argaddr 1 s;
          n \<leftarrow> argint 2 s;
          a \<leftarrow> argfd 0 s;
          case a of
            None \<Rightarrow> Some (-1, s)
          | Some (_, f) \<Rightarrow> do { (r, s) \<leftarrow> fileread sw f p n s; Some (word_of_int r, s) } }"

definition sys_write :: "'z fw \<Rightarrow> 'z files_scheme \<Rightarrow> (uint64 \<times> 'z files_scheme) option" where
  "sys_write sw s =
     do { p \<leftarrow> argaddr 1 s;
          n \<leftarrow> argint 2 s;
          a \<leftarrow> argfd 0 s;
          case a of
            None \<Rightarrow> Some (-1, s)
          | Some (_, f) \<Rightarrow> do { (r, s) \<leftarrow> filewrite sw f p n s; Some (word_of_int r, s) } }"

definition clear_fd :: "nat \<Rightarrow> nat \<Rightarrow> 'z kern_scheme \<Rightarrow> 'z kern_scheme" where
  "clear_fd p fd s = upd_proc p (\<lambda>q. q\<lparr>p_ofile := (p_ofile q)(fd := None)\<rparr>) s"

definition sys_close :: "'z fw \<Rightarrow> 'z files_scheme \<Rightarrow> (uint64 \<times> 'z files_scheme) option" where
  "sys_close sw s =
     do { a \<leftarrow> argfd 0 s;
          case a of
            None \<Rightarrow> Some (-1, s)
          | Some (fd, f) \<Rightarrow>
              do { p \<leftarrow> myproc s;
                   let s = clear_fd p fd s;
                   s \<leftarrow> fileclose sw f s;
                   Some (0, s) } }"

definition sys_fstat :: "'z fw \<Rightarrow> 'z files_scheme \<Rightarrow> (uint64 \<times> 'z files_scheme) option" where
  "sys_fstat sw s =
     do { st \<leftarrow> argaddr 1 s;
          a \<leftarrow> argfd 0 s;
          case a of
            None \<Rightarrow> Some (-1, s)
          | Some (_, f) \<Rightarrow> do { (r, s) \<leftarrow> filestat sw f st s; Some (word_of_int r, s) } }"

section \<open>Links and directories\<close>

definition set_nlink :: "'z sw \<Rightarrow> nat \<Rightarrow> 16 word \<Rightarrow> 'z fsst_scheme \<Rightarrow> 'z fsst_scheme option" where
  "set_nlink sw ip v s = iupdate sw ip (upd_inode ip (\<lambda>x. x\<lparr>i_nlink := v\<rparr>) s)"

text \<open>\<open>bad:\<close> of \<open>sys_link\<close>.\<close>

definition link_bad :: "'z fw \<Rightarrow> nat \<Rightarrow> 'z files_scheme \<Rightarrow> (uint64 \<times> 'z files_scheme) option" where
  "link_bad sw ip s =
     do { s \<leftarrow> ilock sw ip s;
          s \<leftarrow> set_nlink sw ip (i_nlink (inodes s ip) - 1) s;
          s \<leftarrow> iunlockput sw ip s;
          s \<leftarrow> end_op sw s;
          Some (-1, s) }"

definition sys_link :: "'z fw \<Rightarrow> 'z files_scheme \<Rightarrow> (uint64 \<times> 'z files_scheme) option" where
  "sys_link sw s =
     do { (r, old, s) \<leftarrow> argstr 0 (int MAXPATH) s;
          if r < 0 then Some (-1, s)
          else do {
            (r, new, s) \<leftarrow> argstr 1 (int MAXPATH) s;
            if r < 0 then Some (-1, s)
            else do {
              s \<leftarrow> begin_op sw s;
              (ip, s) \<leftarrow> namei sw old s;
              case ip of
                None \<Rightarrow> do { s \<leftarrow> end_op sw s; Some (-1, s) }
              | Some ip \<Rightarrow>
                  do { s \<leftarrow> ilock sw ip s;
                       if i_type (inodes s ip) = T_DIR then
                         do { s \<leftarrow> iunlockput sw ip s; s \<leftarrow> end_op sw s; Some (-1, s) }
                       else do {
                         s \<leftarrow> set_nlink sw ip (i_nlink (inodes s ip) + 1) s;
                         s \<leftarrow> iunlock ip s;
                         (dp, name, s) \<leftarrow> nameiparent sw new (\<lambda>_. 0) s;
                         case dp of
                           None \<Rightarrow> link_bad sw ip s
                         | Some dp \<Rightarrow>
                             do { s \<leftarrow> ilock sw dp s;
                                  (r, s) \<leftarrow> (if i_dev (inodes s dp) \<noteq> i_dev (inodes s ip) then Some (-1, s)
                                           else dirlink sw dp name (i_inum (inodes s ip)) s);
                                  if r < 0 then do { s \<leftarrow> iunlockput sw dp s; link_bad sw ip s }
                                  else do {
                                    s \<leftarrow> iunlockput sw dp s;
                                    s \<leftarrow> iput sw ip s;
                                    s \<leftarrow> end_op sw s;
                                    Some (0, s) } } } } } } }"

partial_function (option) isdirempty_from :: "'z sw \<Rightarrow> nat \<Rightarrow> uint32 \<Rightarrow> 'z fsst_scheme \<Rightarrow>
    (bool \<times> 'z fsst_scheme) option" where
  "isdirempty_from sw dp off s =
     (if off < i_size (inodes s dp) then
        do { (r, de, s) \<leftarrow> readi sw dp False 0 (\<lambda>_. 0) off 16 s;
             if r \<noteq> 16 then None
             else if (ld16 de 0 :: 16 word) \<noteq> 0 then Some (False, s)
             else isdirempty_from sw dp (off + 16) s }
      else Some (True, s))"

definition isdirempty :: "'z sw \<Rightarrow> nat \<Rightarrow> 'z fsst_scheme \<Rightarrow> (bool \<times> 'z fsst_scheme) option" where
  "isdirempty sw dp s = isdirempty_from sw dp 32 s"

definition DOT :: bytes where "DOT = (\<lambda>_. 0)(0 := 46)"
definition DOTDOT :: bytes where "DOTDOT = (\<lambda>_. 0)(0 := 46, 1 := 46)"

text \<open>\<open>bad:\<close> of \<open>sys_unlink\<close>.\<close>

definition unlink_bad :: "'z fw \<Rightarrow> nat \<Rightarrow> 'z files_scheme \<Rightarrow> (uint64 \<times> 'z files_scheme) option" where
  "unlink_bad sw dp s =
     do { s \<leftarrow> iunlockput sw dp s;
          s \<leftarrow> end_op sw s;
          Some (-1, s) }"

definition sys_unlink :: "'z fw \<Rightarrow> 'z files_scheme \<Rightarrow> (uint64 \<times> 'z files_scheme) option" where
  "sys_unlink sw s =
     do { (r, path, s) \<leftarrow> argstr 0 (int MAXPATH) s;
          if r < 0 then Some (-1, s)
          else do {
            s \<leftarrow> begin_op sw s;
            (dp, name, s) \<leftarrow> nameiparent sw path (\<lambda>_. 0) s;
            case dp of
              None \<Rightarrow> do { s \<leftarrow> end_op sw s; Some (-1, s) }
            | Some dp \<Rightarrow>
                do { s \<leftarrow> ilock sw dp s;
                     if namecmp name 0 DOT 0 = 0 \<or> namecmp name 0 DOTDOT 0 = 0 then unlink_bad sw dp s
                     else do {
                       (r, s) \<leftarrow> dirlookup sw dp name s;
                       case r of
                         None \<Rightarrow> unlink_bad sw dp s
                       | Some (ip, off) \<Rightarrow>
                           do { s \<leftarrow> ilock sw ip s;
                                if sint (i_nlink (inodes s ip)) < 1 then None
                                else do {
                                  (full, s) \<leftarrow> (if i_type (inodes s ip) = T_DIR
                                     then do { (e, s) \<leftarrow> isdirempty sw ip s; Some (\<not> e, s) }
                                     else Some (False, s));
                                  if full then do { s \<leftarrow> iunlockput sw ip s; unlink_bad sw dp s }
                                  else do {
                                    (r, s) \<leftarrow> writei sw dp False 0 (\<lambda>_. 0) off 16 s;
                                    if r \<noteq> 16 then None
                                    else do {
                                      s \<leftarrow> (if i_type (inodes s ip) = T_DIR
                                           then set_nlink sw dp (i_nlink (inodes s dp) - 1) s
                                           else Some s);
                                      s \<leftarrow> iunlockput sw dp s;
                                      s \<leftarrow> set_nlink sw ip (i_nlink (inodes s ip) - 1) s;
                                      s \<leftarrow> iunlockput sw ip s;
                                      s \<leftarrow> end_op sw s;
                                      Some (0, s) } } } } } } } }"

section \<open>Creating and opening\<close>

text \<open>\<open>fail:\<close> of \<open>create\<close>.\<close>

definition create_fail :: "'z fw \<Rightarrow> nat \<Rightarrow> nat \<Rightarrow> 'z files_scheme \<Rightarrow> (nat option \<times> 'z files_scheme) option" where
  "create_fail sw dp ip s =
     do { s \<leftarrow> set_nlink sw ip 0 s;
          s \<leftarrow> iunlockput sw ip s;
          s \<leftarrow> iunlockput sw dp s;
          Some (None, s) }"

definition create :: "'z fw \<Rightarrow> bytes \<Rightarrow> 16 word \<Rightarrow> 16 word \<Rightarrow> 16 word \<Rightarrow> 'z files_scheme \<Rightarrow>
    (nat option \<times> 'z files_scheme) option" where
  "create sw path type major minor s =
     do { (dp, name, s) \<leftarrow> nameiparent sw path (\<lambda>_. 0) s;
          case dp of
            None \<Rightarrow> Some (None, s)
          | Some dp \<Rightarrow>
              do { s \<leftarrow> ilock sw dp s;
                   (r, s) \<leftarrow> dirlookup sw dp name s;
                   case r of
                     Some (ip, _) \<Rightarrow>
                       do { s \<leftarrow> iunlockput sw dp s;
                            s \<leftarrow> ilock sw ip s;
                            if type = T_FILE \<and> (i_type (inodes s ip) = T_FILE \<or> i_type (inodes s ip) = T_DEVICE)
                            then Some (Some ip, s)
                            else do { s \<leftarrow> iunlockput sw ip s; Some (None, s) } }
                   | None \<Rightarrow>
                       do { (r, s) \<leftarrow> ialloc sw (i_dev (inodes s dp)) type s;
                            case r of
                              None \<Rightarrow> do { s \<leftarrow> iunlockput sw dp s; Some (None, s) }
                            | Some ip \<Rightarrow>
                                do { s \<leftarrow> ilock sw ip s;
                                     let s = upd_inode ip (\<lambda>x. x\<lparr>i_major := major, i_minor := minor,
                                               i_nlink := 1\<rparr>) s;
                                     s \<leftarrow> iupdate sw ip s;
                                     (r, s) \<leftarrow> (if type = T_DIR then
                                         do { (r, s) \<leftarrow> dirlink sw ip DOT (i_inum (inodes s ip)) s;
                                              if r < 0 then Some (r, s)
                                              else dirlink sw ip DOTDOT (i_inum (inodes s dp)) s }
                                       else Some (0, s));
                                     if r < 0 then create_fail sw dp ip s
                                     else do {
                                       (r, s) \<leftarrow> dirlink sw dp name (i_inum (inodes s ip)) s;
                                       if r < 0 then create_fail sw dp ip s
                                       else do {
                                         s \<leftarrow> (if type = T_DIR
                                              then set_nlink sw dp (i_nlink (inodes s dp) + 1) s
                                              else Some s);
                                         s \<leftarrow> iunlockput sw dp s;
                                         Some (Some ip, s) } } } } } }"

definition flag :: "int \<Rightarrow> uint32 \<Rightarrow> bool" where
  "flag omode b \<longleftrightarrow> word_of_int omode AND b \<noteq> 0"

text \<open>An exit of \<open>sys_open\<close> with the inode locked.\<close>

definition open_fail :: "'z fw \<Rightarrow> nat \<Rightarrow> 'z files_scheme \<Rightarrow> (uint64 \<times> 'z files_scheme) option" where
  "open_fail sw ip s = do { s \<leftarrow> iunlockput sw ip s; s \<leftarrow> end_op sw s; Some (-1, s) }"

text \<open>The lookup or creation: the locked inode, or \<open>None\<close> when \<open>sys_open\<close> has failed and closed its transaction.\<close>

definition open_inode :: "'z fw \<Rightarrow> bytes \<Rightarrow> int \<Rightarrow> 'z files_scheme \<Rightarrow> (nat option \<times> 'z files_scheme) option" where
  "open_inode sw path omode s =
     (if flag omode O_CREATE then
        do { (ip, s) \<leftarrow> create sw path T_FILE 0 0 s;
             if ip = None then do { s \<leftarrow> end_op sw s; Some (None, s) } else Some (ip, s) }
      else do {
        (ip, s) \<leftarrow> namei sw path s;
        case ip of
          None \<Rightarrow> do { s \<leftarrow> end_op sw s; Some (None, s) }
        | Some ip \<Rightarrow>
            do { s \<leftarrow> ilock sw ip s;
                 if i_type (inodes s ip) = T_DIR \<and> omode \<noteq> 0 then
                   do { (_, s) \<leftarrow> open_fail sw ip s; Some (None, s) }
                 else Some (Some ip, s) } })"

definition sys_open :: "'z fw \<Rightarrow> 'z files_scheme \<Rightarrow> (uint64 \<times> 'z files_scheme) option" where
  "sys_open sw s =
     do { omode \<leftarrow> argint 1 s;
          (n, path, s) \<leftarrow> argstr 0 (int MAXPATH) s;
          if n < 0 then Some (-1, s)
          else do {
            s \<leftarrow> begin_op sw s;
            (ip, s) \<leftarrow> open_inode sw path omode s;
            case ip of
              None \<Rightarrow> Some (-1, s)
            | Some ip \<Rightarrow>
                let maj = i_major (inodes s ip) in
                if i_type (inodes s ip) = T_DEVICE \<and> (sint maj < 0 \<or> sint maj \<ge> NDEV) then open_fail sw ip s
                else do {
                  (f, s) \<leftarrow> filealloc s;
                  case f of
                    None \<Rightarrow> open_fail sw ip s
                  | Some f \<Rightarrow>
                      do { (fd, s) \<leftarrow> fdalloc f s;
                           if fd < 0 then do { s \<leftarrow> fileclose sw f s; open_fail sw ip s }
                           else do {
                             let s = (if i_type (inodes s ip) = T_DEVICE
                                      then upd_file f (\<lambda>x. x\<lparr>f_type := FD_DEVICE, f_major := i_major (inodes s ip)\<rparr>) s
                                      else upd_file f (\<lambda>x. x\<lparr>f_type := FD_INODE, f_off := 0\<rparr>) s);
                             let s = upd_file f (\<lambda>x. x\<lparr>f_ip := Some ip, f_readable := \<not> flag omode O_WRONLY,
                                       f_writable := (flag omode O_WRONLY \<or> flag omode O_RDWR)\<rparr>) s;
                             s \<leftarrow> (if flag omode O_TRUNC \<and> i_type (inodes s ip) = T_FILE then itrunc sw ip s
                                  else Some s);
                             s \<leftarrow> iunlock ip s;
                             s \<leftarrow> end_op sw s;
                             Some (word_of_int fd, s) } } } } }"

text \<open>The common end of \<open>sys_mkdir\<close> and \<open>sys_mknod\<close>.\<close>

definition made :: "'z fw \<Rightarrow> nat option \<Rightarrow> 'z files_scheme \<Rightarrow> (uint64 \<times> 'z files_scheme) option" where
  "made sw ip s =
     (case ip of
        None \<Rightarrow> do { s \<leftarrow> end_op sw s; Some (-1, s) }
      | Some ip \<Rightarrow> do { s \<leftarrow> iunlockput sw ip s; s \<leftarrow> end_op sw s; Some (0, s) })"

definition sys_mkdir :: "'z fw \<Rightarrow> 'z files_scheme \<Rightarrow> (uint64 \<times> 'z files_scheme) option" where
  "sys_mkdir sw s =
     do { s \<leftarrow> begin_op sw s;
          (r, path, s) \<leftarrow> argstr 0 (int MAXPATH) s;
          if r < 0 then made sw None s
          else do { (ip, s) \<leftarrow> create sw path T_DIR 0 0 s; made sw ip s } }"

definition sys_mknod :: "'z fw \<Rightarrow> 'z files_scheme \<Rightarrow> (uint64 \<times> 'z files_scheme) option" where
  "sys_mknod sw s =
     do { s \<leftarrow> begin_op sw s;
          major \<leftarrow> argint 1 s;
          minor \<leftarrow> argint 2 s;
          (r, path, s) \<leftarrow> argstr 0 (int MAXPATH) s;
          if r < 0 then made sw None s
          else do { (ip, s) \<leftarrow> create sw path T_DEVICE (word_of_int major) (word_of_int minor) s;
                    made sw ip s } }"

definition sys_chdir :: "'z fw \<Rightarrow> 'z files_scheme \<Rightarrow> (uint64 \<times> 'z files_scheme) option" where
  "sys_chdir sw s =
     do { p \<leftarrow> myproc s;
          s \<leftarrow> begin_op sw s;
          (r, path, s) \<leftarrow> argstr 0 (int MAXPATH) s;
          (ip, s) \<leftarrow> (if r < 0 then Some (None, s) else namei sw path s);
          case ip of
            None \<Rightarrow> do { s \<leftarrow> end_op sw s; Some (-1, s) }
          | Some ip \<Rightarrow>
              do { s \<leftarrow> ilock sw ip s;
                   if i_type (inodes s ip) \<noteq> T_DIR then
                     do { s \<leftarrow> iunlockput sw ip s; s \<leftarrow> end_op sw s; Some (-1, s) }
                   else do {
                     s \<leftarrow> iunlock ip s;
                     cwd \<leftarrow> p_cwd (procs s p);
                     s \<leftarrow> iput sw cwd s;
                     s \<leftarrow> end_op sw s;
                     Some (0, upd_proc p (\<lambda>q. q\<lparr>p_cwd := Some ip\<rparr>) s) } } }"

section \<open>Programs and pipes\<close>

text \<open>
  The loop of \<open>sys_exec\<close>: the pages that hold the argument strings, and whether it reached
  the null pointer. The last argument counts \<open>MAXARG - i\<close> down.
\<close>

fun exec_args :: "uint64 \<Rightarrow> nat \<Rightarrow> uint64 list \<Rightarrow> 'z files_scheme \<Rightarrow> (bool \<times> uint64 list \<times> 'z files_scheme) option" where
  "exec_args uargv 0 pages s = Some (False, pages, s)"
| "exec_args uargv (Suc k) pages s =
     do { (r, uarg, s) \<leftarrow> fetchaddr (uargv + 8 * of_nat (length pages)) s;
          if r < 0 then Some (False, pages, s)
          else if uarg = 0 then Some (True, pages, s)
          else do {
            (pa, s) \<leftarrow> kalloc s;
            if pa = 0 then Some (False, pages, s)
            else do {
              (r, d, s) \<leftarrow> fetchstr uarg (\<lambda>i. mem s (unat pa + i)) 4096 s;
              let s = s\<lparr>mem := blit (mem s) (unat pa) d 0 4096\<rparr>;
              if r < 0 then Some (False, pages @ [pa], s)
              else exec_args uargv k (pages @ [pa]) s } } }"

definition sys_exec :: "'z fw \<Rightarrow> 'z files_scheme \<Rightarrow> (uint64 \<times> 'z files_scheme) option" where
  "sys_exec sw s =
     do { uargv \<leftarrow> argaddr 1 s;
          (r, path, s) \<leftarrow> argstr 0 (int MAXPATH) s;
          if r < 0 then Some (-1, s)
          else do {
            (ok, pages, s) \<leftarrow> exec_args uargv MAXARG [] s;
            (ret, s) \<leftarrow> (if ok then kexec sw path (map (\<lambda>pa i. mem s (unat pa + i)) pages) s
                       else Some (-1, s));
            s \<leftarrow> for_each kfree pages s;
            Some (word_of_int ret, s) } }"

definition int_bytes :: "int \<Rightarrow> bytes" where
  "int_bytes n = st32 (\<lambda>_. 0) 0 (word_of_int n)"

definition close_both :: "'z fw \<Rightarrow> nat \<Rightarrow> nat \<Rightarrow> 'z files_scheme \<Rightarrow> (uint64 \<times> 'z files_scheme) option" where
  "close_both sw rf wfl s =
     do { s \<leftarrow> fileclose sw rf s;
          s \<leftarrow> fileclose sw wfl s;
          Some (-1, s) }"

definition sys_pipe :: "'z fw \<Rightarrow> 'z files_scheme \<Rightarrow> (uint64 \<times> 'z files_scheme) option" where
  "sys_pipe sw s =
     do { p \<leftarrow> myproc s;
          fdarray \<leftarrow> argaddr 0 s;
          (r, s) \<leftarrow> pipealloc sw s;
          case r of
            None \<Rightarrow> Some (-1, s)
          | Some (rf, wfl) \<Rightarrow>
              do { (fd0, s) \<leftarrow> fdalloc rf s;
                   if fd0 < 0 then close_both sw rf wfl s
                   else do {
                     (fd1, s) \<leftarrow> fdalloc wfl s;
                     if fd1 < 0 then close_both sw rf wfl (clear_fd p (nat fd0) s)
                     else do {
                       (r, s) \<leftarrow> copyout (p_pagetable (procs s p)) fdarray (int_bytes fd0) 0 4 s;
                       (r, s) \<leftarrow> (if r < 0 then Some (r, s)
                                else copyout (p_pagetable (procs s p)) (fdarray + 4) (int_bytes fd1) 0 4 s);
                       if r < 0
                       then close_both sw rf wfl (clear_fd p (nat fd1) (clear_fd p (nat fd0) s))
                       else Some (0, s) } } } }"

end
