(* ===== verification/Syscall.thy ===== *)
theory Syscall
  imports Sysproc Sysfile
begin

text \<open>
  The system-call dispatcher, \<open>syscall\<close> of \<^verbatim>\<open>kernel/syscall.c\<close>, and the entry from user space,
  \<open>usertrap\<close> of \<^verbatim>\<open>kernel/trap.c\<close>.
\<close>

section \<open>Dispatch\<close>

text \<open>The table \<open>syscalls\<close>, indexed by the numbers of \<^verbatim>\<open>kernel/syscall.h\<close>; \<open>None\<close> is an empty entry.\<close>

definition syscalls :: "'z fw \<Rightarrow> int \<Rightarrow> ('z files_scheme \<Rightarrow> (uint64 \<times> 'z files_scheme) option) option" where
  "syscalls sw num =
     (if num < 1 \<or> num > 27 then None
      else Some ([sys_fork, sys_exit sw, sys_wait sw, sys_pipe sw, sys_read sw, sys_kill, sys_exec sw,
        sys_fstat sw, sys_chdir sw, sys_dup, sys_getpid, sys_sbrk, sys_pause sw, sys_uptime, sys_open sw,
        sys_write sw, sys_mknod sw, sys_unlink sw, sys_link sw, sys_mkdir sw, sys_close sw, sys_hello,
        sys_kalloc1, sys_psx, sys_ps, sys_setpriority, sys_getpriority] ! nat (num - 1)))"

definition syscall :: "'z fw \<Rightarrow> 'z files_scheme \<Rightarrow> 'z files_scheme option" where
  "syscall sw s =
     do { p \<leftarrow> myproc s;
          let num = sint (ucast (tf_get p (tf_a 7) s) :: uint32);
          case syscalls sw num of
            Some f \<Rightarrow> do { (r, s) \<leftarrow> f s; Some (tf_set p (tf_a 0) r s) }
          | None \<Rightarrow>
              do { s \<leftarrow> kprintf ''%d %s: unknown sys call %d\<newline>''
                          [KInt (p_pid (procs s p)), KStr (cname (p_name (procs s p))), KInt num] s;
                   Some (tf_set p (tf_a 0) (-1) s) } }"

section \<open>Traps from user space\<close>

text \<open>
  \<open>rr\<close>, \<open>dev\<close> and \<open>sw\<close> are as for \<open>kerneltrap\<close>. The cause is handled first; the result is
  \<open>which_dev\<close>.
\<close>

definition usertrap_cause ::
  "('z files_scheme \<Rightarrow> (int \<times> 'z files_scheme) option) \<Rightarrow> 'z fw \<Rightarrow> nat \<Rightarrow> 'z files_scheme \<Rightarrow>
   (int \<times> 'z files_scheme) option" where
  "usertrap_cause dev sw p s =
     (if csr_scause (csr s) = 8 then
        do { (k, s) \<leftarrow> killed p s;
             s \<leftarrow> (if k \<noteq> 0 then kexit sw (-1) s else Some s);
             let s = tf_set p tf_epc (tf_get p tf_epc s + 4) s;
             let s = intr_on s;
             s \<leftarrow> syscall sw s;
             Some (0, s) }
      else do {
        (which_dev, s) \<leftarrow> dev s;
        if which_dev \<noteq> 0 then Some (which_dev, s)
        else do {
          (pg, s) \<leftarrow> (if csr_scause (csr s) = 15 \<or> csr_scause (csr s) = 13
             then vmfault (p_pagetable (procs s p)) (csr_stval (csr s)) s
             else Some (0, s));
          if pg \<noteq> 0 then Some (0, s)
          else do {
            s \<leftarrow> kprintf ''usertrap(): unexpected scause 0x%lx pid=%d\<newline>''
                   [KU64 (csr_scause (csr s)), KInt (p_pid (procs s p))] s;
            s \<leftarrow> kprintf ''            sepc=0x%lx stval=0x%lx\<newline>''
                   [KU64 (csr_sepc (csr s)), KU64 (csr_stval (csr s))] s;
            s \<leftarrow> setkilled p s;
            Some (0, s) } } })"

definition usertrap ::
  "bool \<Rightarrow> ('z files_scheme \<Rightarrow> (int \<times> 'z files_scheme) option) \<Rightarrow> 'z fw \<Rightarrow> 'z files_scheme \<Rightarrow>
   (uint64 \<times> 'z files_scheme) option" where
  "usertrap rr dev sw s =
     (if r_sstatus s AND SSTATUS_SPP \<noteq> 0 then None
      else do {
        let s = upd_csr (\<lambda>c. c\<lparr>csr_stvec := sym_kernelvec (syms s)\<rparr>) s;
        p \<leftarrow> myproc s;
        let s = tf_set p tf_epc (csr_sepc (csr s)) s;
        (which_dev, s) \<leftarrow> usertrap_cause dev sw p s;
        (k, s) \<leftarrow> killed p s;
        s \<leftarrow> (if k \<noteq> 0 then kexit sw (-1) s else Some s);
        s \<leftarrow> (if which_dev = 2 \<and> rr then yield sw s else Some s);
        s \<leftarrow> prepare_return s;
        Some (MAKE_SATP (p_pagetable (procs s p)), s) })"

end
