(* ===== verification/Accounting.thy ===== *)
theory Accounting
  imports Sysproc
begin

text \<open>
  The scheduling fields over the life of the system. \<open>priority\<close>, \<open>wtime\<close> and \<open>starving\<close> are
  assigned in five places: \<open>allocproc\<close>, \<open>clockintr\<close> (with \<open>aging_update\<close> and
  \<open>detect_starving\<close>), the selection of a process under PBS, which clears \<open>starving\<close>, and
  \<open>sys_setpriority\<close>. The step system below takes these steps in any order and number, and any
  other step that leaves the three fields alone.
\<close>

section \<open>Steps\<close>




section \<open>Invariant\<close>











end
