(* ===== verification/Bcache.thy ===== *)
theory Bcache
  imports Bio
begin

text \<open>
  The buffer cache of \<^verbatim>\<open>kernel/bio.c\<close> as its clients see it: the circular list through
  \<open>next\<close> and \<open>prev\<close> holds every buffer once, no two buffers stand for the same block, a block whose
  contents are not on disk is referenced, and \<open>bread\<close>, \<open>bwrite\<close>, \<open>bunpin\<close> and \<open>brelse\<close> keep this.
  The statements are about a process that runs alone, so no lock is contended and the switch
  parameter is never used. The interface \<open>block_cache\<close> collects what the log relies on; the
  buffer cache is its interpretation.
\<close>

section \<open>The list of buffers\<close>

text \<open>Consecutive elements are linked both ways.\<close>

abbreviation links :: "(nat \<Rightarrow> buf) \<Rightarrow> nat list \<Rightarrow> bool" where
  "links f \<equiv> successively (\<lambda>x y. b_next (f x) = y \<and> b_prev (f y) = x)"

definition lru_list :: "(nat \<Rightarrow> buf) \<Rightarrow> nat list \<Rightarrow> bool" where
  "lru_list f L \<longleftrightarrow> distinct L \<and> set L = {..<NBUF} \<and> links f (HEAD # L @ [HEAD])"

lemma links_frame:
  "links f xs \<Longrightarrow> (\<And>x. x \<in> set (butlast xs) \<Longrightarrow> b_next (g x) = b_next (f x)) \<Longrightarrow>
   (\<And>x. x \<in> set (tl xs) \<Longrightarrow> b_prev (g x) = b_prev (f x)) \<Longrightarrow> links g xs"
proof (induction xs rule: induct_list012)
  case (3 x y zs)
  then have "links g (y # zs)" by (cases zs) auto
  with 3 show ?case by simp
qed simp_all

lemma links_cut:
  assumes "links f (h # A @ b # B @ [h])" "distinct (h # A @ b # B)"
  shows "b_prev (f b) = last (h # A)" "b_next (f b) = hd (B @ [h])" "links f (h # A)" "links f (B @ [h])"
proof -
  have "links f ((h # A) @ (b # B @ [h]))" using assms(1) by simp
  then have "links f (h # A)" "links f (b # B @ [h])" "b_prev (f b) = last (h # A)"
    by (simp_all only: successively_append_iff) simp_all
  then show "b_prev (f b) = last (h # A)" "b_next (f b) = hd (B @ [h])" "links f (h # A)" "links f (B @ [h])"
    by (simp_all add: successively_Cons [of _ b])
qed

lemma links_unlink:
  assumes "links f (h # A @ b # B @ [h])" "distinct (h # A @ b # B)"
    "\<And>x. b_next (g x) = (if x = b_prev (f b) then b_next (f b) else b_next (f x))"
    "\<And>x. b_prev (g x) = (if x = b_next (f b) then b_prev (f b) else b_prev (f x))"
  shows "links g (h # (A @ B) @ [h])"
proof -
  note c = links_cut [OF assms(1,2)]
  have "last (h # A) \<notin> set (butlast (h # A))" 
    using assms(2) append_butlast_last_id [of "h # A"] distinct_append [of "butlast (h # A)" "[last (h # A)]"] by auto
  moreover have "hd (B @ [h]) \<notin> set A" using assms(2) by (cases B) auto
  ultimately have "links g (h # A)"
    using c(3) by (rule_tac links_frame [OF c(3)]) (auto simp: assms(3,4) c(1,2))
  moreover have "last (h # A) \<notin> set B" using assms(2) last_in_set [of "h # A"] by auto
  then have "links g (B @ [h])"
    using assms(2) by (intro links_frame [OF c(4)]) (cases B, auto simp: assms(3,4) c(1,2))+
  moreover have "b_next (g (last (h # A))) = hd (B @ [h])" "b_prev (g (hd (B @ [h]))) = last (h # A)"
    by (simp_all add: assms(3,4) c(1,2))
  ultimately show ?thesis
    using successively_append_iff [of "\<lambda>x y. b_next (g x) = y \<and> b_prev (g y) = x" "h # A" "B @ [h]"] by simp
qed

lemma links_insert:
  assumes "links f (h # M @ [h])" "distinct (h # M)" "b \<notin> set (h # M)"
    "\<And>x. b_next (g x) = (if x = h then b else if x = b then b_next (f h) else b_next (f x))"
    "\<And>x. b_prev (g x) = (if x = b_next (f h) then b else if x = b then h else b_prev (f x))"
  shows "links g (h # b # M @ [h])"
proof -
  have n: "b_next (f h) = hd (M @ [h])" using assms(1) by (simp add: successively_Cons)
  have "links f (M @ [h])" using assms(1) by (simp add: successively_Cons)
  then have "links g (M @ [h])"
    using assms(2,3) by (rule_tac links_frame) (cases M, auto simp: assms(4,5) n)+
  moreover have "b \<noteq> hd (M @ [h])" using assms(3) by (cases M) auto
  ultimately show ?thesis using assms(3) by (simp add: successively_Cons assms(4,5) n)
qed

lemma bget_find_eq:
  "links (bufs s) (xs @ [HEAD]) \<Longrightarrow> HEAD \<notin> set xs \<Longrightarrow>
   bget_find dev n (hd (xs @ [HEAD])) s = Some (find (\<lambda>b. b_dev (bufs s b) = dev \<and> b_blockno (bufs s b) = n) xs)"
proof (induction xs)
  case Nil
  show ?case by (simp add: bget_find.simps)
next
  case (Cons x xs)
  then have "b_next (bufs s x) = hd (xs @ [HEAD])" "links (bufs s) (xs @ [HEAD])"
    by (simp_all add: successively_Cons)
  with Cons show ?case by (subst bget_find.simps) auto
qed

lemma bget_lru_eq:
  "links (bufs s) (HEAD # xs) \<Longrightarrow> HEAD \<notin> set xs \<Longrightarrow>
   bget_lru (last (HEAD # xs)) s = Some (find (\<lambda>b. b_refcnt (bufs s b) = 0) (rev xs))"
proof (induction xs rule: rev_induct)
  case Nil
  show ?case by (simp add: bget_lru.simps)
next
  case (snoc x xs)
  have "links (bufs s) ((HEAD # xs) @ [x])" using snoc.prems by simp
  then have "b_prev (bufs s x) = last (HEAD # xs)" "links (bufs s) (HEAD # xs)"
    by (simp_all only: successively_append_iff) simp_all
  with snoc show ?case by (subst bget_lru.simps) auto
qed

lemma lru_ends:
  assumes "lru_list (bufs s) L"
  shows "b_next (bufs s HEAD) = hd (L @ [HEAD])" "b_prev (bufs s HEAD) = last (HEAD # L)"
    "links (bufs s) (L @ [HEAD])" "links (bufs s) (HEAD # L)" "HEAD \<notin> set L"
proof -
  show "HEAD \<notin> set L" using assms by (simp add: lru_list_def)
  have "links (bufs s) ((HEAD # L) @ [HEAD])" using assms by (simp add: lru_list_def)
  then show "b_prev (bufs s HEAD) = last (HEAD # L)" "links (bufs s) (HEAD # L)"
    by (simp_all only: successively_append_iff) simp_all
  show "b_next (bufs s HEAD) = hd (L @ [HEAD])" "links (bufs s) (L @ [HEAD])"
    using assms by (simp_all add: lru_list_def successively_Cons)
qed

lemma bget_search:
  assumes "lru_list (bufs s) L"
  shows "bget_find dev n (b_next (bufs s HEAD)) s = Some (find (\<lambda>b. b_dev (bufs s b) = dev \<and> b_blockno (bufs s b) = n) L)"
    "bget_lru (b_prev (bufs s HEAD)) s = Some (find (\<lambda>b. b_refcnt (bufs s b) = 0) (rev L))"
  unfolding lru_ends(1,2) [OF assms]
  using bget_find_eq [OF lru_ends(3,5) [OF assms]] bget_lru_eq [OF lru_ends(4,5) [OF assms]] by simp_all

text \<open>The assignments of \<open>brelse\<close> move a buffer to the front.\<close>

definition unlinked :: "nat \<Rightarrow> 'z bio_scheme \<Rightarrow> 'z bio_scheme" where
  "unlinked b s =
     (let s = upd_buf (b_next (bufs s b)) (\<lambda>x. x\<lparr>b_prev := b_prev (bufs s b)\<rparr>) s
      in upd_buf (b_prev (bufs s b)) (\<lambda>x. x\<lparr>b_next := b_next (bufs s b)\<rparr>) s)"

lemma lru_split:
  assumes "lru_list f L" "b < NBUF"
  obtains A B where "L = A @ b # B" "links f (HEAD # A @ b # B @ [HEAD])" "distinct (HEAD # A @ b # B)"
proof -
  have "b \<in> set L" using assms by (simp add: lru_list_def)
  then obtain A B where L: "L = A @ b # B" by (meson split_list)
  show thesis
  proof (rule that [OF L])
    show "links f (HEAD # A @ b # B @ [HEAD])" using assms(1) L by (simp add: lru_list_def)
    have "NBUF \<notin> set L" "distinct L" using assms(1) by (simp_all add: lru_list_def)
    then show "distinct (HEAD # A @ b # B)" by (simp add: L)
  qed
qed

lemma move_front:
  assumes "lru_list (bufs s) L" "b < NBUF"
  shows "lru_list (bufs (link_front b (unlinked b s))) (b # remove1 b L)"
proof -
  obtain A B where L: "L = A @ b # B" "links (bufs s) (HEAD # A @ b # B @ [HEAD])" "distinct (HEAD # A @ b # B)"
    using lru_split [OF assms] .
  let ?u = "unlinked b s"
  have nb: "b_prev (bufs s b) \<noteq> b" "b_next (bufs s b) \<noteq> b"
    using links_cut(1,2) [OF L(2,3)] L(3) last_in_set [of "HEAD # A"] by (cases B; auto)+
  have u: "links (bufs ?u) (HEAD # (A @ B) @ [HEAD])"
    by (rule links_unlink [OF L(2,3)]) (use nb in \<open>auto simp: unlinked_def Let_def upd_buf_def\<close>)
  have h: "b_next (bufs ?u HEAD) = hd ((A @ B) @ [HEAD])" using u by (simp add: successively_Cons)
  have "links (bufs (link_front b ?u)) (HEAD # b # (A @ B) @ [HEAD])"
    by (rule links_insert [OF u]) (use L(3) h in \<open>auto simp: link_front_def Let_def upd_buf_def\<close>)
  then show ?thesis using assms(1) L(1,3) by (auto simp: lru_list_def remove1_append)
qed

lemma find_SomeD: "find P xs = Some x \<Longrightarrow> x \<in> set xs \<and> P x"
  by (induction xs) (auto split: if_splits)

section \<open>Sleep locks that are free\<close>

lemma acquiresleep_free:
  assumes "\<not> sl_locked (slocks s lk)" "L_sleep lk \<notin> set (held s)" "myproc s = Some p"
  shows "acquiresleep sw lk s = Some (upd_slock lk \<lparr>sl_locked = True, sl_pid = p_pid (procs s p)\<rparr> s)"
  using assms by (simp add: acquiresleep_def acquire_free acquiresleep_wait.simps upd_slock_def
      release_head myproc_def cpuid_def)

lemma holdingsleep_own:
  assumes "sl_locked (slocks s lk)" "L_sleep lk \<notin> set (held s)" "myproc s = Some p"
    "sl_pid (slocks s lk) = p_pid (procs s p)"
  shows "holdingsleep lk s = Some (True, s)"
  using assms by (simp add: holdingsleep_def acquire_free release_head myproc_def cpuid_def)

lemma releasesleep_eq:
  assumes "L_sleep lk \<notin> set (held s)" "others_free s"
  shows "releasesleep lk s = Some (s\<lparr>slocks := (slocks s)(lk := \<lparr>sl_locked = False, sl_pid = 0\<rparr>),
    procs := (\<lambda>p. if p < NPROC then woken (Some (C_sleeplock lk)) (myproc s) p (procs s p) else procs s p)\<rparr>)"
proof -
  let ?s = "upd_slock lk \<lparr>sl_locked = False, sl_pid = 0\<rparr> (s\<lparr>held := L_sleep lk # held s\<rparr>)"
  have "others_free ?s" using assms(2) by (simp add: others_free_def myproc_def cpuid_def upd_slock_def)
  from wakeup_eq [OF this] show ?thesis
    using assms(1) by (simp add: releasesleep_def acquire_free release_head upd_slock_def myproc_def cpuid_def cong: if_cong)
qed

section \<open>The contents of the cache\<close>

text \<open>
  \<open>V\<close> is the contents of every block of device \<open>dev\<close> as the kernel sees it. The buffers in
  \<open>B\<close> are locked by the running process, the buffers in \<open>P\<close> are pinned by the log. A block
  whose contents are not on disk yet is in one of these.
\<close>

definition cache_ok :: "uint32 \<Rightarrow> (uint32 \<Rightarrow> bytes) \<Rightarrow> nat set \<Rightarrow> nat set \<Rightarrow> 'z bio_scheme \<Rightarrow> bool" where
  "cache_ok dev V B P s \<longleftrightarrow>
     (\<exists>L. lru_list (bufs s) L) \<and> B \<subseteq> {..<NBUF} \<and> P \<subseteq> {..<NBUF} \<and>
     (\<forall>b<NBUF. b_refcnt (bufs s b) = of_bool (b \<in> B) + of_bool (b \<in> P)) \<and>
     (\<forall>b<NBUF. b_valid (bufs s b) \<and> b_dev (bufs s b) = dev \<longrightarrow> block_of (b_data (bufs s b)) = V (b_blockno (bufs s b))) \<and>
     (\<forall>b \<in> B \<union> P. b_valid (bufs s b) \<and> b_dev (bufs s b) = dev) \<and>
     (\<forall>b<NBUF. \<forall>c<NBUF. b_dev (bufs s b) = dev \<and> b_dev (bufs s c) = dev \<and> b_blockno (bufs s b) = b_blockno (bufs s c) \<longrightarrow> b = c) \<and>
     (\<forall>n. disk s n = V n \<or> (\<exists>b \<in> B \<union> P. b_blockno (bufs s b) = n)) \<and>
     (\<forall>n. block_of (V n) = V n)"

definition locks_ok :: "nat set \<Rightarrow> 'z bio_scheme \<Rightarrow> bool" where
  "locks_ok B s \<longleftrightarrow> others_free s \<and> L_bcache \<notin> set (held s) \<and> (\<forall>lk. L_sleep lk \<notin> set (held s)) \<and>
     (\<exists>p. myproc s = Some p \<and> (\<forall>b<NBUF. sl_locked (slocks s (SL_buf b)) = (b \<in> B) \<and>
        (b \<in> B \<longrightarrow> sl_pid (slocks s (SL_buf b)) = p_pid (procs s p))))"

definition brest :: "'z bio_scheme \<Rightarrow> 'z bio_scheme" where
  "brest s = s\<lparr>klog := [], procs := (\<lambda>_. proc0), slocks := (\<lambda>_. \<lparr>sl_locked = False, sl_pid = 0\<rparr>),
     bufs := bufs bio0, disk := (\<lambda>_ _. 0), disk_writes := []\<rparr>"

lemma upd_buf_fields [simp]:
  "held (upd_buf b f s) = held s" "disk (upd_buf b f s) = disk s" "slocks (upd_buf b f s) = slocks s"
  "disk_writes (upd_buf b f s) = disk_writes s" "bufs (upd_buf b f s) = (bufs s)(b := f (bufs s b))"
  "cpu_proc (upd_buf b f s) = cpu_proc s" "procs (upd_buf b f s) = procs s" "hartid (upd_buf b f s) = hartid s"
  by (simp_all add: upd_buf_def)

lemma locks_ok_upd_buf [simp]: "locks_ok B (upd_buf b f s) = locks_ok B s"
  by (simp add: locks_ok_def others_free_def myproc_def cpuid_def)

lemma brest_upd_buf [simp]: "brest (upd_buf b f s) = brest s"
  by (simp add: brest_def upd_buf_def)

text \<open>Taking the lock of a buffer once the list lock is released.\<close>

lemma lock_buf:
  assumes "locks_ok B s" "b \<notin> B" "b < NBUF"
  obtains sl where "acquiresleep sw (SL_buf b) s = Some (s\<lparr>slocks := sl\<rparr>)" "locks_ok (insert b B) (s\<lparr>slocks := sl\<rparr>)"
proof -
  obtain p where p: "myproc s = Some p" "\<forall>c<NBUF. sl_locked (slocks s (SL_buf c)) = (c \<in> B) \<and>
        (c \<in> B \<longrightarrow> sl_pid (slocks s (SL_buf c)) = p_pid (procs s p))" using assms(1) by (auto simp: locks_ok_def)
  let ?t = "s\<lparr>slocks := (slocks s)(SL_buf b := \<lparr>sl_locked = True, sl_pid = p_pid (procs s p)\<rparr>)\<rparr>"
  show thesis
  proof (rule that)
    show "acquiresleep sw (SL_buf b) s = Some ?t"
      using assms p acquiresleep_free [of s "SL_buf b" p sw] by (auto simp: locks_ok_def upd_slock_def)
    show "locks_ok (insert b B) ?t"
      using assms p by (auto simp: locks_ok_def others_free_def myproc_def cpuid_def)
  qed
qed

lemma cache_okD:
  assumes "cache_ok dev V B P s"
  shows "\<exists>L. lru_list (bufs s) L" "B \<subseteq> {..<NBUF}" "P \<subseteq> {..<NBUF}"
    "b < NBUF \<Longrightarrow> b_refcnt (bufs s b) = of_bool (b \<in> B) + of_bool (b \<in> P)"
    "b < NBUF \<Longrightarrow> b_valid (bufs s b) \<Longrightarrow> b_dev (bufs s b) = dev \<Longrightarrow> block_of (b_data (bufs s b)) = V (b_blockno (bufs s b))"
    "b \<in> B \<union> P \<Longrightarrow> b < NBUF" "b \<in> B \<union> P \<Longrightarrow> b_valid (bufs s b)" "b \<in> B \<union> P \<Longrightarrow> b_dev (bufs s b) = dev"
    "b < NBUF \<Longrightarrow> c < NBUF \<Longrightarrow> b_dev (bufs s b) = dev \<Longrightarrow> b_dev (bufs s c) = dev \<Longrightarrow>
     b_blockno (bufs s b) = b_blockno (bufs s c) \<Longrightarrow> b = c"
    "disk s n = V n \<or> (\<exists>b \<in> B \<union> P. b_blockno (bufs s b) = n)" "block_of (V n) = V n"
  using assms unfolding cache_ok_def by (auto; fail)+

lemma cache_okI:
  assumes "lru_list (bufs s) L" "B \<subseteq> {..<NBUF}" "P \<subseteq> {..<NBUF}"
    "\<And>b. b < NBUF \<Longrightarrow> b_refcnt (bufs s b) = of_bool (b \<in> B) + of_bool (b \<in> P)"
    "\<And>b. b < NBUF \<Longrightarrow> b_valid (bufs s b) \<Longrightarrow> b_dev (bufs s b) = dev \<Longrightarrow> block_of (b_data (bufs s b)) = V (b_blockno (bufs s b))"
    "\<And>b. b \<in> B \<union> P \<Longrightarrow> b_valid (bufs s b) \<and> b_dev (bufs s b) = dev"
    "\<And>b c. b < NBUF \<Longrightarrow> c < NBUF \<Longrightarrow> b_dev (bufs s b) = dev \<Longrightarrow> b_dev (bufs s c) = dev \<Longrightarrow>
       b_blockno (bufs s b) = b_blockno (bufs s c) \<Longrightarrow> b = c"
    "\<And>n. disk s n = V n \<or> (\<exists>b \<in> B \<union> P. b_blockno (bufs s b) = n)" "\<And>n. block_of (V n) = V n"
  shows "cache_ok dev V B P s"
  unfolding cache_ok_def
  by (intro conjI allI impI ballI exI [of _ L]) (use assms in \<open>simp_all only: Un_iff simp_thms\<close>)

lemma refcnt_zero: "of_bool x + of_bool y = (0 :: uint32) \<longleftrightarrow> \<not> x \<and> \<not> y"
  by (cases x; cases y) simp_all

text \<open>What \<open>bget\<close> hands out: the buffer of the block, locked, with one more reference.\<close>

definition buf_got :: "uint32 \<Rightarrow> uint32 \<Rightarrow> nat set \<Rightarrow> nat set \<Rightarrow> 'z bio_scheme \<Rightarrow> nat \<Rightarrow> 'z bio_scheme \<Rightarrow> bool" where
  "buf_got dev n B P s b t \<longleftrightarrow> b < NBUF \<and> b \<notin> B \<and> locks_ok (insert b B) t \<and>
     (\<exists>sl x. t = s\<lparr>slocks := sl, bufs := (bufs s)(b := x)\<rparr>) \<and>
     b_dev (bufs t b) = dev \<and> b_blockno (bufs t b) = n \<and> b_refcnt (bufs t b) = 1 + of_bool (b \<in> P) \<and>
     b_next (bufs t b) = b_next (bufs s b) \<and> b_prev (bufs t b) = b_prev (bufs s b) \<and>
     (b_valid (bufs t b) \<longrightarrow> b_valid (bufs s b) \<and> b_dev (bufs s b) = dev \<and> b_blockno (bufs s b) = n \<and>
        b_data (bufs t b) = b_data (bufs s b)) \<and>
     (b \<in> P \<longrightarrow> b_valid (bufs t b)) \<and>
     (\<forall>c<NBUF. c \<noteq> b \<longrightarrow> \<not> (b_dev (bufs s c) = dev \<and> b_blockno (bufs s c) = n))"

lemma bget_hit:
  assumes c: "cache_ok dev V B P s" and k: "locks_ok B s" and b: "b < NBUF" "b \<notin> B" "b_dev (bufs s b) = dev" "b_blockno (bufs s b) = n"
    and find: "bget_find dev n (b_next (bufs s HEAD)) (s\<lparr>held := L_bcache # held s\<rparr>) = Some (Some b)"
  shows "\<exists>t. bget sw dev n s = Some (b, t) \<and> buf_got dev n B P s b t"
proof -
  let ?u = "upd_buf b (\<lambda>x. x\<lparr>b_refcnt := b_refcnt x + 1\<rparr>) s"
  have a: "L_bcache \<notin> set (held s)" using k by (simp add: locks_ok_def)
  have "locks_ok B ?u" using k by simp
  then obtain sl where t: "acquiresleep sw (SL_buf b) ?u = Some (?u\<lparr>slocks := sl\<rparr>)" "locks_ok (insert b B) (?u\<lparr>slocks := sl\<rparr>)"
    using b(1,2) by (rule_tac lock_buf)
  let ?t = "s\<lparr>slocks := sl, bufs := (bufs s)(b := (bufs s b)\<lparr>b_refcnt := b_refcnt (bufs s b) + 1\<rparr>)\<rparr>"
  have e: "?u\<lparr>slocks := sl\<rparr> = ?t" by (simp add: upd_buf_def)
  have "bget sw dev n s = Some (b, ?t)"
    using t(1) find e by (simp add: bget_def acquire_free [OF a] release_head upd_buf_def)
  moreover have "\<forall>c<NBUF. c \<noteq> b \<longrightarrow> \<not> (b_dev (bufs s c) = dev \<and> b_blockno (bufs s c) = n)"
    using b cache_okD(9) [OF c] by blast
  ultimately show ?thesis using b t(2) cache_okD(4,7) [OF c, of b] unfolding e buf_got_def by auto
qed

lemma bget_miss:
  assumes c: "cache_ok dev V B P s" and k: "locks_ok B s" and b: "b < NBUF" "b_refcnt (bufs s b) = 0"
    and none: "\<forall>c<NBUF. \<not> (b_dev (bufs s c) = dev \<and> b_blockno (bufs s c) = n)"
    and find: "bget_find dev n (b_next (bufs s HEAD)) (s\<lparr>held := L_bcache # held s\<rparr>) = Some None"
      "bget_lru (b_prev (bufs s HEAD)) (s\<lparr>held := L_bcache # held s\<rparr>) = Some (Some b)"
  shows "\<exists>t. bget sw dev n s = Some (b, t) \<and> buf_got dev n B P s b t"
proof -
  let ?u = "upd_buf b (\<lambda>x. x\<lparr>b_dev := dev, b_blockno := n, b_valid := False, b_refcnt := 1\<rparr>) s"
  have a: "L_bcache \<notin> set (held s)" using k by (simp add: locks_ok_def)
  have b': "b \<notin> B" "b \<notin> P" using cache_okD(4) [OF c b(1)] b(2) by (simp_all add: refcnt_zero)
  have "locks_ok B ?u" using k by simp
  then obtain sl where t: "acquiresleep sw (SL_buf b) ?u = Some (?u\<lparr>slocks := sl\<rparr>)" "locks_ok (insert b B) (?u\<lparr>slocks := sl\<rparr>)"
    using b(1) b'(1) by (rule_tac lock_buf)
  let ?t = "s\<lparr>slocks := sl, bufs := (bufs s)(b := (bufs s b)\<lparr>b_dev := dev, b_blockno := n, b_valid := False, b_refcnt := 1\<rparr>)\<rparr>"
  have e: "?u\<lparr>slocks := sl\<rparr> = ?t" by (simp add: upd_buf_def)
  have "bget sw dev n s = Some (b, ?t)"
    using t(1) find e by (simp add: bget_def acquire_free [OF a] release_head upd_buf_def)
  then show ?thesis using b(1) b' t(2) none unfolding e buf_got_def by auto
qed

lemma unused_buf:
  assumes c: "cache_ok dev V B P s" and "lru_list (bufs s) L" and room: "card (B \<union> P) < NBUF"
  obtains b where "find (\<lambda>b. b_refcnt (bufs s b) = 0) (rev L) = Some b" "b < NBUF" "b_refcnt (bufs s b) = 0"
proof -
  have setL: "set L = {..<NBUF}" using assms(2) by (simp add: lru_list_def)
  have fin: "finite (B \<union> P)" using cache_okD(2,3) [OF c] by (auto intro: finite_subset)
  have "\<not> {..<NBUF} \<subseteq> B \<union> P" using card_mono [OF fin, of "{..<NBUF}"] room by auto
  then obtain d where "d \<in> set (rev L)" "b_refcnt (bufs s d) = 0"
    using setL cache_okD(4) [OF c] by (auto simp: refcnt_zero)
  then obtain b where f: "find (\<lambda>b. b_refcnt (bufs s b) = 0) (rev L) = Some b"
    by (cases "find (\<lambda>b. b_refcnt (bufs s b) = 0) (rev L)") (auto simp: find_None_iff)
  then have "b_refcnt (bufs s b) = 0" "b \<in> set (rev L)" using find_SomeD by fastforce+
  then show thesis using f setL by (intro that) auto
qed

lemma bget_ok:
  assumes c: "cache_ok dev V B P s" and k: "locks_ok B s" and fresh: "\<forall>b \<in> B. b_blockno (bufs s b) \<noteq> n"
    and room: "card (B \<union> P) < NBUF"
  obtains b t where "bget sw dev n s = Some (b, t)" "buf_got dev n B P s b t"
proof -
  obtain L where L: "lru_list (bufs s) L" using cache_okD(1) [OF c] by blast
  then have setL: "set L = {..<NBUF}" by (simp add: lru_list_def)
  let ?key = "\<lambda>b. b_dev (bufs s b) = dev \<and> b_blockno (bufs s b) = n"
  let ?h = "s\<lparr>held := L_bcache # held s\<rparr>"
  have "lru_list (bufs ?h) L" using L by simp
  note search = bget_search [OF this]
  show thesis
  proof (cases "find ?key L")
    case (Some b)
    then have "b \<in> set L" "?key b" using find_SomeD by fastforce+
    moreover from this have "b \<notin> B" using fresh by blast
    ultimately show thesis
      using bget_hit [OF c k, of b n sw] search(1) [of dev n] Some setL that by auto
  next
    case None
    obtain b where "find (\<lambda>b. b_refcnt (bufs s b) = 0) (rev L) = Some b" "b < NBUF" "b_refcnt (bufs s b) = 0"
      using unused_buf [OF c L room] .
    moreover have "\<forall>c<NBUF. \<not> ?key c" using None setL by (auto simp: find_None_iff)
    ultimately show thesis using bget_miss [OF c k, of b n sw] search(1) [of dev n] search(2) None that by auto
  qed
qed

lemma lru_list_cong:
  "(\<And>x. b_next (g x) = b_next (f x)) \<Longrightarrow> (\<And>x. b_prev (g x) = b_prev (f x)) \<Longrightarrow> lru_list g L = lru_list f L"
  by (simp add: lru_list_def)

lemma cache_ok_enter:
  assumes c: "cache_ok dev V B P s" and b: "b < NBUF" "b \<notin> B"
    and x: "b_next x = b_next (bufs s b)" "b_prev x = b_prev (bufs s b)" "b_dev x = dev" "b_blockno x = n" "b_valid x"
      "b_refcnt x = 1 + of_bool (b \<in> P)" "block_of (b_data x) = V n"
    and P: "b \<in> P \<longrightarrow> b_blockno (bufs s b) = n"
    and u: "\<forall>c<NBUF. c \<noteq> b \<longrightarrow> \<not> (b_dev (bufs s c) = dev \<and> b_blockno (bufs s c) = n)"
    and t: "bufs t = (bufs s)(b := x)" "disk t = disk s"
  shows "cache_ok dev V (insert b B) P t"
proof -
  note d = cache_okD [OF c]
  obtain L where "lru_list (bufs s) L" using d(1) by blast
  then have L: "lru_list (bufs t) L" using x(1,2) lru_list_cong [of "bufs t" "bufs s" L] by (simp add: t)
  have other: "b_blockno (bufs s e) \<noteq> n" if "e < NBUF" "e \<noteq> b" "b_dev (bufs s e) = dev" for e
    using u that by blast
  show ?thesis
  proof (rule cache_okI [OF L])
    show "insert b B \<subseteq> {..<NBUF}" "P \<subseteq> {..<NBUF}" using d(2,3) b by auto
    show "b_refcnt (bufs t e) = of_bool (e \<in> insert b B) + of_bool (e \<in> P)" if "e < NBUF" for e
      using d(4) [OF that] x(6) by (simp add: t)
    show "block_of (b_data (bufs t e)) = V (b_blockno (bufs t e))"
      if "e < NBUF" "b_valid (bufs t e)" "b_dev (bufs t e) = dev" for e
      using that x(4,7) d(5) [of e] by (cases "e = b") (simp_all add: t)
    show "b_valid (bufs t e) \<and> b_dev (bufs t e) = dev" if "e \<in> insert b B \<union> P" for e
      using that x(3,5) d(7,8) [of e] by (cases "e = b") (simp_all add: t)
    show "e = f" if "e < NBUF" "f < NBUF" "b_dev (bufs t e) = dev" "b_dev (bufs t f) = dev"
      "b_blockno (bufs t e) = b_blockno (bufs t f)" for e f
      using that x(3,4) other [of e] other [of f] d(9) [of e f] by (cases "e = b"; cases "f = b") (simp_all add: t)
    show "disk t m = V m \<or> (\<exists>e \<in> insert b B \<union> P. b_blockno (bufs t e) = m)" for m
    proof (cases "disk s m = V m")
      case False
      then obtain e where "e \<in> B \<union> P" "b_blockno (bufs s e) = m" using d(10) [of m] by blast
      then have "e \<in> insert b B \<union> P" "b_blockno (bufs t e) = m" using P x(4) b(2) by (cases "e = b"; auto simp: t)+
      then show ?thesis by blast
    qed (simp add: t)
  qed (rule d(11))
qed

lemma bread_ok:
  assumes c: "cache_ok dev V B P s" and k: "locks_ok B s" and "\<forall>b \<in> B. b_blockno (bufs s b) \<noteq> n"
    and "card (B \<union> P) < NBUF"
  obtains b t where "bread sw dev n s = Some (b, t)" "cache_ok dev V (insert b B) P t" "locks_ok (insert b B) t"
    "b < NBUF" "b \<notin> B" "b_blockno (bufs t b) = n" "\<forall>c \<in> B \<union> P. b_blockno (bufs t c) = b_blockno (bufs s c)"
    "disk t = disk s" "disk_writes t = disk_writes s" "brest t = brest s"
proof -
  note d = cache_okD [OF c]
  obtain b t where bt: "bget sw dev n s = Some (b, t)" "buf_got dev n B P s b t" using bget_ok [OF assms] .
  then obtain sl x where t: "t = s\<lparr>slocks := sl, bufs := (bufs s)(b := x)\<rparr>" by (auto simp: buf_got_def)
  note g = bt(2) [unfolded buf_got_def]
  let ?x = "if b_valid x then x else x\<lparr>b_data := disk s n, b_valid := True\<rparr>"
  let ?t = "s\<lparr>slocks := sl, bufs := (bufs s)(b := ?x)\<rparr>"
  have P: "b \<in> P \<longrightarrow> b_blockno (bufs s b) = n" using g by blast
  have "disk s n = V n" if "\<not> b_valid x"
  proof -
    have "b \<notin> P" using that g t by auto
    then have "c \<noteq> b" "c < NBUF" "b_dev (bufs s c) = dev" if "c \<in> B \<union> P" for c using that g d(6,8) [of c] by auto
    then show ?thesis using d(10) [of n] g by blast
  qed
  then have data: "block_of (b_data ?x) = V n" using g d(5) [of b] d(11) by (auto simp: t)
  have "cache_ok dev V (insert b B) P ?t"
    by (rule cache_ok_enter [OF c _ _ _ _ _ _ _ _ data P]) (use g in \<open>auto simp: t\<close>)
  moreover have "bread sw dev n s = Some (b, ?t)" using g by (auto simp: bread_def bt(1) t virtio_disk_rw_def upd_buf_def)
  moreover have "locks_ok (insert b B) ?t" using g by (auto simp: t locks_ok_def others_free_def myproc_def cpuid_def)
  moreover have f: "b < NBUF" "b \<notin> B" "b_blockno x = n" using g by (simp_all add: t)
  have "b_blockno (bufs ?t c) = b_blockno (bufs s c)" if "c \<in> B \<union> P" for c
    using that f P by (cases "c = b") auto
  ultimately show thesis using f by (intro that [of b ?t]) (simp_all add: brest_def)
qed

lemma put_ok:
  assumes c: "cache_ok dev V B P s" and "b \<in> B" "n = b_blockno (bufs s b)"
  shows "cache_ok dev (V(n := block_of d)) B P (upd_buf b (\<lambda>x. x\<lparr>b_data := d\<rparr>) s)"
proof -
  note d = cache_okD [OF c]
  let ?t = "upd_buf b (\<lambda>x. x\<lparr>b_data := d\<rparr>) s"
  obtain L where "lru_list (bufs s) L" using d(1) by blast
  then have L: "lru_list (bufs ?t) L" using lru_list_cong [of "bufs ?t" "bufs s" L] by simp
  have bb: "block_of (block_of d) = block_of d" by (auto simp: block_of_def)
  have other: "b_blockno (bufs s e) \<noteq> n" if "e < NBUF" "e \<noteq> b" "b_dev (bufs s e) = dev" for e
    using d(9) [of e b] d(6,8) [of b] that assms(2,3) by auto
  show ?thesis
  proof (rule cache_okI [OF L d(2,3)])
    show "block_of (b_data (bufs ?t e)) = (V(n := block_of d)) (b_blockno (bufs ?t e))"
      if "e < NBUF" "b_valid (bufs ?t e)" "b_dev (bufs ?t e) = dev" for e
      using that assms(3) other [of e] d(5) [of e] by (cases "e = b") simp_all
    show "e = f" if "e < NBUF" "f < NBUF" "b_dev (bufs ?t e) = dev" "b_dev (bufs ?t f) = dev"
      "b_blockno (bufs ?t e) = b_blockno (bufs ?t f)" for e f
      using that d(9) [of e f] by (cases "e = b"; cases "f = b") simp_all
    show "disk ?t m = (V(n := block_of d)) m \<or> (\<exists>e \<in> B \<union> P. b_blockno (bufs ?t e) = m)" for m
    proof (cases "m = n")
      case True
      then show ?thesis using assms(2,3) by (intro disjI2 bexI [of _ b]) simp_all
    next
      case False
      from d(10) [of m] show ?thesis
      proof
        assume "\<exists>e \<in> B \<union> P. b_blockno (bufs s e) = m"
        then obtain e where "e \<in> B \<union> P" "b_blockno (bufs s e) = m" by blast
        then show ?thesis by (intro disjI2 bexI [of _ e]) auto
      qed (use False in simp)
    qed
  qed (use d(4,7,8,11) bb in auto)
qed

lemma locksD:
  assumes "locks_ok B s"
  shows "others_free s" "L_bcache \<notin> set (held s)" "L_sleep lk \<notin> set (held s)"
    "\<exists>p. myproc s = Some p \<and> (\<forall>b<NBUF. sl_locked (slocks s (SL_buf b)) = (b \<in> B) \<and>
        (b \<in> B \<longrightarrow> sl_pid (slocks s (SL_buf b)) = p_pid (procs s p)))"
  using assms by (simp_all add: locks_ok_def)

lemma holdingsleep_buf:
  assumes "locks_ok B s" "b \<in> B" "b < NBUF"
  shows "holdingsleep (SL_buf b) s = Some (True, s)"
proof -
  obtain p where "myproc s = Some p" "sl_locked (slocks s (SL_buf b))" "sl_pid (slocks s (SL_buf b)) = p_pid (procs s p)"
    using locksD(4) [OF assms(1)] assms(2,3) by blast
  then show ?thesis by (intro holdingsleep_own locksD(3) [OF assms(1)])
qed

lemma bwrite_ok:
  assumes c: "cache_ok dev V B P s" and k: "locks_ok B s" and b: "b \<in> B"
  defines "n \<equiv> b_blockno (bufs s b)"
  shows "\<exists>t. bwrite b s = Some t \<and> cache_ok dev V B P t \<and> locks_ok B t \<and> bufs t = bufs s \<and>
    disk t = (disk s)(n := V n) \<and> disk_writes t = disk_writes s @ [(n, V n)] \<and> brest t = brest s"
proof -
  note d = cache_okD [OF c]
  have "b < NBUF" "block_of (b_data (bufs s b)) = V n" using d(5,6,7,8) [of b] b by (simp_all add: n_def)
  moreover from this have "holdingsleep (SL_buf b) s = Some (True, s)" using holdingsleep_buf [OF k b] by blast
  ultimately have "bwrite b s = Some (s\<lparr>disk := (disk s)(n := V n), disk_writes := disk_writes s @ [(n, V n)]\<rparr>)" (is "_ = Some ?t")
    by (simp add: bwrite_def virtio_disk_rw_def n_def)
  moreover have "cache_ok dev V B P ?t"
  proof -
    obtain L where "lru_list (bufs s) L" using d(1) by blast
    then have "lru_list (bufs ?t) L" by simp
    then show ?thesis
    proof (rule cache_okI)
      show "disk ?t m = V m \<or> (\<exists>e \<in> B \<union> P. b_blockno (bufs ?t e) = m)" for m using d(10) [of m] by simp
      show "e = f" if "e < NBUF" "f < NBUF" "b_dev (bufs ?t e) = dev" "b_dev (bufs ?t f) = dev"
        "b_blockno (bufs ?t e) = b_blockno (bufs ?t f)" for e f using that d(9) by simp
    qed (use d(2-8,11) in simp_all)
  qed
  moreover have "locks_ok B ?t" using k by (simp add: locks_ok_def others_free_def myproc_def cpuid_def)
  ultimately show ?thesis by (simp add: brest_def)
qed

text \<open>The fields of a buffer other than its links and its reference count.\<close>

definition same_block :: "buf \<Rightarrow> buf \<Rightarrow> bool" where
  "same_block x y \<longleftrightarrow> b_dev x = b_dev y \<and> b_blockno x = b_blockno y \<and> b_valid x = b_valid y \<and> b_data x = b_data y"

lemma cache_ok_change:
  assumes c: "cache_ok dev V B P s" and "lru_list (bufs t) L" "\<And>e. same_block (bufs t e) (bufs s e)" "disk t = disk s"
    and C: "C \<subseteq> B" "Q \<subseteq> P" and r: "\<And>e. e < NBUF \<Longrightarrow> b_refcnt (bufs t e) = of_bool (e \<in> C) + of_bool (e \<in> Q)"
    and dirty: "\<And>e. e \<in> B \<union> P \<Longrightarrow> e \<notin> C \<union> Q \<Longrightarrow> disk s (b_blockno (bufs s e)) = V (b_blockno (bufs s e))"
  shows "cache_ok dev V C Q t"
proof -
  note d = cache_okD [OF c]
  have sb [simp]: "b_dev (bufs t e) = b_dev (bufs s e)" "b_blockno (bufs t e) = b_blockno (bufs s e)"
    "b_valid (bufs t e) = b_valid (bufs s e)" "b_data (bufs t e) = b_data (bufs s e)" for e
    using assms(3) [of e] by (simp_all add: same_block_def)
  show ?thesis
  proof (rule cache_okI [OF assms(2)])
    show "b_valid (bufs t e) \<and> b_dev (bufs t e) = dev" if "e \<in> C \<union> Q" for e using that C d(7,8) [of e] by auto
    show "e = f" if "e < NBUF" "f < NBUF" "b_dev (bufs t e) = dev" "b_dev (bufs t f) = dev"
      "b_blockno (bufs t e) = b_blockno (bufs t f)" for e f using that d(9) by simp
    show "disk t m = V m \<or> (\<exists>e \<in> C \<union> Q. b_blockno (bufs t e) = m)" for m
    proof (cases "disk s m = V m")
      case False
      then obtain e where "e \<in> B \<union> P" "b_blockno (bufs s e) = m" using d(10) [of m] by blast
      moreover from this have "e \<in> C \<union> Q" using dirty [of e] False by auto
      ultimately show ?thesis by auto
    qed (simp add: assms(4))
  qed (use d(2,3,5,11) C r in auto)
qed

lemma bunpin_ok:
  assumes c: "cache_ok dev V B P s" and k: "locks_ok B s" and b: "b \<in> B" "b \<in> P"
  shows "\<exists>t. bunpin b s = Some t \<and> cache_ok dev V B (P - {b}) t \<and> locks_ok B t \<and> (\<forall>e. same_block (bufs t e) (bufs s e)) \<and>
    disk t = disk s \<and> disk_writes t = disk_writes s \<and> brest t = brest s"
proof -
  note d = cache_okD [OF c]
  let ?t = "upd_buf b (\<lambda>x. x\<lparr>b_refcnt := b_refcnt x - 1\<rparr>) s"
  obtain L where L: "lru_list (bufs s) L" using d(1) by blast
  have same: "same_block (bufs ?t e) (bufs s e)" for e by (simp add: same_block_def)
  have "bunpin b s = Some ?t"
    using locksD(2) [OF k] by (simp add: bunpin_def acquire_free release_head upd_buf_def)
  moreover have "cache_ok dev V B (P - {b}) ?t"
  proof (rule cache_ok_change [OF c _ same])
    show "lru_list (bufs ?t) L" using L lru_list_cong [of "bufs ?t" "bufs s" L] by simp
    show "b_refcnt (bufs ?t e) = of_bool (e \<in> B) + of_bool (e \<in> P - {b})" if "e < NBUF" for e
      using d(4) [OF that] b by auto
  qed (use b in auto)
  ultimately show ?thesis using k same by simp
qed

lemma same_block_trans: "same_block x y \<Longrightarrow> same_block y z \<Longrightarrow> same_block x z"
  by (simp add: same_block_def)

lemma bpin_ok:
  assumes c: "cache_ok dev V B P s" and k: "locks_ok B s" and b: "b \<in> B" "b \<notin> P"
  shows "\<exists>t. bpin b s = Some t \<and> cache_ok dev V B (insert b P) t \<and> locks_ok B t \<and> (\<forall>e. same_block (bufs t e) (bufs s e)) \<and>
    disk t = disk s \<and> disk_writes t = disk_writes s \<and> brest t = brest s"
proof -
  note d = cache_okD [OF c]
  let ?t = "upd_buf b (\<lambda>x. x\<lparr>b_refcnt := b_refcnt x + 1\<rparr>) s"
  have "bpin b s = Some ?t"
    using locksD(2) [OF k] by (simp add: bpin_def acquire_free release_head upd_buf_def)
  moreover have "cache_ok dev V B (insert b P) ?t"
  proof -
    obtain L where "lru_list (bufs s) L" using d(1) by blast
    then have L: "lru_list (bufs ?t) L" using lru_list_cong [of "bufs ?t" "bufs s" L] by simp
    have bN: "b < NBUF" using d(6) b by blast
    show ?thesis
    proof (rule cache_okI [OF L d(2)])
      show "insert b P \<subseteq> {..<NBUF}" using d(3) bN by simp
      show "b_refcnt (bufs ?t e) = of_bool (e \<in> B) + of_bool (e \<in> insert b P)" if "e < NBUF" for e
        using d(4) [OF that] b by auto
      show "block_of (b_data (bufs ?t e)) = V (b_blockno (bufs ?t e))"
        if "e < NBUF" "b_valid (bufs ?t e)" "b_dev (bufs ?t e) = dev" for e
        using that d(5) [of e] by (cases "e = b") simp_all
      show "b_valid (bufs ?t e) \<and> b_dev (bufs ?t e) = dev" if "e \<in> B \<union> insert b P" for e
        using that b d(7,8) [of e] by (cases "e = b") simp_all
      show "e = f" if "e < NBUF" "f < NBUF" "b_dev (bufs ?t e) = dev" "b_dev (bufs ?t f) = dev"
        "b_blockno (bufs ?t e) = b_blockno (bufs ?t f)" for e f
        using that d(9) [of e f] by (cases "e = b"; cases "f = b") simp_all
      show "disk ?t m = V m \<or> (\<exists>e \<in> B \<union> insert b P. b_blockno (bufs ?t e) = m)" for m
      proof (cases "disk s m = V m")
        case False
        then obtain e where "e \<in> B \<union> P" "b_blockno (bufs s e) = m" using d(10) [of m] by blast
        then show ?thesis by (intro disjI2 bexI [of _ e]) auto
      qed simp
    qed (rule d(11))
  qed
  ultimately show ?thesis using k by (simp add: same_block_def)
qed

lemma upd_same:
  assumes "\<And>x. same_block (f x) x \<and> b_refcnt (f x) = b_refcnt x"
  shows "same_block (bufs (upd_buf c f s) e) y = same_block (bufs s e) y" "b_refcnt (bufs (upd_buf c f s) e) = b_refcnt (bufs s e)"
  using assms [of "bufs s c"] by (auto simp: same_block_def)

lemma relink_same:
  "same_block (bufs (link_front b s) e) (bufs s e)" "b_refcnt (bufs (link_front b s) e) = b_refcnt (bufs s e)"
  "same_block (bufs (unlinked b s) e) (bufs s e)" "b_refcnt (bufs (unlinked b s) e) = b_refcnt (bufs s e)"
proof -
  have n: "\<And>x. same_block (x\<lparr>b_next := v\<rparr>) x \<and> b_refcnt (x\<lparr>b_next := v\<rparr>) = b_refcnt x"
    and p: "\<And>x. same_block (x\<lparr>b_prev := v\<rparr>) x \<and> b_refcnt (x\<lparr>b_prev := v\<rparr>) = b_refcnt x" for v
    by (simp_all add: same_block_def)
  note u = upd_same [OF n] upd_same [OF p]
  have "same_block x x" for x by (simp add: same_block_def)
  then show "same_block (bufs (link_front b s) e) (bufs s e)" "b_refcnt (bufs (link_front b s) e) = b_refcnt (bufs s e)"
    "same_block (bufs (unlinked b s) e) (bufs s e)" "b_refcnt (bufs (unlinked b s) e) = b_refcnt (bufs s e)"
    unfolding link_front_def unlinked_def Let_def by (simp_all only: u)
qed

lemma relink_frame: "\<exists>f. link_front b (unlinked b s) = s\<lparr>bufs := f\<rparr>"
proof
  show "link_front b (unlinked b s) = s\<lparr>bufs := bufs (link_front b (unlinked b s))\<rparr>"
    by (simp add: link_front_def unlinked_def Let_def upd_buf_def)
qed

text \<open>Dropping a reference, and the move to the front when it was the last one.\<close>

definition unref :: "nat \<Rightarrow> 'z bio_scheme \<Rightarrow> 'z bio_scheme" where
  "unref b s = (let s = upd_buf b (\<lambda>x. x\<lparr>b_refcnt := b_refcnt x - 1\<rparr>) s
     in if b_refcnt (bufs s b) = 0 then link_front b (unlinked b s) else s)"

lemma unref_ok:
  assumes c: "cache_ok dev V B P s" and b: "b \<in> B" and clean: "b \<in> P \<or> disk s (b_blockno (bufs s b)) = V (b_blockno (bufs s b))"
  shows "cache_ok dev V (B - {b}) P (unref b s)" "same_block (bufs (unref b s) e) (bufs s e)" "\<exists>f. unref b s = s\<lparr>bufs := f\<rparr>"
proof -
  note d = cache_okD [OF c]
  have bN: "b < NBUF" using d(6) b by blast
  obtain L where L: "lru_list (bufs s) L" using d(1) by blast
  let ?u = "upd_buf b (\<lambda>x. x\<lparr>b_refcnt := b_refcnt x - 1\<rparr>) s"
  have u: "same_block (bufs ?u e) (bufs s e)" for e by (simp add: same_block_def)
  have Lu: "lru_list (bufs ?u) L" using L lru_list_cong [of "bufs ?u" "bufs s" L] by simp
  show same: "same_block (bufs (unref b s) e) (bufs s e)" for e
    using u [of e] same_block_trans [OF relink_same(1) same_block_trans [OF relink_same(3) u]]
    by (simp add: unref_def Let_def)
  show "\<exists>f. unref b s = s\<lparr>bufs := f\<rparr>"
  proof (cases "b_refcnt (bufs ?u b) = 0")
    case True
    obtain f where "link_front b (unlinked b ?u) = ?u\<lparr>bufs := f\<rparr>" using relink_frame by blast
    then show ?thesis using True by (auto simp: unref_def Let_def upd_buf_def)
  next
    case False
    then show ?thesis by (auto simp: unref_def Let_def upd_buf_def)
  qed
  then have dk: "disk (unref b s) = disk s" by auto
  obtain M where M: "lru_list (bufs (unref b s)) M"
    using Lu move_front [OF Lu bN] by (cases "b_refcnt (bufs ?u b) = 0") (simp_all add: unref_def Let_def)
  show "cache_ok dev V (B - {b}) P (unref b s)"
  proof (rule cache_ok_change [OF c M same dk])
    show "b_refcnt (bufs (unref b s) e) = of_bool (e \<in> B - {b}) + of_bool (e \<in> P)" if "e < NBUF" for e
    proof -
      have "b_refcnt (bufs (unref b s) e) = b_refcnt (bufs ?u e)"
        by (simp only: unref_def Let_def relink_same(2,4) split: if_split) blast
      also have "\<dots> = of_bool (e \<in> B - {b}) + of_bool (e \<in> P)" using d(4) [OF that] b by auto
      finally show ?thesis .
    qed
    show "disk s (b_blockno (bufs s e)) = V (b_blockno (bufs s e))" if "e \<in> B \<union> P" "e \<notin> B - {b} \<union> P" for e
      using that clean by auto
  qed (use b in auto)
qed

lemma upd_buf_held: "upd_buf b f (s\<lparr>held := h\<rparr>) = (upd_buf b f s)\<lparr>held := h\<rparr>"
  by (simp add: upd_buf_def)

lemma unref_held: "unref b (s\<lparr>held := h\<rparr>) = (unref b s)\<lparr>held := h\<rparr>"
proof -
  have b: "bufs (u\<lparr>held := h\<rparr>) = bufs u" for u :: "'a bio_scheme" by simp
  have "link_front b (u\<lparr>held := h\<rparr>) = (link_front b u)\<lparr>held := h\<rparr>"
    "unlinked b (u\<lparr>held := h\<rparr>) = (unlinked b u)\<lparr>held := h\<rparr>" for u :: "'a bio_scheme"
    unfolding link_front_def unlinked_def Let_def upd_buf_held b by (rule refl)+
  then show ?thesis unfolding unref_def Let_def upd_buf_held b by (simp only: split: if_split) blast
qed

lemma brelse_eq:
  assumes "holdingsleep (SL_buf b) s = Some (True, s)" "releasesleep (SL_buf b) s = Some r" "L_bcache \<notin> set (held r)"
    "held (unref b r) = held r"
  shows "brelse b s = Some (unref b r)"
proof -
  have "brelse b s = release L_bcache (unref b (r\<lparr>held := L_bcache # held r\<rparr>))"
    by (simp add: brelse_def assms(1,2) acquire_free [OF assms(3)] unref_def unlinked_def Let_def if_distrib cong: if_cong)
  then show ?thesis using assms(4) by (simp add: unref_held release_head)
qed

lemma brelse_ok:
  assumes c: "cache_ok dev V B P s" and k: "locks_ok B s" and b: "b \<in> B"
    and clean: "b \<in> P \<or> disk s (b_blockno (bufs s b)) = V (b_blockno (bufs s b))"
  shows "\<exists>t. brelse b s = Some t \<and> cache_ok dev V (B - {b}) P t \<and> locks_ok (B - {b}) t \<and>
    (\<forall>e. same_block (bufs t e) (bufs s e)) \<and> disk t = disk s \<and> disk_writes t = disk_writes s \<and> brest t = brest s"
proof -
  have bN: "b < NBUF" using cache_okD(6) [OF c] b by blast
  let ?f = "\<lambda>p. if p < NPROC then woken (Some (C_sleeplock (SL_buf b))) (myproc s) p (procs s p) else procs s p"
  let ?r = "s\<lparr>slocks := (slocks s)(SL_buf b := \<lparr>sl_locked = False, sl_pid = 0\<rparr>), procs := ?f\<rparr>"
  have r: "releasesleep (SL_buf b) s = Some ?r" by (rule releasesleep_eq [OF locksD(3,1) [OF k]])
  have pid: "p_pid (?f p) = p_pid (procs s p)" for p by (simp add: woken_def)
  have kr: "locks_ok (B - {b}) ?r"
    using k pid by (auto simp: locks_ok_def others_free_def myproc_def cpuid_def)
  have "cache_ok dev V B P ?r" using c by (simp add: cache_ok_def)
  note u = unref_ok [OF this b, simplified, OF clean]
  obtain g where g: "unref b ?r = ?r\<lparr>bufs := g\<rparr>" using u(3) by auto
  have "brelse b s = Some (unref b ?r)"
  proof (rule brelse_eq [OF holdingsleep_buf [OF k b bN] r])
    show "L_bcache \<notin> set (held ?r)" using locksD(2) [OF k] by simp
    show "held (unref b ?r) = held ?r" by (simp add: g)
  qed
  moreover have "locks_ok (B - {b}) (unref b ?r)" using kr by (simp add: g locks_ok_def others_free_def myproc_def cpuid_def)
  ultimately show ?thesis using u(1,2) g by (simp add: brest_def)
qed


section \<open>The interface of the cache\<close>

text \<open>
  What a client that runs alone relies on. In a state with \<open>inv V B P\<close> the client holds the
  buffers \<open>B\<close>, the buffers \<open>P\<close> are pinned, and \<open>V\<close> is the contents of the blocks; \<open>env\<close> is the
  part of the state that the cache leaves alone.
\<close>

locale block_cache =
  fixes inv :: "(uint32 \<Rightarrow> bytes) \<Rightarrow> nat set \<Rightarrow> nat set \<Rightarrow> 's \<Rightarrow> bool"
    and key :: "'s \<Rightarrow> nat \<Rightarrow> uint32"
    and data :: "'s \<Rightarrow> nat \<Rightarrow> bytes"
    and dsk :: "'s \<Rightarrow> uint32 \<Rightarrow> bytes"
    and wrs :: "'s \<Rightarrow> (uint32 \<times> bytes) list"
    and env :: "'s \<Rightarrow> 's"
    and rd :: "uint32 \<Rightarrow> 's \<Rightarrow> (nat \<times> 's) option"
    and put :: "nat \<Rightarrow> bytes \<Rightarrow> 's \<Rightarrow> 's"
    and wr :: "nat \<Rightarrow> 's \<Rightarrow> 's option"
    and unpin :: "nat \<Rightarrow> 's \<Rightarrow> 's option"
    and rel :: "nat \<Rightarrow> 's \<Rightarrow> 's option"
  assumes contents: "inv V B P s \<Longrightarrow> b \<in> B \<Longrightarrow> block_of (data s b) = V (key s b)"
    and on_disk: "inv V B P s \<Longrightarrow> dsk s n = V n \<or> (\<exists>b \<in> B \<union> P. key s b = n)"
    and key_unique: "inv V B P s \<Longrightarrow> b \<in> B \<union> P \<Longrightarrow> c \<in> B \<union> P \<Longrightarrow> key s b = key s c \<Longrightarrow> b = c"
    and pinned_finite: "inv V B P s \<Longrightarrow> finite P"
    and rd: "inv V B P s \<Longrightarrow> n \<notin> key s ` B \<Longrightarrow> card (B \<union> P) < NBUF \<Longrightarrow>
      \<exists>b t. rd n s = Some (b, t) \<and> inv V (insert b B) P t \<and> b \<notin> B \<and> key t b = n \<and>
        (\<forall>c \<in> B \<union> P. key t c = key s c) \<and> dsk t = dsk s \<and> wrs t = wrs s \<and> env t = env s"
    and put: "inv V B P s \<Longrightarrow> b \<in> B \<Longrightarrow> inv (V(key s b := block_of d)) B P (put b d s)"
      "key (put b d s) = key s" "dsk (put b d s) = dsk s" "wrs (put b d s) = wrs s" "env (put b d s) = env s"
    and wr: "inv V B P s \<Longrightarrow> b \<in> B \<Longrightarrow>
      \<exists>t. wr b s = Some t \<and> inv V B P t \<and> key t = key s \<and> dsk t = (dsk s)(key s b := V (key s b)) \<and>
        wrs t = wrs s @ [(key s b, V (key s b))] \<and> env t = env s"
    and unpin: "inv V B P s \<Longrightarrow> b \<in> B \<Longrightarrow> b \<in> P \<Longrightarrow>
      \<exists>t. unpin b s = Some t \<and> inv V B (P - {b}) t \<and> key t = key s \<and> dsk t = dsk s \<and> wrs t = wrs s \<and> env t = env s"
    and rel: "inv V B P s \<Longrightarrow> b \<in> B \<Longrightarrow> b \<in> P \<or> dsk s (key s b) = V (key s b) \<Longrightarrow>
      \<exists>t. rel b s = Some t \<and> inv V (B - {b}) P t \<and> key t = key s \<and> dsk t = dsk s \<and> wrs t = wrs s \<and> env t = env s"
begin

text \<open>Two different blocks are read; what is not pinned is clean.\<close>

lemma two_reads:
  assumes i: "inv V {} P s" and ne: "m \<noteq> n" and room: "card P + 2 \<le> NBUF"
  obtains a b r t where "rd n s = Some (a, r)" "rd m r = Some (b, t)" "inv V {b, a} P t" "a \<noteq> b" "key t a = n" "key t b = m"
    "\<forall>c \<in> P. key t c = key s c" "dsk t = dsk s" "wrs t = wrs s" "env r = env s" "env t = env s"
    "a \<in> P \<or> dsk s n = V n" "b \<in> P \<or> dsk s m = V m"
proof -
  have fin: "finite P" by (rule pinned_finite [OF i])
  obtain a r where r: "rd n s = Some (a, r)" "inv V {a} P r" "key r a = n" "\<forall>c \<in> P. key r c = key s c"
    "dsk r = dsk s" "wrs r = wrs s" "env r = env s"
    using rd [OF i, of n] room by auto
  have "card ({a} \<union> P) < NBUF" using room card_insert_le_m1 [of "Suc (card P)" P a] fin by (simp add: card_insert_if)
  then obtain b t where t: "rd m r = Some (b, t)" "inv V {b, a} P t" "b \<notin> {a}" "key t b = m" "\<forall>c \<in> {a} \<union> P. key t c = key r c"
    "dsk t = dsk r" "wrs t = wrs r" "env t = env r"
    using rd [OF r(2), of m] r(3) ne by auto
  have keys: "key t a = n" "\<forall>c \<in> P. key t c = key s c" using t(5) r(3,4) by auto
  have clean: "x \<in> P \<or> dsk s (key t x) = V (key t x)" if "x \<in> {b, a}" for x
  proof -
    from on_disk [OF i, of "key t x"] show ?thesis
    proof
      assume "\<exists>c \<in> {} \<union> P. key s c = key t x"
      then obtain c where c: "c \<in> P" "key t c = key t x" using keys(2) by auto
      then have "x = c" using that by (intro key_unique [OF t(2)]) auto
      then show ?thesis using c(1) by simp
    qed simp
  qed
  have "a \<noteq> b" using t(3) by simp
  moreover have "a \<in> P \<or> dsk s n = V n" "b \<in> P \<or> dsk s m = V m"
    using clean [of a] clean [of b] keys(1) t(4) by simp_all
  moreover have "dsk t = dsk s" "wrs t = wrs s" "env t = env s" using t(6-8) r(5-7) by simp_all
  ultimately show thesis using r(1,7) t(1,2,4) keys that by blast
qed

lemma copy_write:
  assumes i: "inv V B P u" and "t \<in> B" "f \<in> B" "key u t = dst" "key u f = src" "src \<noteq> dst"
  shows "\<exists>v. wr t (put t (blit (data u t) 0 (data u f) 0 BSIZE) u) = Some v \<and> inv (V(dst := V src)) B P v \<and>
    key v = key u \<and> dsk v = (dsk u)(dst := V src) \<and> wrs v = wrs u @ [(dst, V src)] \<and> env v = env u"
proof -
  have "block_of (blit (data u t) 0 (data u f) 0 BSIZE) = block_of (data u f)" by (auto simp: block_of_def blit_def)
  also have "\<dots> = V src" using contents [OF i assms(3)] assms(5) by simp
  finally have "inv (V(dst := V src)) B P (put t (blit (data u t) 0 (data u f) 0 BSIZE) u)"
    using put(1) [OF i assms(2)] assms(4) by metis
  from wr [OF this assms(2)] show ?thesis by (simp add: put(2-5) assms(4))
qed

text \<open>
  One block is copied over another and written: in the order of \<open>write_log\<close>, and in that of
  \<open>install_trans\<close>.
\<close>

lemma copy_to_log:
  assumes i: "inv V {} P s" and ne: "src \<noteq> dst" and room: "card P + 2 \<le> NBUF"
  obtains t f r u v w z where "rd dst s = Some (t, r)" "rd src r = Some (f, u)"
    "wr t (put t (blit (data u t) 0 (data u f) 0 BSIZE) u) = Some v" "rel f v = Some w" "rel t w = Some z" "env r = env s"
    "inv (V(dst := V src)) {} P z" "dsk z = (dsk s)(dst := V src)" "wrs z = wrs s @ [(dst, V src)]" "env z = env s"
    "\<forall>c \<in> P. key z c = key s c"
proof -
  obtain t f r u where u: "rd dst s = Some (t, r)" "rd src r = Some (f, u)" "inv V {f, t} P u" "t \<noteq> f" "key u t = dst" "key u f = src"
    "\<forall>c \<in> P. key u c = key s c" "dsk u = dsk s" "wrs u = wrs s" "env r = env s" "env u = env s"
    "f \<in> P \<or> dsk s src = V src"
    using two_reads [OF i ne room] by metis
  obtain v where v: "wr t (put t (blit (data u t) 0 (data u f) 0 BSIZE) u) = Some v" "inv (V(dst := V src)) {f, t} P v"
    "key v = key u" "dsk v = (dsk u)(dst := V src)" "wrs v = wrs u @ [(dst, V src)]" "env v = env u"
    using copy_write [OF u(3) _ _ u(5,6) ne] by auto
  obtain w where w: "rel f v = Some w" "inv (V(dst := V src)) {t} P w" "key w = key v" "dsk w = dsk v" "wrs w = wrs v" "env w = env v"
    using rel [OF v(2), of f] u(4,6,8,12) v(3,4) ne by (auto simp: insert_Diff_if)
  obtain z where z: "rel t w = Some z" "inv (V(dst := V src)) {} P z" "key z = key w" "dsk z = dsk w" "wrs z = wrs w" "env z = env w"
    using rel [OF w(2), of t] u(5) v(3,4) w(3,4) by auto
  show thesis by (rule that [OF u(1,2) v(1) w(1) z(1)]) (use u v w z in simp_all)
qed

lemma copy_to_home:
  assumes i: "inv V {} P s" and ne: "src \<noteq> dst" and room: "card P + 2 \<le> NBUF"
    and pin: "p \<longrightarrow> b \<in> P \<and> key s b = dst"
  defines "Q \<equiv> (if p then P - {b} else P)"
  obtains f t r u v x w z where "rd src s = Some (f, r)" "rd dst r = Some (t, u)"
    "wr t (put t (blit (data u t) 0 (data u f) 0 BSIZE) u) = Some v" "(if p then unpin t v else Some v) = Some x"
    "rel f x = Some w" "rel t w = Some z" "env r = env s"
    "inv (V(dst := V src)) {} Q z" "dsk z = (dsk s)(dst := V src)" "wrs z = wrs s @ [(dst, V src)]" "env z = env s"
    "\<forall>c \<in> P. key z c = key s c"
proof -
  obtain t f r u where u: "rd src s = Some (f, r)" "rd dst r = Some (t, u)" "inv V {t, f} P u" "f \<noteq> t" "key u f = src" "key u t = dst"
    "\<forall>c \<in> P. key u c = key s c" "dsk u = dsk s" "wrs u = wrs s" "env r = env s" "env u = env s"
    "f \<in> P \<or> dsk s src = V src"
    using two_reads [OF i ne [symmetric] room] by metis
  obtain v where v: "wr t (put t (blit (data u t) 0 (data u f) 0 BSIZE) u) = Some v" "inv (V(dst := V src)) {t, f} P v"
    "key v = key u" "dsk v = (dsk u)(dst := V src)" "wrs v = wrs u @ [(dst, V src)]" "env v = env u"
    using copy_write [OF u(3) _ _ u(6,5) ne] by auto
  have tb: "t = b" if p using pin that u(6,7) key_unique [OF u(3), of t b] by auto
  obtain x where x: "(if p then unpin t v else Some v) = Some x" "inv (V(dst := V src)) {t, f} Q x"
    "key x = key v" "dsk x = dsk v" "wrs x = wrs v" "env x = env v"
    using unpin [OF v(2), of t] v(2) tb pin by (cases p) (auto simp: Q_def)
  have "f \<in> Q \<or> dsk x (key x f) = (V(dst := V src)) (key x f)"
    using u(4,5,8,12) v(3,4) x(3,4) ne tb by (auto simp: Q_def)
  then obtain w where w: "rel f x = Some w" "inv (V(dst := V src)) {t} Q w" "key w = key v" "dsk w = dsk v" "wrs w = wrs v" "env w = env v"
    using rel [OF x(2), of f] u(4) x by (auto simp: insert_Diff_if)
  obtain z where z: "rel t w = Some z" "inv (V(dst := V src)) {} Q z" "key z = key w" "dsk z = dsk w" "wrs z = wrs w" "env z = env w"
    using rel [OF w(2), of t] u(6) v(3,4) w(3,4) by auto
  show thesis by (rule that [OF u(1,2) v(1) x(1) w(1) z(1)]) (use u v w z in simp_all)
qed

lemma read_block:
  assumes i: "inv V {} P s" and room: "card P < NBUF"
  obtains b t where "rd n s = Some (b, t)" "inv V {b} P t" "key t b = n" "block_of (data t b) = V n"
    "\<forall>c \<in> P. key t c = key s c" "dsk t = dsk s" "wrs t = wrs s" "env t = env s" "b \<in> P \<or> dsk s n = V n"
proof -
  obtain b t where t: "rd n s = Some (b, t)" "inv V {b} P t" "key t b = n" "\<forall>c \<in> P. key t c = key s c"
    "dsk t = dsk s" "wrs t = wrs s" "env t = env s"
    using rd [OF i, of n] room by auto
  have "b \<in> P \<or> dsk s n = V n" using on_disk [OF i, of n]
  proof
    assume "\<exists>c \<in> {} \<union> P. key s c = n"
    then obtain c where "c \<in> P" "key t c = key t b" using t(3,4) by auto
    then show ?thesis using key_unique [OF t(2), of b c] by auto
  qed simp
  then show thesis using t contents [OF t(2), of b] that by auto
qed

text \<open>One block is changed by \<open>g\<close> and written.\<close>

lemma rewrite_block:
  assumes i: "inv V {} P s" and room: "card P < NBUF"
  obtains b r v z where "rd n s = Some (b, r)" "wr b (put b (g (data r b)) r) = Some v" "rel b v = Some z"
    "block_of (data r b) = V n" "env r = env s"
    "inv (V(n := block_of (g (data r b)))) {} P z" "dsk z = (dsk s)(n := block_of (g (data r b)))"
    "wrs z = wrs s @ [(n, block_of (g (data r b)))]" "env z = env s" "\<forall>c \<in> P. key z c = key s c"
proof -
  obtain b t where t: "rd n s = Some (b, t)" "inv V {b} P t" "key t b = n" "block_of (data t b) = V n"
    "\<forall>c \<in> P. key t c = key s c" "dsk t = dsk s" "wrs t = wrs s" "env t = env s"
    using read_block [OF i room] by metis
  let ?d = "data t b" let ?V = "V(n := block_of (g ?d))"
  have "inv ?V {b} P (put b (g ?d) t)" using put(1) [OF t(2)] t(3) by auto
  then obtain v where v: "wr b (put b (g ?d) t) = Some v" "inv ?V {b} P v" "key v = key t" "dsk v = (dsk t)(n := block_of (g ?d))"
    "wrs v = wrs t @ [(n, block_of (g ?d))]" "env v = env t"
    using wr [of ?V "{b}" P "put b (g ?d) t" b] t(3) by (auto simp: put(2-5))
  obtain z where z: "rel b v = Some z" "inv ?V {} P z" "key z = key v" "dsk z = dsk v" "wrs z = wrs v" "env z = env v"
    using rel [OF v(2), of b] v(3,4) t(3) by auto
  show thesis by (rule that [OF t(1) v(1) z(1) t(4,8)]) (use t v z in simp_all)
qed

end

text \<open>The buffer cache implements the interface.\<close>

interpretation bc: block_cache "\<lambda>V B P s. cache_ok dev V B P s \<and> locks_ok B s" "\<lambda>s b. b_blockno (bufs s b)"
    "\<lambda>s b. b_data (bufs s b)" disk disk_writes brest "bread sw dev" "\<lambda>b d. upd_buf b (\<lambda>x. x\<lparr>b_data := d\<rparr>)" bwrite bunpin brelse
  for sw :: "'z bio_scheme \<Rightarrow> 'z bio_scheme option" and dev :: uint32
proof
  fix V B P b n d and s :: "'z bio_scheme"
  assume i: "cache_ok dev V B P s \<and> locks_ok B s"
  note c = conjunct1 [OF i] and k = conjunct2 [OF i]
  note d = cache_okD [OF c]
  show "block_of (b_data (bufs s b)) = V (b_blockno (bufs s b))" if "b \<in> B" using d(5-8) [of b] that by simp
  show "disk s n = V n \<or> (\<exists>b \<in> B \<union> P. b_blockno (bufs s b) = n)" by (rule d(10))
  show "b = e" if "b \<in> B \<union> P" "e \<in> B \<union> P" "b_blockno (bufs s b) = b_blockno (bufs s e)" for e
    using that d(6,8) by (intro d(9)) auto
  show "finite P" using d(3) by (rule finite_subset) simp
  show "\<exists>b t. bread sw dev n s = Some (b, t) \<and> (cache_ok dev V (insert b B) P t \<and> locks_ok (insert b B) t) \<and> b \<notin> B \<and>
      b_blockno (bufs t b) = n \<and> (\<forall>c \<in> B \<union> P. b_blockno (bufs t c) = b_blockno (bufs s c)) \<and>
      disk t = disk s \<and> disk_writes t = disk_writes s \<and> brest t = brest s"
    if "n \<notin> (\<lambda>b. b_blockno (bufs s b)) ` B" "card (B \<union> P) < NBUF"
  proof -
    have "\<forall>b \<in> B. b_blockno (bufs s b) \<noteq> n" using that(1) by blast
    from bread_ok [OF c k this that(2)] show ?thesis by metis
  qed
  show "cache_ok dev (V(b_blockno (bufs s b) := block_of d)) B P (upd_buf b (\<lambda>x. x\<lparr>b_data := d\<rparr>) s) \<and>
      locks_ok B (upd_buf b (\<lambda>x. x\<lparr>b_data := d\<rparr>) s)" if "b \<in> B" for d
    using put_ok [OF c that refl] k by simp
  show "\<exists>t. bwrite b s = Some t \<and> (cache_ok dev V B P t \<and> locks_ok B t) \<and>
      (\<lambda>b. b_blockno (bufs t b)) = (\<lambda>b. b_blockno (bufs s b)) \<and>
      disk t = (disk s)(b_blockno (bufs s b) := V (b_blockno (bufs s b))) \<and>
      disk_writes t = disk_writes s @ [(b_blockno (bufs s b), V (b_blockno (bufs s b)))] \<and> brest t = brest s" if "b \<in> B"
    using bwrite_ok [OF c k that] by metis
  show "\<exists>t. bunpin b s = Some t \<and> (cache_ok dev V B (P - {b}) t \<and> locks_ok B t) \<and>
      (\<lambda>b. b_blockno (bufs t b)) = (\<lambda>b. b_blockno (bufs s b)) \<and> disk t = disk s \<and> disk_writes t = disk_writes s \<and>
      brest t = brest s" if "b \<in> B" "b \<in> P"
    using bunpin_ok [OF c k that] unfolding same_block_def by metis
  show "\<exists>t. brelse b s = Some t \<and> (cache_ok dev V (B - {b}) P t \<and> locks_ok (B - {b}) t) \<and>
      (\<lambda>b. b_blockno (bufs t b)) = (\<lambda>b. b_blockno (bufs s b)) \<and> disk t = disk s \<and> disk_writes t = disk_writes s \<and>
      brest t = brest s" if "b \<in> B" "b \<in> P \<or> disk s (b_blockno (bufs s b)) = V (b_blockno (bufs s b))"
    using brelse_ok [OF c k that] unfolding same_block_def by metis
qed (simp_all add: upd_buf_def brest_def fun_eq_iff)

section \<open>Boot\<close>

lemma link_front_links:
  assumes "links (bufs s) (HEAD # M @ [HEAD])" "distinct (HEAD # M)" "b \<notin> set (HEAD # M)"
  shows "links (bufs (link_front b s)) (HEAD # b # M @ [HEAD])"
proof -
  have "b_next (bufs s HEAD) = hd (M @ [HEAD])" using assms(1) by (simp add: successively_Cons)
  then show ?thesis
    by (intro links_insert [OF assms]) (use assms(3) in \<open>auto simp: link_front_def Let_def upd_buf_def\<close>)
qed

lemma link_front_frame: "\<exists>f. link_front b s = s\<lparr>bufs := f\<rparr>"
proof
  show "link_front b s = s\<lparr>bufs := bufs (link_front b s)\<rparr>" by (simp add: link_front_def Let_def upd_buf_def)
qed

text \<open>The state after the first \<open>k\<close> turns of the loop of \<open>binit\<close>.\<close>

definition linked_upto :: "nat \<Rightarrow> 'z bio_scheme \<Rightarrow> 'z bio_scheme \<Rightarrow> bool" where
  "linked_upto k s t \<longleftrightarrow> links (bufs t) (HEAD # rev [0..<k] @ [HEAD]) \<and>
     (\<forall>b. same_block (bufs t b) (bufs s b) \<and> b_refcnt (bufs t b) = b_refcnt (bufs s b)) \<and>
     (\<forall>b<k. slocks t (SL_buf b) = \<lparr>sl_locked = False, sl_pid = 0\<rparr>) \<and>
     (\<exists>f g. t = s\<lparr>bufs := f, slocks := g\<rparr>)"

lemma linked_upto_step:
  assumes "linked_upto k s t" "k < NBUF"
  shows "linked_upto (Suc k) s (link_front k (initsleeplock (SL_buf k) t))"
proof -
  let ?t = "initsleeplock (SL_buf k) t"
  have b: "bufs ?t = bufs t" by (simp add: initsleeplock_def upd_slock_def)
  obtain f where f: "link_front k ?t = ?t\<lparr>bufs := f\<rparr>" using link_front_frame by blast
  obtain f' g where t: "t = s\<lparr>bufs := f', slocks := g\<rparr>" using assms(1) by (auto simp: linked_upto_def)
  have l: "links (bufs (link_front k ?t)) (HEAD # k # rev [0..<k] @ [HEAD])"
    using assms by (intro link_front_links) (auto simp: linked_upto_def b)
  have same: "same_block (bufs (link_front k ?t) e) (bufs s e)" "b_refcnt (bufs (link_front k ?t) e) = b_refcnt (bufs s e)" for e
    using relink_same(1,2) [of k ?t e] assms(1) same_block_trans by (auto simp: linked_upto_def b)
  let ?g = "(slocks t)(SL_buf k := \<lparr>sl_locked = False, sl_pid = 0\<rparr>)"
  have "link_front k ?t = s\<lparr>bufs := f, slocks := ?g\<rparr>" unfolding f by (simp add: t initsleeplock_def upd_slock_def)
  moreover have "?g (SL_buf e) = \<lparr>sl_locked = False, sl_pid = 0\<rparr>" if "e < Suc k" for e
    using assms(1) that by (auto simp: linked_upto_def less_Suc_eq)
  ultimately show ?thesis
    unfolding linked_upto_def using l same by (intro conjI allI impI exI [of _ f] exI [of _ ?g]) simp_all
qed

lemma binit_linked: "\<exists>t. binit s = Some t \<and> linked_upto NBUF s t"
proof -
  let ?s = "upd_buf HEAD (\<lambda>x. x\<lparr>b_next := HEAD\<rparr>) (upd_buf HEAD (\<lambda>x. x\<lparr>b_prev := HEAD\<rparr>) s)"
  let ?f = "\<lambda>b s. Some (link_front b (initsleeplock (SL_buf b) s))"
  have "\<exists>t. for_each ?f [0..<k] ?s = Some t \<and> linked_upto k s t" if "k \<le> NBUF" for k
    using that
  proof (induction k)
    case 0
    have "\<exists>f g. ?s = s\<lparr>bufs := f, slocks := g\<rparr>" by (intro exI [of _ "bufs ?s"] exI [of _ "slocks s"]) (simp add: upd_buf_def)
    then show ?case by (auto simp: linked_upto_def same_block_def)
  next
    case (Suc k)
    then obtain t where "for_each ?f [0..<k] ?s = Some t" "linked_upto k s t" by auto
    then show ?case using linked_upto_step [of k s t] Suc.prems by (auto simp: for_each_append)
  qed
  then show ?thesis by (simp add: binit_def)
qed

text \<open>Right after \<open>binit\<close> the cache is empty: every block is as on the disk.\<close>

lemma binit_cache_ok:
  assumes "binit s = Some t" "\<And>b. bufs s b = bufs bio0 b" "dev \<noteq> 0" "\<And>n. block_of (disk s n) = disk s n"
    "others_free s" "L_bcache \<notin> set (held s)" "\<forall>lk. L_sleep lk \<notin> set (held s)" "myproc s = Some p"
  shows "cache_ok dev (disk s) {} {} t" "locks_ok {} t" "disk t = disk s" "disk_writes t = disk_writes s" "brest t = brest s"
proof -
  have l: "linked_upto NBUF s t" using binit_linked [of s] assms(1) by auto
  then obtain f g where t: "t = s\<lparr>bufs := f, slocks := g\<rparr>" by (auto simp: linked_upto_def)
  show d: "disk t = disk s" "disk_writes t = disk_writes s" "brest t = brest s" by (simp_all add: t brest_def)
  have b: "b_dev (bufs t e) = 0" "b_valid (bufs t e) = False" "b_refcnt (bufs t e) = 0" for e
    using l assms(2) [of e] by (simp_all add: linked_upto_def same_block_def bio0_def bio.defs slk.defs)
  show "cache_ok dev (disk s) {} {} t"
  proof (rule cache_okI)
    show "lru_list (bufs t) (rev [0..<NBUF])" using l by (auto simp: lru_list_def linked_upto_def)
  qed (use b assms(3,4) d in auto)
  show "locks_ok {} t" using l assms(5-8) by (auto simp: locks_ok_def linked_upto_def others_free_def myproc_def cpuid_def)
qed

section \<open>Properties\<close>

text \<open>
  C21: reading a block and releasing it. In a cache whose list is intact, where no two buffers
  stand for the same block and every block not yet on disk is pinned, and with a buffer
  to spare, \<open>bread\<close> returns with a buffer that is locked by the caller and holds the current
  contents of the block, and \<open>brelse\<close> of it returns too. Both keep the cache intact and leave
  the disk alone.
\<close>

theorem bread_brelse:
  assumes "cache_ok dev V {} P s" "locks_ok {} s" "card P < NBUF"
  shows "\<exists>b t u. bread sw dev n s = Some (b, t) \<and> block_of (b_data (bufs t b)) = V n \<and>
    cache_ok dev V {b} P t \<and> locks_ok {b} t \<and> disk t = disk s \<and>
    brelse b t = Some u \<and> cache_ok dev V {} P u \<and> locks_ok {} u \<and> disk u = disk s"
proof -
  have i: "cache_ok dev V {} P s \<and> locks_ok {} s" using assms(1,2) ..
  obtain b t where t: "bread sw dev n s = Some (b, t)" "cache_ok dev V {b} P t \<and> locks_ok {b} t" "b_blockno (bufs t b) = n"
    "block_of (b_data (bufs t b)) = V n" "disk t = disk s" "b \<in> P \<or> disk s n = V n"
    using bc.read_block [OF i assms(3)] by metis
  moreover obtain u where "brelse b t = Some u" "cache_ok dev V {} P u" "locks_ok {} u" "disk u = disk t"
    using bc.rel [OF t(2), of b] t(3,5,6) by auto
  ultimately show ?thesis by auto
qed

definition bcache_ex :: bio where
  "bcache_ex = bio0\<lparr>cpu_proc := (\<lambda>_. Some 0)\<rparr>"

theorem bread_brelse_witness:
  "\<exists>s b t u. binit bcache_ex = Some s \<and> bread Some 1 7 s = Some (b, t) \<and> block_of (b_data (bufs t b)) = (\<lambda>_. 0) \<and>
    brelse b t = Some u"
proof -
  obtain s where s: "binit bcache_ex = Some s" using binit_linked by blast
  have "block_of (disk bcache_ex n) = disk bcache_ex n" for n by (simp add: bcache_ex_def block_of_def)
  then have "cache_ok 1 (disk bcache_ex) {} {} s" "locks_ok {} s"
    using binit_cache_ok [OF s, of 1 0]
    by (simp_all add: bcache_ex_def others_free_def myproc_def cpuid_def)
  from bread_brelse [OF this, of Some 7] show ?thesis using s by (auto simp: NBUF_def MAXOPBLOCKS_def bcache_ex_def)
qed

end
