(* ===== verification/Recovery.thy ===== *)
theory Recovery
  imports Log Bcache
begin

text \<open>
  What the log of \<^verbatim>\<open>kernel/log.c\<close> is for: a transaction reaches the disk as a whole or not at
  all. The block writes that the disk has performed are recorded in order; a crash keeps a
  prefix of them. Commit and recovery are shown to perform a given list of block
  writes, by the interface of the buffer cache, and every prefix of this list leaves a disk from
  which recovery restores the state before or after the transaction.
\<close>

section \<open>The log on disk\<close>

definition apply_writes :: "(uint32 \<Rightarrow> bytes) \<Rightarrow> (uint32 \<times> bytes) list \<Rightarrow> uint32 \<Rightarrow> bytes" where
  "apply_writes D ws = foldl (\<lambda>D (n, d). D(n := d)) D ws"

lemma apply_writes_simps [simp]:
  "apply_writes D [] = D" "apply_writes D (w # ws) = apply_writes (D(fst w := snd w)) ws"
  "apply_writes D (vs @ ws) = apply_writes (apply_writes D vs) ws"
  by (simp_all add: apply_writes_def case_prod_beta)

lemma apply_writes_other: "n \<notin> fst ` set ws \<Longrightarrow> apply_writes D ws n = D n"
  by (induction ws arbitrary: D) auto

lemma apply_writes_map:
  "distinct (map f is) \<Longrightarrow> i \<in> set is \<Longrightarrow> apply_writes D (map (\<lambda>i. (f i, g i)) is) (f i) = g i"
  by (induction "is" arbitrary: D) (auto simp: apply_writes_other image_iff)

lemma apply_writes_map_other:
  "(\<And>i. i \<in> set is \<Longrightarrow> f i \<noteq> n) \<Longrightarrow> apply_writes D (map (\<lambda>i. (f i, g i)) is) n = D n"
  by (intro apply_writes_other) force

text \<open>The header block and the log blocks after it.\<close>

definition log_blk :: "int \<Rightarrow> nat \<Rightarrow> uint32" where
  "log_blk st i = blk (st + int i + 1)"

definition log_area :: "int \<Rightarrow> uint32 set" where
  "log_area st = insert (blk st) (log_blk st ` {..<nat LOGBLOCKS})"

definition area_ok :: "int \<Rightarrow> nat \<Rightarrow> (nat \<Rightarrow> uint32) \<Rightarrow> bool" where
  "area_ok st n H \<longleftrightarrow> 0 \<le> st \<and> st + LOGBLOCKS < 2 ^ 31 \<and> n \<le> nat LOGBLOCKS \<and> distinct (map H [0..<n]) \<and>
     (\<forall>i<n. H i \<notin> log_area st)"

lemma blk_inj: "0 \<le> x \<Longrightarrow> x < 2 ^ 32 \<Longrightarrow> 0 \<le> y \<Longrightarrow> y < 2 ^ 32 \<Longrightarrow> blk x = blk y \<longleftrightarrow> x = y"
  by (auto simp: blk_def uint_word_of_int dest: arg_cong [of _ _ uint])

lemma area_okD:
  assumes "area_ok st n H"
  shows "n \<le> nat LOGBLOCKS" "distinct (map H [0..<n])" "i < n \<Longrightarrow> j < nat LOGBLOCKS \<Longrightarrow> H i \<noteq> log_blk st j"
    "i < n \<Longrightarrow> H i \<noteq> blk st" "i < nat LOGBLOCKS \<Longrightarrow> log_blk st i \<noteq> blk st"
    "distinct (map (log_blk st) [0..<n])"
proof -
  show "n \<le> nat LOGBLOCKS" "distinct (map H [0..<n])" using assms by (simp_all add: area_ok_def)
  show "H i \<noteq> log_blk st j" if "i < n" "j < nat LOGBLOCKS"
    using assms that by (auto simp: area_ok_def log_area_def)
  show "H i \<noteq> blk st" if "i < n" using assms that by (auto simp: area_ok_def log_area_def)
  have st: "0 \<le> st" "st + int i + 1 < 2 ^ 32" if "i < nat LOGBLOCKS" for i
    using assms that by (simp_all add: area_ok_def zless_nat_eq_int_zless)
  show "log_blk st i \<noteq> blk st" if "i < nat LOGBLOCKS"
    using st [OF that] blk_inj [of "st + int i + 1" st] by (simp add: log_blk_def)
  have "i = j" if "i < n" "j < n" "log_blk st i = log_blk st j" for i j
    using that \<open>n \<le> nat LOGBLOCKS\<close> st [of i] st [of j] blk_inj [of "st + int i + 1" "st + int j + 1"]
    by (simp add: log_blk_def)
  then show "distinct (map (log_blk st) [0..<n])" unfolding distinct_map inj_on_def by auto
qed


section \<open>The header block\<close>

definition head_put :: "logheader \<Rightarrow> bytes \<Rightarrow> bytes" where
  "head_put lh d = fold (\<lambda>i d. st32 d (4 + 4 * i) (word_of_int (lh_block lh i))) [0..<nat (lh_n lh)]
     (st32 d 0 (word_of_int (lh_n lh)))"

lemma ld32_head_put:
  "a + 4 \<le> 4 \<Longrightarrow> ld32 (head_put lh d) a = ld32 (st32 d 0 (word_of_int (lh_n lh))) a"
  "i < nat (lh_n lh) \<Longrightarrow> ld32 (head_put lh d) (4 + 4 * i) = word_of_int (lh_block lh i)"
proof -
  let ?f = "\<lambda>i d. st32 d (4 + 4 * i) (word_of_int (lh_block lh i) :: uint32)"
  have low: "ld32 (fold ?f [0..<k] d) a = (ld32 d a :: uint32)" if "a + 4 \<le> 4" for k d a
    using that by (induction k) (simp_all add: ldn_stn_disjoint)
  then show "a + 4 \<le> 4 \<Longrightarrow> ld32 (head_put lh d) a = ld32 (st32 d 0 (word_of_int (lh_n lh))) a"
    by (simp add: head_put_def)
  have "ld32 (fold ?f [0..<k] d) (4 + 4 * i) = word_of_int (lh_block lh i)" if "i < k" for k d
    using that
  proof (induction k)
    case (Suc k)
    then show ?case by (cases "i = k") (simp_all add: ldn_stn_same ldn_stn_disjoint)
  qed simp
  then show "i < nat (lh_n lh) \<Longrightarrow> ld32 (head_put lh d) (4 + 4 * i) = word_of_int (lh_block lh i)"
    by (simp add: head_put_def)
qed

lemma ld32_block_of: "a + 4 \<le> BSIZE \<Longrightarrow> ld32 (block_of d) a = ld32 d a"
  by (rule ldn_cong) (simp add: block_of_def)

lemma head_of_put:
  assumes "0 \<le> lh_n lh" "lh_n lh \<le> LOGBLOCKS"
  shows "head_n (block_of (head_put lh d)) = lh_n lh"
    "i < nat (lh_n lh) \<Longrightarrow> blk (head_block (block_of (head_put lh d)) i) = blk (lh_block lh i)"
proof -
  have "lh_n lh \<le> 30" using assms by (simp add: LOGBLOCKS_def MAXOPBLOCKS_def)
  then show "head_n (block_of (head_put lh d)) = lh_n lh"
    using assms(1) by (simp add: head_n_def ld32_block_of BSIZE_def ld32_head_put(1) ldn_stn_same int_word_sint)
  show "blk (head_block (block_of (head_put lh d)) i) = blk (lh_block lh i)" if "i < nat (lh_n lh)"
    using that \<open>lh_n lh \<le> 30\<close> by (simp add: head_block_def ld32_block_of BSIZE_def ld32_head_put(2) blk_def)
qed

section \<open>The loops of the log\<close>

text \<open>No buffer is in use, the buffers \<open>P\<close> are pinned, and \<open>V\<close> is the contents of the log's device.\<close>

definition quiet :: "(uint32 \<Rightarrow> bytes) \<Rightarrow> nat set \<Rightarrow> 'z logst_scheme \<Rightarrow> bool" where
  "quiet V P s \<longleftrightarrow> cache_ok (blk (log_dev s)) V {} P s \<and> locks_ok {} s"

lemma brest_log:
  assumes "brest t = brest s"
  shows "log_lh t = log_lh s" "log_start t = log_start s" "log_dev t = log_dev s" "log_outstanding t = log_outstanding s"
    "log_committing t = log_committing s" "held t = held s"
proof -
  have "f (brest t) = f (brest s)" for f :: "'a logst_scheme \<Rightarrow> 'b" by (simp only: assms)
  from this [of log_lh] this [of log_start] this [of log_dev] this [of log_outstanding] this [of log_committing] this [of held]
  show "log_lh t = log_lh s" "log_start t = log_start s" "log_dev t = log_dev s" "log_outstanding t = log_outstanding s"
    "log_committing t = log_committing s" "held t = held s" by (simp_all add: brest_def)
qed

text \<open>What a loop of the log does: it writes \<open>W\<close>, and leaves the buffers \<open>P\<close> pinned.\<close>

definition writes :: "(uint32 \<Rightarrow> bytes) \<Rightarrow> nat set \<Rightarrow> (uint32 \<times> bytes) list \<Rightarrow> 'z logst_scheme \<Rightarrow> 'z logst_scheme \<Rightarrow> bool" where
  "writes V P W s t \<longleftrightarrow> quiet (apply_writes V W) P t \<and> disk t = apply_writes (disk s) W \<and>
     disk_writes t = disk_writes s @ W \<and> brest t = brest s \<and> (\<forall>c \<in> P. b_blockno (bufs t c) = b_blockno (bufs s c))"

lemma writesD:
  assumes "writes V P W s t"
  shows "quiet (apply_writes V W) P t" "brest t = brest s" "c \<in> P \<Longrightarrow> b_blockno (bufs t c) = b_blockno (bufs s c)"
  using assms by (simp_all add: writes_def)

lemma writes_trans:
  assumes "writes V P W s t" "writes (apply_writes V W) Q X t u" "Q \<subseteq> P"
  shows "writes V Q (W @ X) s u"
  using assms by (auto simp: writes_def)

lemma loop_writes:
  assumes q: "quiet V (P 0) s" and turn: "\<And>k t. k < n \<Longrightarrow> writes V (P k) (map w [0..<k]) s t \<Longrightarrow>
      \<exists>z. f k t = Some z \<and> writes (apply_writes V (map w [0..<k])) (P (Suc k)) [w k] t z"
    and P: "\<And>k. P (Suc k) \<subseteq> P k"
  shows "\<exists>t. for_each f [0..<n] s = Some t \<and> writes V (P n) (map w [0..<n]) s t"
proof -
  have "k \<le> n \<Longrightarrow> \<exists>t. for_each f [0..<k] s = Some t \<and> writes V (P k) (map w [0..<k]) s t" for k
  proof (induction k)
    case 0
    then show ?case using q by (simp add: writes_def)
  next
    case (Suc k)
    then obtain t where t: "for_each f [0..<k] s = Some t" "writes V (P k) (map w [0..<k]) s t" by auto
    with turn [of k t] Suc.prems obtain z where "f k t = Some z" "writes (apply_writes V (map w [0..<k])) (P (Suc k)) [w k] t z" by auto
    then show ?case using t writes_trans [OF t(2) _ P] by (simp add: for_each_append)
  qed
  then show ?thesis by simp
qed

lemma write_log_turn:
  assumes q: "quiet V P s" and ne: "blk (lh_block (log_lh s) k) \<noteq> log_blk (log_start s) k" and room: "card P + 2 \<le> NBUF"
  shows "\<exists>z. do { (to, s) \<leftarrow> bread sw (blk (log_dev s)) (blk (log_start s + int k + 1)) s;
            (from, s) \<leftarrow> bread sw (blk (log_dev s)) (blk (lh_block (log_lh s) k)) s;
            let s = upd_buf to (\<lambda>x. x\<lparr>b_data := blit (b_data x) 0 (b_data (bufs s from)) 0 BSIZE\<rparr>) s;
            s \<leftarrow> bwrite to s;
            s \<leftarrow> brelse from s;
            brelse to s } = Some z \<and>
    writes V P [(log_blk (log_start s) k, V (blk (lh_block (log_lh s) k)))] s z"
proof -
  let ?dev = "blk (log_dev s)" let ?dst = "log_blk (log_start s) k" let ?src = "blk (lh_block (log_lh s) k)"
  have i: "cache_ok ?dev V {} P s \<and> locks_ok {} s" using q by (simp add: quiet_def)
  obtain t f r u v w z where c: "bread sw ?dev ?dst s = Some (t, r)" "bread sw ?dev ?src r = Some (f, u)"
    "bwrite t (upd_buf t (\<lambda>x. x\<lparr>b_data := blit (b_data (bufs u t)) 0 (b_data (bufs u f)) 0 BSIZE\<rparr>) u) = Some v"
    "brelse f v = Some w" "brelse t w = Some z" "brest r = brest s"
    "cache_ok ?dev (V(?dst := V ?src)) {} P z \<and> locks_ok {} z" "disk z = (disk s)(?dst := V ?src)"
    "disk_writes z = disk_writes s @ [(?dst, V ?src)]" "brest z = brest s"
    "\<forall>c \<in> P. b_blockno (bufs z c) = b_blockno (bufs s c)"
    by (rule bc.copy_to_log [OF i ne room, of sw])
  have "upd_buf t (\<lambda>x. x\<lparr>b_data := blit (b_data x) 0 (b_data (bufs u f)) 0 BSIZE\<rparr>) u =
      upd_buf t (\<lambda>x. x\<lparr>b_data := blit (b_data (bufs u t)) 0 (b_data (bufs u f)) 0 BSIZE\<rparr>) u"
    by (simp add: upd_buf_def)
  then show ?thesis using c(1-5) brest_log [OF c(6)] brest_log(3) [OF c(10)] c(7-11)
    by (simp add: log_blk_def writes_def quiet_def)
qed

lemma write_log_writes:
  assumes q: "quiet V P s" and a: "area_ok (log_start s) (nat (lh_n (log_lh s))) (\<lambda>i. blk (lh_block (log_lh s) i))"
    and room: "card P + 2 \<le> NBUF"
  shows "\<exists>t. write_log sw s = Some t \<and>
    writes V P (map (\<lambda>i. (log_blk (log_start s) i, V (blk (lh_block (log_lh s) i)))) [0..<nat (lh_n (log_lh s))]) s t"
  unfolding write_log_def
proof (rule loop_writes [where P = "\<lambda>_. P", OF q])
  let ?W = "\<lambda>k. map (\<lambda>i. (log_blk (log_start s) i, V (blk (lh_block (log_lh s) i)))) [0..<k]"
  fix k t assume k: "k < nat (lh_n (log_lh s))" and t: "writes V P (?W k) s t"
  have k': "k < nat LOGBLOCKS" using k area_okD(1) [OF a] by simp
  have "apply_writes V (?W k) (blk (lh_block (log_lh s) k)) = V (blk (lh_block (log_lh s) k))"
  proof (rule apply_writes_map_other)
    show "log_blk (log_start s) i \<noteq> blk (lh_block (log_lh s) k)" if "i \<in> set [0..<k]" for i
      using area_okD(3) [OF a k, of i] that k' by simp
  qed
  then show "\<exists>z. do { (to, s) \<leftarrow> bread sw (blk (log_dev t)) (blk (log_start t + int k + 1)) t;
            (from, s) \<leftarrow> bread sw (blk (log_dev s)) (blk (lh_block (log_lh s) k)) s;
            let s = upd_buf to (\<lambda>x. x\<lparr>b_data := blit (b_data x) 0 (b_data (bufs s from)) 0 BSIZE\<rparr>) s;
            s \<leftarrow> bwrite to s;
            s \<leftarrow> brelse from s;
            brelse to s } = Some z \<and>
      writes (apply_writes V (?W k)) P [(log_blk (log_start s) k, V (blk (lh_block (log_lh s) k)))] t z"
    using write_log_turn [OF writesD(1) [OF t], of k sw] area_okD(3) [OF a k k'] room brest_log(1,2) [OF writesD(2) [OF t]]
    by simp
qed simp

lemma quiet_klog: "quiet V P (s\<lparr>klog := l\<rparr>) = quiet V P s"
  by (simp add: quiet_def cache_ok_def locks_ok_def others_free_def myproc_def cpuid_def)

lemma writes_klog: "writes V P W (s\<lparr>klog := l\<rparr>) t = writes V P W s t"
  by (simp add: writes_def brest_def)

lemma install_turn:
  assumes q: "quiet V P s" and ne: "log_blk (log_start s) k \<noteq> blk (lh_block (log_lh s) k)" and room: "card P + 2 \<le> NBUF"
    and pin: "\<not> recovering \<longrightarrow> b \<in> P \<and> b_blockno (bufs s b) = blk (lh_block (log_lh s) k)"
  shows "\<exists>z. do { (lbuf, s) \<leftarrow> bread sw (blk (log_dev s)) (blk (log_start s + int k + 1)) s;
            (dbuf, s) \<leftarrow> bread sw (blk (log_dev s)) (blk (lh_block (log_lh s) k)) s;
            let s = upd_buf dbuf (\<lambda>x. x\<lparr>b_data := blit (b_data x) 0 (b_data (bufs s lbuf)) 0 BSIZE\<rparr>) s;
            s \<leftarrow> bwrite dbuf s;
            s \<leftarrow> (if \<not> recovering then bunpin dbuf s else Some s);
            s \<leftarrow> brelse lbuf s;
            brelse dbuf s } = Some z \<and>
    writes V (if \<not> recovering then P - {b} else P) [(blk (lh_block (log_lh s) k), V (log_blk (log_start s) k))] s z"
proof -
  let ?dev = "blk (log_dev s)" let ?src = "log_blk (log_start s) k" let ?dst = "blk (lh_block (log_lh s) k)"
  let ?Q = "if \<not> recovering then P - {b} else P"
  have i: "cache_ok ?dev V {} P s \<and> locks_ok {} s" using q by (simp add: quiet_def)
  obtain f t r u v x w z where c: "bread sw ?dev ?src s = Some (f, r)" "bread sw ?dev ?dst r = Some (t, u)"
    "bwrite t (upd_buf t (\<lambda>x. x\<lparr>b_data := blit (b_data (bufs u t)) 0 (b_data (bufs u f)) 0 BSIZE\<rparr>) u) = Some v"
    "(if \<not> recovering then bunpin t v else Some v) = Some x"
    "brelse f x = Some w" "brelse t w = Some z" "brest r = brest s"
    "cache_ok ?dev (V(?dst := V ?src)) {} ?Q z \<and> locks_ok {} z" "disk z = (disk s)(?dst := V ?src)"
    "disk_writes z = disk_writes s @ [(?dst, V ?src)]" "brest z = brest s"
    "\<forall>c \<in> P. b_blockno (bufs z c) = b_blockno (bufs s c)"
    by (rule bc.copy_to_home [OF i ne room pin, of sw])
  have "upd_buf t (\<lambda>x. x\<lparr>b_data := blit (b_data x) 0 (b_data (bufs u f)) 0 BSIZE\<rparr>) u =
      upd_buf t (\<lambda>x. x\<lparr>b_data := blit (b_data (bufs u t)) 0 (b_data (bufs u f)) 0 BSIZE\<rparr>) u"
    by (simp add: upd_buf_def)
  then show ?thesis using c(1-6) brest_log [OF c(7)] brest_log(3) [OF c(11)] c(8-12)
    by (cases recovering) (simp_all add: log_blk_def writes_def quiet_def)
qed

lemma install_step:
  assumes "quiet V P s" and "log_blk (log_start s) k \<noteq> blk (lh_block (log_lh s) k)" and "card P + 2 \<le> NBUF"
    and "\<not> recovering \<longrightarrow> b \<in> P \<and> b_blockno (bufs s b) = blk (lh_block (log_lh s) k)"
    and "recovering \<longrightarrow> L_pr \<notin> set (held s)"
  shows "\<exists>z. do { s \<leftarrow> (if recovering
                 then kprintf ''recovering tail %d dst %d\<newline>'' [KInt (int k), KInt (lh_block (log_lh s) k)] s
                 else Some s);
            (lbuf, s) \<leftarrow> bread sw (blk (log_dev s)) (blk (log_start s + int k + 1)) s;
            (dbuf, s) \<leftarrow> bread sw (blk (log_dev s)) (blk (lh_block (log_lh s) k)) s;
            let s = upd_buf dbuf (\<lambda>x. x\<lparr>b_data := blit (b_data x) 0 (b_data (bufs s lbuf)) 0 BSIZE\<rparr>) s;
            s \<leftarrow> bwrite dbuf s;
            s \<leftarrow> (if \<not> recovering then bunpin dbuf s else Some s);
            s \<leftarrow> brelse lbuf s;
            brelse dbuf s } = Some z \<and>
    writes V (if \<not> recovering then P - {b} else P) [(blk (lh_block (log_lh s) k), V (log_blk (log_start s) k))] s z"
proof (cases recovering)
  case True
  let ?u = "s\<lparr>klog := klog s @ [(''recovering tail %d dst %d\<newline>'', [KInt (int k), KInt (lh_block (log_lh s) k)])]\<rparr>"
  show ?thesis
    using install_turn [of V P ?u k recovering b sw] assms True by (simp add: quiet_klog writes_klog kprintf_eq)
next
  case False
  then show ?thesis using install_turn [of V P s k recovering b sw] assms by simp
qed

text \<open>\<open>pin i\<close> is the buffer that the log pinned for its slot \<open>i\<close>.\<close>

lemma install_trans_writes:
  assumes q: "quiet V (if recovering then {} else pin ` {..<n}) s" and n: "n = nat (lh_n (log_lh s))"
    and a: "area_ok (log_start s) n (\<lambda>i. blk (lh_block (log_lh s) i))" and room: "n + 2 \<le> NBUF \<or> recovering"
    and pin: "\<not> recovering \<longrightarrow> inj_on pin {..<n} \<and> (\<forall>i<n. b_blockno (bufs s (pin i)) = blk (lh_block (log_lh s) i))"
    and print: "recovering \<longrightarrow> L_pr \<notin> set (held s)"
  shows "\<exists>t. install_trans sw recovering s = Some t \<and>
    writes V {} (map (\<lambda>i. (blk (lh_block (log_lh s) i), V (log_blk (log_start s) i))) [0..<n]) s t"
proof -
  let ?H = "\<lambda>i. blk (lh_block (log_lh s) i)" let ?st = "log_start s"
  let ?W = "\<lambda>k. map (\<lambda>i. (?H i, V (log_blk ?st i))) [0..<k]"
  let ?P = "\<lambda>k. if recovering then {} else pin ` {k..<n}"
  have "\<exists>t. install_trans sw recovering s = Some t \<and> writes V (?P n) (?W n) s t"
    unfolding install_trans_def n [symmetric]
  proof (rule loop_writes [where P = ?P])
    show "quiet V (?P 0) s" using q by (simp add: atLeast0LessThan cong: if_cong)
    show "?P (Suc k) \<subseteq> ?P k" for k by auto
    fix k t assume k: "k < n" and t: "writes V (?P k) (?W k) s t"
    have k': "k < nat LOGBLOCKS" using k area_okD(1) [OF a] by simp
    note l = brest_log [OF writesD(2) [OF t]]
    have src: "apply_writes V (?W k) (log_blk ?st k) = V (log_blk ?st k)"
    proof (rule apply_writes_map_other)
      show "?H i \<noteq> log_blk ?st k" if "i \<in> set [0..<k]" for i using area_okD(3) [OF a _ k', of i] that k by simp
    qed
    have nxt: "(if \<not> recovering then ?P k - {pin k} else ?P k) = ?P (Suc k)"
    proof (cases recovering)
      case False
      then have "pin j \<noteq> pin k" if "j \<in> {Suc k..<n}" for j
        using pin k that inj_onD [of pin "{..<n}" j k] by auto
      moreover have "{k..<n} = insert k {Suc k..<n}" using k by auto
      ultimately show ?thesis using False by auto
    qed simp
    have "card (?P k) + 2 \<le> NBUF"
      using room card_image_le [of "{k..<n}" pin] by (auto simp: NBUF_def MAXOPBLOCKS_def)
    moreover have "\<not> recovering \<longrightarrow> pin k \<in> ?P k \<and> b_blockno (bufs t (pin k)) = blk (lh_block (log_lh t) k)"
      using pin k writesD(3) [OF t, of "pin k"] by (simp add: l)
    moreover have "log_blk (log_start t) k \<noteq> blk (lh_block (log_lh t) k)"
      using area_okD(3) [OF a k k'] by (simp add: l eq_commute)
    ultimately show "\<exists>z. do { s \<leftarrow> (if recovering
                 then kprintf ''recovering tail %d dst %d\<newline>'' [KInt (int k), KInt (lh_block (log_lh t) k)] t
                 else Some t);
            (lbuf, s) \<leftarrow> bread sw (blk (log_dev s)) (blk (log_start s + int k + 1)) s;
            (dbuf, s) \<leftarrow> bread sw (blk (log_dev s)) (blk (lh_block (log_lh s) k)) s;
            let s = upd_buf dbuf (\<lambda>x. x\<lparr>b_data := blit (b_data x) 0 (b_data (bufs s lbuf)) 0 BSIZE\<rparr>) s;
            s \<leftarrow> bwrite dbuf s;
            s \<leftarrow> (if \<not> recovering then bunpin dbuf s else Some s);
            s \<leftarrow> brelse lbuf s;
            brelse dbuf s } = Some z \<and>
        writes (apply_writes V (?W k)) (?P (Suc k)) [(?H k, V (log_blk ?st k))] t z"
      using install_step [OF writesD(1) [OF t], of k recovering "pin k" sw] print
      unfolding nxt l src by simp
  qed
  moreover have "?P n = {}" by simp
  ultimately show ?thesis by (simp only:)
qed

section \<open>The header\<close>

lemma upd_buf_log [simp]:
  "log_lh (upd_buf b f s) = log_lh s" "log_start (upd_buf b f s) = log_start s" "log_dev (upd_buf b f s) = log_dev s"
  by (simp_all add: upd_buf_def)

lemma head_loop:
  "for_each (\<lambda>i s. Some (upd_buf b (\<lambda>x. x\<lparr>b_data := st32 (b_data x) (4 + 4 * i) (word_of_int (lh_block (log_lh s) i))\<rparr>) s)) is s =
   Some (upd_buf b (\<lambda>x. x\<lparr>b_data := fold (\<lambda>i d. st32 d (4 + 4 * i) (word_of_int (lh_block (log_lh s) i))) is (b_data (bufs s b))\<rparr>) s)"
proof (induction "is" arbitrary: s)
  case Nil
  have "(bufs s b)\<lparr>b_data := b_data (bufs s b)\<rparr> = bufs s b" by simp
  then show ?case by (simp add: upd_buf_def)
next
  case (Cons i "is")
  then show ?case by (simp add: upd_buf_def)
qed

lemma write_head_writes:
  assumes q: "quiet V P s" and room: "card P < NBUF"
  shows "\<exists>t d. write_head sw s = Some t \<and> block_of d = V (blk (log_start s)) \<and>
    writes V P [(blk (log_start s), block_of (head_put (log_lh s) d))] s t"
proof -
  let ?dev = "blk (log_dev s)" let ?n = "blk (log_start s)"
  have i: "cache_ok ?dev V {} P s \<and> locks_ok {} s" using q by (simp add: quiet_def)
  obtain b r v z where c: "bread sw ?dev ?n s = Some (b, r)"
    "bwrite b (upd_buf b (\<lambda>x. x\<lparr>b_data := head_put (log_lh s) (b_data (bufs r b))\<rparr>) r) = Some v" "brelse b v = Some z"
    "block_of (b_data (bufs r b)) = V ?n" "brest r = brest s"
    "cache_ok ?dev (V(?n := block_of (head_put (log_lh s) (b_data (bufs r b))))) {} P z \<and> locks_ok {} z"
    "disk z = (disk s)(?n := block_of (head_put (log_lh s) (b_data (bufs r b))))"
    "disk_writes z = disk_writes s @ [(?n, block_of (head_put (log_lh s) (b_data (bufs r b))))]" "brest z = brest s"
    "\<forall>c \<in> P. b_blockno (bufs z c) = b_blockno (bufs s c)"
    by (rule bc.rewrite_block [OF i room, of sw ?n "head_put (log_lh s)"])
  note l = brest_log [OF c(5)]
  have "write_head sw s = Some z"
    using c(1-3) by (simp add: write_head_def head_loop l head_put_def) (simp add: upd_buf_def)
  then show ?thesis using c(4,6-10) brest_log(3) [OF c(9)]
    by (intro exI [of _ z] exI [of _ "b_data (bufs r b)"]) (simp add: writes_def quiet_def)
qed

lemma head_read_loop:
  "for_each (\<lambda>i s. Some (s\<lparr>log_lh := (log_lh s)\<lparr>lh_block := (lh_block (log_lh s))(i := head_block d i)\<rparr>\<rparr>)) is s =
   Some (s\<lparr>log_lh := (log_lh s)\<lparr>lh_block := (\<lambda>i. if i \<in> set is then head_block d i else lh_block (log_lh s) i)\<rparr>\<rparr>)"
  by (induction "is" arbitrary: s) (auto intro!: logst.equality logheader.equality)

lemma head_of_block:
  "head_n (block_of d) = head_n d" "i < nat LOGBLOCKS \<Longrightarrow> head_block (block_of d) i = head_block d i"
  by (simp_all add: head_n_def head_block_def ld32_block_of BSIZE_def LOGBLOCKS_def MAXOPBLOCKS_def)

lemma logheader_upd: "x\<lparr>lh_n := n, lh_block := f\<rparr> = \<lparr>lh_n = n, lh_block = f\<rparr>"
  by (cases x) simp

lemma quiet_lh: "quiet V P (s\<lparr>log_lh := l\<rparr>) = quiet V P s"
  by (simp add: quiet_def cache_ok_def locks_ok_def others_free_def myproc_def cpuid_def)

text \<open>\<open>read_head\<close> changes the in-memory header and nothing else that matters to the log.\<close>

lemma read_head_loads:
  assumes q: "quiet V P s" and room: "card P < NBUF" and n: "nat (head_n (V (blk (log_start s)))) \<le> nat LOGBLOCKS"
  shows "\<exists>t. read_head sw s = Some t \<and> quiet V P t \<and> disk t = disk s \<and> disk_writes t = disk_writes s \<and>
    lh_n (log_lh t) = head_n (V (blk (log_start s))) \<and>
    (\<forall>i < nat (lh_n (log_lh t)). lh_block (log_lh t) i = head_block (V (blk (log_start s))) i) \<and>
    log_start t = log_start s \<and> log_dev t = log_dev s \<and> held t = held s"
proof -
  let ?dev = "blk (log_dev s)" let ?n = "blk (log_start s)"
  have i: "cache_ok ?dev V {} P s \<and> locks_ok {} s" using q by (simp add: quiet_def)
  obtain b t where t: "bread sw ?dev ?n s = Some (b, t)" "cache_ok ?dev V {b} P t \<and> locks_ok {b} t" "b_blockno (bufs t b) = ?n"
    "block_of (b_data (bufs t b)) = V ?n" "\<forall>c \<in> P. b_blockno (bufs t c) = b_blockno (bufs s c)"
    "disk t = disk s" "disk_writes t = disk_writes s" "brest t = brest s" "b \<in> P \<or> disk s ?n = V ?n"
    by (rule bc.read_block [OF i room, of sw ?n])
  let ?d = "b_data (bufs t b)"
  let ?lh = "\<lparr>lh_n = head_n ?d, lh_block = (\<lambda>i. if i < nat (head_n ?d) then head_block ?d i else lh_block (log_lh t) i)\<rparr>"
  have "cache_ok ?dev V {b} P (t\<lparr>log_lh := ?lh\<rparr>) \<and> locks_ok {b} (t\<lparr>log_lh := ?lh\<rparr>)"
    using t(2) by (simp add: cache_ok_def locks_ok_def others_free_def myproc_def cpuid_def)
  from bc.rel [OF this, of b] t(3,6,9) obtain u where u: "brelse b (t\<lparr>log_lh := ?lh\<rparr>) = Some u"
    "cache_ok ?dev V {} P u \<and> locks_ok {} u" "disk u = disk t" "disk_writes u = disk_writes t" "brest u = brest (t\<lparr>log_lh := ?lh\<rparr>)"
    by auto
  note l = brest_log [OF u(5), simplified] brest_log [OF t(8)]
  have "read_head sw s = Some u"
    using t(1) u(1) by (simp add: read_head_def head_read_loop Let_def logheader_upd cong: if_cong)
  moreover have "head_n (V ?n) = head_n ?d" using head_of_block(1) [of ?d] t(4) by simp
  moreover have "head_block (V ?n) i = head_block ?d i" if "i < nat (head_n ?d)" for i
    using head_of_block(2) [of i ?d] t(4) that n \<open>head_n (V ?n) = head_n ?d\<close> by simp
  ultimately show ?thesis using u(2-4) t(6,7) l by (simp add: quiet_def)
qed

section \<open>Commit and recovery as sequences of disk writes\<close>

text \<open>
  The log found on a disk: how many blocks it holds, where they belong, whether it makes sense,
  and the disk once its blocks have been copied home.
\<close>

definition log_n :: "int \<Rightarrow> (uint32 \<Rightarrow> bytes) \<Rightarrow> nat" where
  "log_n st D = nat (head_n (D (blk st)))"

definition log_home :: "int \<Rightarrow> (uint32 \<Rightarrow> bytes) \<Rightarrow> nat \<Rightarrow> uint32" where
  "log_home st D i = blk (head_block (D (blk st)) i)"

definition log_wf :: "int \<Rightarrow> (uint32 \<Rightarrow> bytes) \<Rightarrow> bool" where
  "log_wf st D \<longleftrightarrow> area_ok st (log_n st D) (log_home st D)"

definition home_writes :: "int \<Rightarrow> (uint32 \<Rightarrow> bytes) \<Rightarrow> (uint32 \<times> bytes) list" where
  "home_writes st D = map (\<lambda>i. (log_home st D i, D (log_blk st i))) [0..<log_n st D]"

definition recovered :: "int \<Rightarrow> (uint32 \<Rightarrow> bytes) \<Rightarrow> uint32 \<Rightarrow> bytes" where
  "recovered st D = apply_writes D (home_writes st D)"

text \<open>Two disks agree outside the log.\<close>

definition home_eq :: "int \<Rightarrow> (uint32 \<Rightarrow> bytes) \<Rightarrow> (uint32 \<Rightarrow> bytes) \<Rightarrow> bool" where
  "home_eq st D E \<longleftrightarrow> (\<forall>b. b \<notin> log_area st \<longrightarrow> D b = E b)"

lemma log_blk_area: "i < nat LOGBLOCKS \<Longrightarrow> log_blk st i \<in> log_area st" "blk st \<in> log_area st"
  by (simp_all add: log_area_def)

lemma home_eq_writes:
  assumes "fst ` set ws \<subseteq> log_area st"
  shows "home_eq st (apply_writes D ws) D"
  using assms by (auto simp: home_eq_def intro!: apply_writes_other)

lemma home_eq_trans: "home_eq st D E \<Longrightarrow> home_eq st E F \<Longrightarrow> home_eq st D F"
  by (simp add: home_eq_def)

text \<open>An empty log changes nothing.\<close>

lemma empty_log: "log_n st D = 0 \<Longrightarrow> recovered st D = D"
  by (simp add: recovered_def home_writes_def)

lemma empty_log_wf: "log_n st D = 0 \<Longrightarrow> area_ok st n H \<Longrightarrow> log_wf st D"
  by (simp add: log_wf_def area_ok_def)

text \<open>
  A committed log of the blocks \<open>V (H i)\<close>, of which the first \<open>j\<close> have been copied home
  already: recovery gives \<open>V\<close> whatever \<open>j\<close> is.
\<close>

lemma committed_log:
  assumes a: "area_ok st n H" and h: "nat (head_n (D (blk st))) = n" "\<And>i. i < n \<Longrightarrow> blk (head_block (D (blk st)) i) = H i"
    and l: "\<And>i. i < n \<Longrightarrow> D (log_blk st i) = V (H i)"
    and other: "\<And>b. b \<notin> log_area st \<Longrightarrow> b \<notin> H ` {..<n} \<Longrightarrow> D b = V b"
  shows "log_wf st D" "home_eq st (recovered st D) V"
proof -
  have H: "log_n st D = n" "i < n \<Longrightarrow> log_home st D i = H i" for i using h by (simp_all add: log_n_def log_home_def)
  have m: "map (log_home st D) [0..<n] = map H [0..<n]" using H by simp
  show "log_wf st D" using a H by (auto simp: log_wf_def area_ok_def m simp del: map_eq_conv)
  have w: "home_writes st D = map (\<lambda>i. (H i, V (H i))) [0..<n]" using H l by (simp add: home_writes_def)
  show "home_eq st (recovered st D) V"
    unfolding home_eq_def recovered_def w
  proof (intro allI impI)
    fix b assume b: "b \<notin> log_area st"
    show "apply_writes D (map (\<lambda>i. (H i, V (H i))) [0..<n]) b = V b"
    proof (cases "b \<in> H ` {..<n}")
      case True
      then obtain i where "i < n" "b = H i" by auto
      then show ?thesis using apply_writes_map [OF area_okD(2) [OF a], of i D "\<lambda>i. V (H i)"] by simp
    next
      case False
      then have "apply_writes D (map (\<lambda>i. (H i, V (H i))) [0..<n]) b = D b" by (intro apply_writes_map_other) auto
      then show ?thesis using other b False by simp
    qed
  qed
qed

text \<open>The writes of a commit, and the disk when they are cut short.\<close>

definition commit_writes :: "int \<Rightarrow> nat \<Rightarrow> (nat \<Rightarrow> uint32) \<Rightarrow> (uint32 \<Rightarrow> bytes) \<Rightarrow> bytes \<Rightarrow> bytes \<Rightarrow> (uint32 \<times> bytes) list" where
  "commit_writes st n H V h1 h0 =
     map (\<lambda>i. (log_blk st i, V (H i))) [0..<n] @ (blk st, h1) # map (\<lambda>i. (H i, V (H i))) [0..<n] @ [(blk st, h0)]"

lemma before_commit:
  fixes V :: "uint32 \<Rightarrow> bytes"
  assumes a: "area_ok st n H" and "head_n (D (blk st)) = 0" "j \<le> n"
  defines "E \<equiv> apply_writes D (map (\<lambda>i. (log_blk st i, V (H i))) [0..<j])"
  shows "log_wf st E" "home_eq st (recovered st E) D"
proof -
  have "E (blk st) = D (blk st)" unfolding E_def
  proof (rule apply_writes_map_other)
    show "log_blk st i \<noteq> blk st" if "i \<in> set [0..<j]" for i using area_okD(1) [OF a] area_okD(5) [OF a, of i] that assms(3) by simp
  qed
  then have "log_n st E = 0" using assms(2) by (simp add: log_n_def)
  moreover have "home_eq st E D" unfolding E_def
    by (rule home_eq_writes) (use area_okD(1) [OF a] assms(3) in \<open>auto intro!: log_blk_area\<close>)
  ultimately show "log_wf st E" "home_eq st (recovered st E) D" using a by (simp_all add: empty_log empty_log_wf)
qed

lemma after_commit:
  assumes a: "area_ok st n H" and h1: "nat (head_n h1) = n" "\<And>i. i < n \<Longrightarrow> blk (head_block h1 i) = H i"
    and same: "\<And>b. D b = V b \<or> b \<in> H ` {..<n}" and "j \<le> n"
  defines "E \<equiv> apply_writes D (map (\<lambda>i. (log_blk st i, V (H i))) [0..<n] @ (blk st, h1) # map (\<lambda>i. (H i, V (H i))) [0..<j])"
  shows "log_wf st E" "home_eq st (recovered st E) V"
proof -
  let ?L = "apply_writes D (map (\<lambda>i. (log_blk st i, V (H i))) [0..<n])"
  let ?W = "map (\<lambda>i. (H i, V (H i))) [0..<j]"
  have E: "E b = apply_writes (?L(blk st := h1)) ?W b" for b by (simp add: E_def)
  have head: "E (blk st) = h1"
  proof -
    have "E (blk st) = (?L(blk st := h1)) (blk st)" unfolding E
      by (rule apply_writes_map_other) (use area_okD(4) [OF a] \<open>j \<le> n\<close> in simp)
    then show ?thesis by simp
  qed
  have log: "E (log_blk st i) = V (H i)" if "i < n" for i
  proof -
    have i: "i < nat LOGBLOCKS" using that area_okD(1) [OF a] by simp
    have "E (log_blk st i) = (?L(blk st := h1)) (log_blk st i)" unfolding E
      by (rule apply_writes_map_other) (use area_okD(3) [OF a] i \<open>j \<le> n\<close> in simp)
    also have "\<dots> = ?L (log_blk st i)" using area_okD(5) [OF a i] by simp
    also have "\<dots> = V (H i)" using apply_writes_map [OF area_okD(6) [OF a], of i] that by simp
    finally show ?thesis .
  qed
  have other: "E b = V b" if "b \<notin> log_area st" "b \<notin> H ` {..<n}" for b
  proof -
    have "E b = (?L(blk st := h1)) b" unfolding E
      by (rule apply_writes_map_other) (use that(2) \<open>j \<le> n\<close> in auto)
    also have "\<dots> = ?L b" using that(1) by (auto simp: log_area_def)
    also have "\<dots> = D b" by (rule apply_writes_map_other) (use that(1) area_okD(1) [OF a] in \<open>auto simp: log_area_def\<close>)
    finally show ?thesis using same [of b] that(2) by simp
  qed
  show "log_wf st E" "home_eq st (recovered st E) V"
    by (rule committed_log [OF a]; use h1 head log other in simp)+
qed

lemma after_install:
  fixes h1 :: bytes
  assumes a: "area_ok st n H" and h0: "head_n h0 = 0" and same: "\<And>b. D b = V b \<or> b \<in> H ` {..<n}"
  defines "E \<equiv> apply_writes D (commit_writes st n H V h1 h0)"
  shows "log_wf st E" "home_eq st (recovered st E) V" "home_eq st E V" "log_n st E = 0"
proof -
  have n: "log_n st E = 0" using h0 by (simp add: E_def commit_writes_def log_n_def)
  have "E b = V b" if b: "b \<notin> log_area st" for b
  proof -
    let ?F = "apply_writes D (map (\<lambda>i. (log_blk st i, V (H i))) [0..<n] @ [(blk st, h1)])"
    have f: "home_eq st ?F D" by (rule home_eq_writes) (use area_okD(1) [OF a] in \<open>auto intro!: log_blk_area\<close>)
    have E: "E b = apply_writes ?F (map (\<lambda>i. (H i, V (H i))) [0..<n]) b"
      using b by (auto simp: E_def commit_writes_def log_area_def)
    show ?thesis
    proof (cases "b \<in> H ` {..<n}")
      case True
      then obtain i where "i < n" "b = H i" by auto
      then show ?thesis unfolding E using apply_writes_map [OF area_okD(2) [OF a], of i ?F "\<lambda>i. V (H i)"] by simp
    next
      case False
      then have "E b = ?F b" unfolding E by (intro apply_writes_map_other) auto
      then show ?thesis using f b same [of b] False by (simp add: home_eq_def)
    qed
  qed
  then show "home_eq st E V" by (simp add: home_eq_def)
  then show "log_wf st E" "home_eq st (recovered st E) V" "log_n st E = 0" using n a by (simp_all add: empty_log empty_log_wf)
qed

lemma crash_points:
  assumes a: "area_ok st n H" and "head_n (D (blk st)) = 0" and h1: "nat (head_n h1) = n" "\<And>i. i < n \<Longrightarrow> blk (head_block h1 i) = H i"
    and h0: "head_n h0 = 0" and same: "\<And>b. D b = V b \<or> b \<in> H ` {..<n}"
  defines "E \<equiv> \<lambda>k. apply_writes D (take k (commit_writes st n H V h1 h0))"
  shows "log_wf st (E k)" "home_eq st (recovered st (E k)) (if k \<le> n then D else V)"
proof -
  consider "k \<le> n" | "n < k" "k \<le> 2 * n + 1" | "2 * n + 1 < k" by linarith
  then have "log_wf st (E k) \<and> home_eq st (recovered st (E k)) (if k \<le> n then D else V)"
  proof cases
    case 1
    then have "take k (commit_writes st n H V h1 h0) = map (\<lambda>i. (log_blk st i, V (H i))) [0..<k]"
      by (simp add: commit_writes_def take_map)
    then show ?thesis using before_commit [of st n H D k V, OF a assms(2) 1] 1 by (simp add: E_def)
  next
    case 2
    define j where "j = k - Suc n"
    then have j: "k = n + Suc j" "j \<le> n" using 2 by simp_all
    then have "take k (commit_writes st n H V h1 h0) =
        map (\<lambda>i. (log_blk st i, V (H i))) [0..<n] @ (blk st, h1) # map (\<lambda>i. (H i, V (H i))) [0..<j]"
      by (simp add: commit_writes_def take_map)
    then show ?thesis using after_commit [of st n H h1 D V j, OF a h1 same j(2)] j(1) by (simp add: E_def)
  next
    case 3
    then have "take k (commit_writes st n H V h1 h0) = commit_writes st n H V h1 h0" by (simp add: commit_writes_def)
    then show ?thesis using after_install [of st n H h0 D V h1, OF a h0 same] 3 by (simp add: E_def)
  qed
  then show "log_wf st (E k)" "home_eq st (recovered st (E k)) (if k \<le> n then D else V)" by simp_all
qed

section \<open>Commit\<close>

text \<open>
  A transaction in progress: its blocks are cached, each pinned once by \<open>log_write\<close>, and not
  part of the log. It can be committed when two buffers are left for the copying.
\<close>

definition txn_inv :: "(uint32 \<Rightarrow> bytes) \<Rightarrow> 'z logst_scheme \<Rightarrow> bool" where
  "txn_inv V s \<longleftrightarrow> (\<exists>pin. inj_on pin {..<nat (lh_n (log_lh s))} \<and> quiet V (pin ` {..<nat (lh_n (log_lh s))}) s \<and>
     (\<forall>i < nat (lh_n (log_lh s)). b_blockno (bufs s (pin i)) = blk (lh_block (log_lh s) i))) \<and>
     0 \<le> lh_n (log_lh s) \<and> area_ok (log_start s) (nat (lh_n (log_lh s))) (\<lambda>i. blk (lh_block (log_lh s) i)) \<and>
     (\<forall>i < nat (lh_n (log_lh s)). lh_block (log_lh s) i = sint (blk (lh_block (log_lh s) i)))"

definition txn_ok :: "(uint32 \<Rightarrow> bytes) \<Rightarrow> 'z logst_scheme \<Rightarrow> bool" where
  "txn_ok V s \<longleftrightarrow> txn_inv V s \<and> 0 < lh_n (log_lh s) \<and> nat (lh_n (log_lh s)) + 2 \<le> NBUF"

lemma txn_on_disk:
  assumes "txn_ok V s"
  shows "disk s b = V b \<or> b \<in> (\<lambda>i. blk (lh_block (log_lh s) i)) ` {..<nat (lh_n (log_lh s))}"
proof -
  obtain pin where pin: "quiet V (pin ` {..<nat (lh_n (log_lh s))}) s"
    "\<forall>i < nat (lh_n (log_lh s)). b_blockno (bufs s (pin i)) = blk (lh_block (log_lh s) i)"
    using assms by (auto simp: txn_ok_def txn_inv_def)
  have "disk s b = V b \<or> (\<exists>e \<in> {} \<union> pin ` {..<nat (lh_n (log_lh s))}. b_blockno (bufs s e) = b)"
    using cache_okD(10) [of "blk (log_dev s)" V "{}" "pin ` {..<nat (lh_n (log_lh s))}" s b] pin(1) by (simp add: quiet_def)
  then show ?thesis using pin(2) by auto
qed

text \<open>Clearing the header, the last step of commit and of recovery.\<close>

lemma clear_head:
  assumes "quiet V {} s"
  shows "\<exists>t h0. write_head sw (s\<lparr>log_lh := (log_lh s)\<lparr>lh_n := 0\<rparr>\<rparr>) = Some t \<and> head_n h0 = 0 \<and>
    quiet (V(blk (log_start s) := h0)) {} t \<and> disk t = (disk s)(blk (log_start s) := h0) \<and>
    disk_writes t = disk_writes s @ [(blk (log_start s), h0)]"
proof -
  let ?s = "s\<lparr>log_lh := (log_lh s)\<lparr>lh_n := 0\<rparr>\<rparr>"
  have q: "quiet V {} ?s" using assms by (simp only: quiet_lh)
  obtain t d where t: "write_head sw ?s = Some t" "writes V {} [(blk (log_start s), block_of (head_put (log_lh ?s) d))] ?s t"
    using write_head_writes [OF q, of sw] by (auto simp: NBUF_def MAXOPBLOCKS_def)
  let ?h0 = "block_of (head_put (log_lh ?s) d)"
  have "head_n ?h0 = 0" using head_of_put(1) [of "log_lh ?s" d] by (simp add: LOGBLOCKS_def MAXOPBLOCKS_def)
  then show ?thesis using t by (intro exI [of _ t] exI [of _ ?h0]) (simp add: writes_def)
qed

lemma log_phase:
  assumes a: "area_ok (log_start s) n H" and H: "\<And>i. blk (lh_block (log_lh s) i) = H i" and n: "n = nat (lh_n (log_lh s))" "0 < lh_n (log_lh s)"
    and q: "quiet V P s" and room: "card P + 2 \<le> NBUF"
  shows "\<exists>u t h1. write_log sw s = Some u \<and> write_head sw u = Some t \<and> nat (head_n h1) = n \<and> (\<forall>i<n. blk (head_block h1 i) = H i) \<and>
    writes V P (map (\<lambda>i. (log_blk (log_start s) i, V (H i))) [0..<n] @ [(blk (log_start s), h1)]) s t"
proof -
  let ?st = "log_start s" let ?W = "map (\<lambda>i. (log_blk (log_start s) i, V (H i))) [0..<n]"
  have lh: "0 \<le> lh_n (log_lh s)" "lh_n (log_lh s) \<le> LOGBLOCKS" using n area_okD(1) [OF a] by simp_all
  obtain u where u: "write_log sw s = Some u" "writes V P ?W s u"
    using write_log_writes [OF q _ room, of sw] a by (auto simp: H n(1))
  note l = brest_log [OF writesD(2) [OF u(2)]]
  obtain t d where t: "write_head sw u = Some t" "writes (apply_writes V ?W) P [(blk ?st, block_of (head_put (log_lh s) d))] u t"
    using write_head_writes [OF writesD(1) [OF u(2)], of sw] room by (auto simp: l)
  have "nat (head_n (block_of (head_put (log_lh s) d))) = n" "\<forall>i<n. blk (head_block (block_of (head_put (log_lh s) d)) i) = H i"
    using head_of_put(1) [OF lh, of d] head_of_put(2) [OF lh, of _ d] by (simp_all add: n(1) H)
  then show ?thesis using u(1) t(1) writes_trans [OF u(2) t(2)] by blast
qed

lemma install_phase:
  assumes a: "area_ok (log_start s) n H" and H: "\<And>i. blk (lh_block (log_lh s) i) = H i" and n: "n = nat (lh_n (log_lh s))" "n + 2 \<le> NBUF"
    and pin: "inj_on pin {..<n}" "\<forall>i<n. b_blockno (bufs s (pin i)) = H i"
    and w: "writes V (pin ` {..<n}) (map (\<lambda>i. (log_blk (log_start s) i, V (H i))) [0..<n] @ [(blk (log_start s), h1)]) s t"
  shows "\<exists>u. install_trans sw False t = Some u \<and>
    writes V {} (map (\<lambda>i. (log_blk (log_start s) i, V (H i))) [0..<n] @ (blk (log_start s), h1) # map (\<lambda>i. (H i, V (H i))) [0..<n]) s u"
proof -
  let ?st = "log_start s" let ?W = "map (\<lambda>i. (log_blk (log_start s) i, V (H i))) [0..<n] @ [(blk (log_start s), h1)]"
  define E where "E = apply_writes V ?W"
  note l = brest_log [OF writesD(2) [OF w]]
  have "E (log_blk ?st i) = V (H i)" if "i < n" for i
    using apply_writes_map [OF area_okD(6) [OF a], of i V "\<lambda>i. V (H i)"] area_okD(5) [OF a, of i] area_okD(1) [OF a] that
    by (simp add: E_def)
  then have e: "map (\<lambda>i. (H i, E (log_blk ?st i))) [0..<n] = map (\<lambda>i. (H i, V (H i))) [0..<n]" by simp
  have q: "quiet E (if False then {} else pin ` {..<n}) t" using writesD(1) [OF w] by (simp add: E_def)
  have "\<exists>u. install_trans sw False t = Some u \<and>
      writes E {} (map (\<lambda>i. (blk (lh_block (log_lh t) i), E (log_blk (log_start t) i))) [0..<n]) t u"
    by (rule install_trans_writes [OF q]) (use a n pin writesD(3) [OF w] in \<open>simp_all add: l H\<close>)
  then obtain u where u: "install_trans sw False t = Some u" "writes E {} (map (\<lambda>i. (H i, V (H i))) [0..<n]) t u"
    unfolding l H e by blast
  have "writes V {} (?W @ map (\<lambda>i. (H i, V (H i))) [0..<n]) s u"
    by (rule writes_trans [OF w]) (use u(2) in \<open>simp_all add: E_def\<close>)
  then show ?thesis using u(1) by simp
qed

lemma commit_writes_disk:
  assumes "txn_ok V s"
  defines "n \<equiv> nat (lh_n (log_lh s))" and "H \<equiv> \<lambda>i. blk (lh_block (log_lh s) i)"
  shows "\<exists>t h1 h0. commit sw s = Some t \<and> disk_writes t = disk_writes s @ commit_writes (log_start s) n H V h1 h0 \<and>
    disk t = apply_writes (disk s) (commit_writes (log_start s) n H V h1 h0) \<and>
    nat (head_n h1) = n \<and> (\<forall>i<n. blk (head_block h1 i) = H i) \<and> head_n h0 = 0"
proof -
  let ?st = "log_start s"
  obtain pin where pin: "inj_on pin {..<n}" "quiet V (pin ` {..<n}) s" "\<forall>i<n. b_blockno (bufs s (pin i)) = H i"
    and n: "0 < lh_n (log_lh s)" "n + 2 \<le> NBUF" and a: "area_ok ?st n H"
    using assms by (auto simp: txn_ok_def txn_inv_def)
  have H: "blk (lh_block (log_lh s) i) = H i" for i by (simp add: H_def)
  have card: "card (pin ` {..<n}) + 2 \<le> NBUF" using card_image [OF pin(1)] n(2) by simp
  obtain u v h1 where v: "write_log sw s = Some u" "write_head sw u = Some v" "nat (head_n h1) = n" "\<forall>i<n. blk (head_block h1 i) = H i"
    "writes V (pin ` {..<n}) (map (\<lambda>i. (log_blk ?st i, V (H i))) [0..<n] @ [(blk ?st, h1)]) s v"
    using log_phase [OF a H n_def [THEN meta_eq_to_obj_eq] n(1) pin(2) card, of sw] by blast
  obtain w where w: "install_trans sw False v = Some w"
    "writes V {} (map (\<lambda>i. (log_blk ?st i, V (H i))) [0..<n] @ (blk ?st, h1) # map (\<lambda>i. (H i, V (H i))) [0..<n]) s w"
    using install_phase [OF a H n_def [THEN meta_eq_to_obj_eq] n(2) pin(1,3) v(5), of sw] by blast
  note l = brest_log [OF writesD(2) [OF w(2)]]
  obtain t h0 where t: "write_head sw (w\<lparr>log_lh := (log_lh w)\<lparr>lh_n := 0\<rparr>\<rparr>) = Some t" "head_n h0 = 0"
    "disk t = (disk w)(blk ?st := h0)" "disk_writes t = disk_writes w @ [(blk ?st, h0)]"
    using clear_head [OF writesD(1) [OF w(2)], of sw] by (auto simp: l)
  have "commit sw s = Some t" using n(1) v(1,2) w(1) t(1) by (simp add: commit_def)
  then show ?thesis using v(3,4) t(2-4) w(2)
    by (intro exI [of _ t] exI [of _ h1] exI [of _ h0]) (simp add: writes_def commit_writes_def)
qed

section \<open>Recovery\<close>

lemma area_ok_cong: "(\<And>i. i < n \<Longrightarrow> H i = G i) \<Longrightarrow> area_ok st n H = area_ok st n G"
proof -
  assume e: "\<And>i. i < n \<Longrightarrow> H i = G i"
  then have "map H [0..<n] = map G [0..<n]" by simp
  with e show ?thesis by (simp add: area_ok_def del: map_eq_conv)
qed

lemma recover_writes_disk:
  assumes q: "quiet (disk s) {} s" and wf: "log_wf (log_start s) (disk s)" and pr: "L_pr \<notin> set (held s)"
  shows "\<exists>t h0. recover_from_log sw s = Some t \<and> head_n h0 = 0 \<and>
    disk_writes t = disk_writes s @ home_writes (log_start s) (disk s) @ [(blk (log_start s), h0)] \<and>
    disk t = apply_writes (disk s) (home_writes (log_start s) (disk s) @ [(blk (log_start s), h0)])"
proof -
  let ?st = "log_start s" let ?D = "disk s" let ?n = "log_n ?st ?D"
  have a: "area_ok ?st ?n (log_home ?st ?D)" using wf by (simp add: log_wf_def)
  obtain u where u: "read_head sw s = Some u" "quiet ?D {} u" "disk u = ?D" "disk_writes u = disk_writes s"
    "lh_n (log_lh u) = head_n (?D (blk ?st))" "\<forall>i < nat (lh_n (log_lh u)). lh_block (log_lh u) i = head_block (?D (blk ?st)) i"
    "log_start u = ?st" "log_dev u = log_dev s" "held u = held s"
    using read_head_loads [OF q, of sw] area_okD(1) [OF a] by (auto simp: log_n_def NBUF_def MAXOPBLOCKS_def)
  have n: "?n = nat (lh_n (log_lh u))" by (simp add: u(5) log_n_def)
  have H: "blk (lh_block (log_lh u) i) = log_home ?st ?D i" if "i < ?n" for i
    using u(6) that by (simp add: log_home_def n)
  have "\<exists>v. install_trans sw True u = Some v \<and>
      writes ?D {} (map (\<lambda>i. (blk (lh_block (log_lh u) i), ?D (log_blk (log_start u) i))) [0..<?n]) u v"
  proof (rule install_trans_writes)
    show "area_ok (log_start u) ?n (\<lambda>i. blk (lh_block (log_lh u) i))" using a area_ok_cong [of ?n _ _ ?st, OF H] by (simp add: u(7))
  qed (use u(2,9) n pr in simp_all)
  moreover have "map (\<lambda>i. (blk (lh_block (log_lh u) i), ?D (log_blk (log_start u) i))) [0..<?n] = home_writes ?st ?D"
    using H by (simp add: home_writes_def u(7))
  ultimately obtain v where v: "install_trans sw True u = Some v" "writes ?D {} (home_writes ?st ?D) u v" by auto
  note l = brest_log [OF writesD(2) [OF v(2)]]
  obtain t h0 where t: "write_head sw (v\<lparr>log_lh := (log_lh v)\<lparr>lh_n := 0\<rparr>\<rparr>) = Some t" "head_n h0 = 0"
    "disk t = (disk v)(blk ?st := h0)" "disk_writes t = disk_writes v @ [(blk ?st, h0)]"
    using clear_head [OF writesD(1) [OF v(2)], of sw] by (auto simp: l u(7))
  have "recover_from_log sw s = Some t" using u(1) v(1) t(1) by (simp add: recover_from_log_def)
  then show ?thesis using t(2-4) v(2) u(3,4) by (intro exI [of _ t] exI [of _ h0]) (simp add: writes_def)
qed

text \<open>The disk during recovery.\<close>

lemma recovery_points:
  assumes wf: "log_wf st D" and h0: "head_n h0 = 0"
  defines "E \<equiv> \<lambda>k. apply_writes D (take k (home_writes st D @ [(blk st, h0)]))"
  shows "log_wf st (E k)" "home_eq st (recovered st (E k)) (recovered st D)"
    "log_n st D < k \<Longrightarrow> home_eq st (E k) (recovered st D) \<and> log_n st (E k) = 0"
proof -
  let ?n = "log_n st D" let ?H = "log_home st D"
  have a: "area_ok st ?n ?H" using wf by (simp add: log_wf_def)
  show full: "home_eq st (E k) (recovered st D) \<and> log_n st (E k) = 0" if "?n < k"
    using that h0 by (auto simp: E_def home_writes_def recovered_def home_eq_def log_area_def log_n_def)
  have "log_wf st (E k) \<and> home_eq st (recovered st (E k)) (recovered st D)"
  proof (cases "k \<le> ?n")
    case True
    then have w: "take k (home_writes st D @ [(blk st, h0)]) = map (\<lambda>i. (?H i, D (log_blk st i))) [0..<k]"
      by (simp add: home_writes_def take_map)
    have keep: "E k b = D b" if "\<And>i. i < k \<Longrightarrow> ?H i \<noteq> b" for b
      unfolding E_def w by (rule apply_writes_map_other) (use that in simp)
    have head: "E k (blk st) = D (blk st)" using area_okD(4) [OF a] True by (intro keep) simp
    have "E k (log_blk st i) = recovered st D (?H i)" if "i < ?n" for i
    proof -
      have "i < nat LOGBLOCKS" using that area_okD(1) [OF a] by simp
      then have "E k (log_blk st i) = D (log_blk st i)" using area_okD(3) [OF a] True by (intro keep) simp
      also have "\<dots> = recovered st D (?H i)"
        using apply_writes_map [OF area_okD(2) [OF a], of i D "\<lambda>i. D (log_blk st i)"] that by (simp add: recovered_def home_writes_def)
      finally show ?thesis .
    qed
    moreover have "E k b = recovered st D b" if "b \<notin> ?H ` {..<?n}" for b
    proof -
      have "recovered st D b = D b" unfolding recovered_def home_writes_def
        by (rule apply_writes_map_other) (use that in auto)
      moreover have "E k b = D b"
      proof (rule keep)
        show "?H i \<noteq> b" if "i < k" for i using \<open>b \<notin> ?H ` {..<?n}\<close> that True by (metis image_eqI lessThan_iff order_less_le_trans)
      qed
      ultimately show ?thesis by simp
    qed
    ultimately show ?thesis
      using committed_log [OF a, of "E k" "recovered st D"] by (simp add: head log_n_def log_home_def)
  next
    case False
    then show ?thesis using full a by (simp add: empty_log empty_log_wf)
  qed
  then show "log_wf st (E k)" "home_eq st (recovered st (E k)) (recovered st D)" by simp_all
qed

section \<open>Building a transaction\<close>

text \<open>The transaction while its process holds the buffers \<open>B\<close>; \<open>pin i\<close> is the buffer of slot \<open>i\<close>.\<close>

definition txn_with :: "(uint32 \<Rightarrow> bytes) \<Rightarrow> nat set \<Rightarrow> (nat \<Rightarrow> nat) \<Rightarrow> 'z logst_scheme \<Rightarrow> bool" where
  "txn_with V B pin s \<longleftrightarrow> inj_on pin {..<nat (lh_n (log_lh s))} \<and>
     cache_ok (blk (log_dev s)) V B (pin ` {..<nat (lh_n (log_lh s))}) s \<and> locks_ok B s \<and>
     (\<forall>i < nat (lh_n (log_lh s)). b_blockno (bufs s (pin i)) = blk (lh_block (log_lh s) i)) \<and>
     0 \<le> lh_n (log_lh s) \<and> area_ok (log_start s) (nat (lh_n (log_lh s))) (\<lambda>i. blk (lh_block (log_lh s) i)) \<and>
     (\<forall>i < nat (lh_n (log_lh s)). lh_block (log_lh s) i = sint (blk (lh_block (log_lh s) i)))"

lemma txn_inv_with: "txn_inv V s \<longleftrightarrow> (\<exists>pin. txn_with V {} pin s)"
  by (auto simp: txn_inv_def txn_with_def quiet_def)

text \<open>The blocks of the transaction.\<close>

definition logged :: "'z logst_scheme \<Rightarrow> uint32 set" where
  "logged s = (\<lambda>i. blk (lh_block (log_lh s) i)) ` {..<nat (lh_n (log_lh s))}"

lemma log_slot_spec:
  "i \<le> log_slot lh b i k" "log_slot lh b i k \<le> i + k" "log_slot lh b i k < i + k \<Longrightarrow> lh_block lh (log_slot lh b i k) = b"
  "i \<le> m \<Longrightarrow> m < log_slot lh b i k \<Longrightarrow> lh_block lh m \<noteq> b"
proof (induction lh b i k rule: log_slot.induct)
  case (2 lh b i k)
  { case 1 show ?case using 2(1) by (cases "lh_block lh i = b") simp_all }
  { case 2 show ?case using "2.IH"(2) by (cases "lh_block lh i = b") simp_all }
  { case 3 then show ?case using "2.IH"(3) by (cases "lh_block lh i = b") simp_all }
  { case 4 then show ?case using "2.IH"(4) by (cases "lh_block lh i = b"; cases "m = i") simp_all }
qed simp_all

lemma blk_sint: "blk (sint w) = w"
  by (simp add: blk_def)

lemma log_write_absorbed:
  assumes t: "txn_with V B pin s" and "b_blockno (bufs s b) \<in> logged s" "lh_n (log_lh s) < LOGBLOCKS" "1 \<le> log_outstanding s" "L_log \<notin> set (held s)"
  shows "log_write b s = Some s"
proof -
  let ?n = "nat (lh_n (log_lh s))" let ?bn = "sint (b_blockno (bufs s b))"
  let ?i = "log_slot (log_lh s) ?bn 0 ?n"
  obtain j where j: "j < ?n" "b_blockno (bufs s b) = blk (lh_block (log_lh s) j)" using assms(2) by (auto simp: logged_def)
  then have "lh_block (log_lh s) j = ?bn" using t by (auto simp: txn_with_def)
  then have i: "?i < ?n" using log_slot_spec(4) [of 0 j "log_lh s" ?bn ?n] j(1) by (cases "?i < ?n") auto
  then have "lh_block (log_lh s) ?i = ?bn" using log_slot_spec(3) [of "log_lh s" ?bn 0 ?n] by simp
  then have "(log_lh s)\<lparr>lh_block := (lh_block (log_lh s))(?i := ?bn)\<rparr> = log_lh s" by (simp add: fun_upd_idem)
  moreover have "int ?i \<noteq> lh_n (log_lh s)" using i by linarith
  ultimately show ?thesis using assms(3-5) by (simp add: log_write_def acquire_free release_head Let_def)
qed

lemma area_ok_snoc:
  "area_ok st n H \<Longrightarrow> n < nat LOGBLOCKS \<Longrightarrow> x \<notin> log_area st \<Longrightarrow> x \<notin> H ` {..<n} \<Longrightarrow> area_ok st (Suc n) (H(n := x))"
  by (auto simp: area_ok_def distinct_map inj_on_def less_Suc_eq)

lemma txn_with_snoc:
  assumes t: "txn_with V B pin s" and new: "b_blockno (bufs s b) \<notin> logged s" "b_blockno (bufs s b) \<notin> log_area (log_start s)"
    and n: "n = nat (lh_n (log_lh s))" "lh_n (log_lh s) < LOGBLOCKS"
    and c: "cache_ok (blk (log_dev s)) V B (insert b (pin ` {..<n})) u" "locks_ok B u"
    and key: "\<And>e. b_blockno (bufs u e) = b_blockno (bufs s e)"
    and l: "log_start u = log_start s" "log_dev u = log_dev s" "lh_n (log_lh u) = lh_n (log_lh s) + 1"
      "lh_block (log_lh u) = (lh_block (log_lh s))(n := sint (b_blockno (bufs s b)))"
  shows "txn_with V B (pin(n := b)) u" "logged u = insert (b_blockno (bufs s b)) (logged s)"
proof -
  have w: "inj_on pin {..<n}" "\<forall>i<n. b_blockno (bufs s (pin i)) = blk (lh_block (log_lh s) i)" "0 \<le> lh_n (log_lh s)"
    "area_ok (log_start s) n (\<lambda>i. blk (lh_block (log_lh s) i))" "\<forall>i<n. lh_block (log_lh s) i = sint (blk (lh_block (log_lh s) i))"
    using t by (simp_all add: txn_with_def n(1))
  have n': "nat (lh_n (log_lh s) + 1) = Suc n" using w(3) by (simp add: n(1))
  show "logged u = insert (b_blockno (bufs s b)) (logged s)"
    by (auto simp: logged_def l n' lessThan_Suc blk_sint n(1) [symmetric])
  have "b \<noteq> pin i" if "i < n" for i using new(1) w(2) that unfolding logged_def n(1) by (metis image_eqI lessThan_iff)
  then have inj: "inj_on (pin(n := b)) {..<Suc n}" using w(1) by (auto simp: inj_on_def lessThan_Suc)
  have im: "(pin(n := b)) ` {..<Suc n} = insert b (pin ` {..<n})" by (auto simp: lessThan_Suc)
  have "area_ok (log_start s) (Suc n) ((\<lambda>i. blk (lh_block (log_lh s) i))(n := b_blockno (bufs s b)))"
    by (rule area_ok_snoc [OF w(4)]) (use new n w(3) in \<open>simp_all add: logged_def\<close>)
  moreover have "(\<lambda>i. blk (lh_block (log_lh s) i))(n := b_blockno (bufs s b)) = (\<lambda>i. blk (lh_block (log_lh u) i))"
    by (auto simp: l(4) blk_sint)
  ultimately have "area_ok (log_start s) (Suc n) (\<lambda>i. blk (lh_block (log_lh u) i))" by (simp only:)
  with inj show "txn_with V B (pin(n := b)) u"
    unfolding txn_with_def l(1-3) n' im using c w(2,3,5) key by (auto simp: l(4) less_Suc_eq blk_sint)
qed

text \<open>What reading and updating blocks in a transaction leaves as it is.\<close>

definition lview :: "'z logst_scheme \<Rightarrow> 'z logst_scheme" where
  "lview s = (brest s)\<lparr>log_lh := \<lparr>lh_n = 0, lh_block = (\<lambda>_. 0)\<rparr>\<rparr>"

lemma lview_brest: "brest t = brest s \<Longrightarrow> lview t = lview s"
  by (simp add: lview_def)

lemma lview_upd: "lview (s\<lparr>log_lh := l\<rparr>) = lview s" "lview (s\<lparr>held := h\<rparr>) = (lview s)\<lparr>held := h\<rparr>"
  "(lview s)\<lparr>held := held s\<rparr> = lview s" "lview (upd_buf b f s) = lview s"
  by (simp_all add: lview_def brest_def upd_buf_def)

lemma log_write_new:
  assumes t: "txn_with V B pin s" and b: "b \<in> B" and new: "b_blockno (bufs s b) \<notin> logged s" "b_blockno (bufs s b) \<notin> log_area (log_start s)"
    and "lh_n (log_lh s) < LOGBLOCKS" "1 \<le> log_outstanding s" "L_log \<notin> set (held s)"
  defines "n \<equiv> nat (lh_n (log_lh s))"
  shows "\<exists>u. log_write b s = Some u \<and> txn_with V B (pin(n := b)) u \<and> logged u = insert (b_blockno (bufs s b)) (logged s) \<and>
    lh_n (log_lh u) = lh_n (log_lh s) + 1 \<and>
    (\<forall>e. b_blockno (bufs u e) = b_blockno (bufs s e)) \<and> disk u = disk s \<and> disk_writes u = disk_writes s \<and> held u = held s \<and>
    log_start u = log_start s \<and> log_dev u = log_dev s \<and> log_outstanding u = log_outstanding s \<and> lview u = lview s"
proof -
  let ?bn = "sint (b_blockno (bufs s b))" let ?P = "pin ` {..<n}"
  let ?lh = "(log_lh s)\<lparr>lh_block := (lh_block (log_lh s))(n := ?bn)\<rparr>"
  let ?s = "s\<lparr>held := L_log # held s, log_lh := ?lh\<rparr>"
  have w: "cache_ok (blk (log_dev s)) V B ?P s" "locks_ok B s" "0 \<le> lh_n (log_lh s)"
    "\<forall>i<n. b_blockno (bufs s (pin i)) = blk (lh_block (log_lh s) i)"
    using t by (simp_all add: txn_with_def n_def)
  have nb: "blk (lh_block (log_lh s) i) \<noteq> b_blockno (bufs s b)" if "i < n" for i
    using new(1) that unfolding logged_def n_def by (metis image_eqI lessThan_iff)
  have "lh_block (log_lh s) i \<noteq> ?bn" if "i < n" for i using nb [OF that] by (auto simp: blk_sint)
  then have slot: "log_slot (log_lh s) ?bn 0 n = n"
    using log_slot_spec(2,3) [of "log_lh s" ?bn 0 n] by (cases "log_slot (log_lh s) ?bn 0 n < n") auto
  have "cache_ok (blk (log_dev s)) V B ?P ?s" using w(1) by (simp add: cache_ok_def)
  moreover have "locks_ok B ?s" using w(2) by (simp add: locks_ok_def others_free_def myproc_def cpuid_def)
  moreover have "b \<notin> ?P" using nb w(4) by fastforce
  ultimately obtain v where v: "bpin b ?s = Some v" "cache_ok (blk (log_dev s)) V B (insert b ?P) v" "locks_ok B v"
    "\<And>e. same_block (bufs v e) (bufs s e)" "disk v = disk s" "disk_writes v = disk_writes s" "brest v = brest ?s"
    using bpin_ok [of "blk (log_dev s)" V B ?P ?s b] b by auto
  note l = brest_log [OF v(7), simplified]
  let ?u = "v\<lparr>log_lh := (log_lh v)\<lparr>lh_n := lh_n (log_lh v) + 1\<rparr>, held := held s\<rparr>"
  have key: "b_blockno (bufs ?u e) = b_blockno (bufs s e)" for e using v(4) [of e] by (simp add: same_block_def)
  have "int n = lh_n (log_lh s)" using w(3) by (simp add: n_def)
  then have "log_write b s = Some ?u"
    using assms(5-7) v(1) slot l by (simp add: log_write_def acquire_free Let_def n_def [symmetric] release_head)
  moreover have "cache_ok (blk (log_dev s)) V B (insert b ?P) ?u" using v(2) by (simp add: cache_ok_def)
  moreover have "locks_ok B ?u" using v(3) l(6) by (simp add: locks_ok_def others_free_def myproc_def cpuid_def)
  moreover have "lview ?u = lview s" using lview_brest [OF v(7)] by (simp add: lview_upd)
  ultimately show ?thesis
    using txn_with_snoc [OF t new n_def [THEN meta_eq_to_obj_eq] assms(5), of ?u] key v(5,6) l
    by (intro exI [of _ ?u]) (simp add: key)
qed

lemma log_write_ok:
  assumes t: "txn_with V {b} pin s" and a: "b_blockno (bufs s b) \<notin> log_area (log_start s)"
    and "lh_n (log_lh s) < LOGBLOCKS" "1 \<le> log_outstanding s" "L_log \<notin> set (held s)"
  shows "\<exists>u pin. log_write b s = Some u \<and> txn_with V {b} pin u \<and> logged u = insert (b_blockno (bufs s b)) (logged s) \<and>
    lh_n (log_lh u) \<le> lh_n (log_lh s) + 1 \<and> b \<in> pin ` {..<nat (lh_n (log_lh u))} \<and> disk u = disk s \<and> disk_writes u = disk_writes s \<and>
    held u = held s \<and> log_start u = log_start s \<and> log_dev u = log_dev s \<and> log_outstanding u = log_outstanding s"
proof (cases "b_blockno (bufs s b) \<in> logged s")
  case True
  then obtain i where i: "i < nat (lh_n (log_lh s))" "b_blockno (bufs s b) = b_blockno (bufs s (pin i))"
    using t by (auto simp: logged_def txn_with_def)
  have c: "cache_ok (blk (log_dev s)) V {b} (pin ` {..<nat (lh_n (log_lh s))}) s" using t by (simp add: txn_with_def)
  have "b = pin i" by (rule cache_okD(9) [OF c]) (use i cache_okD(6,8) [OF c] in auto)
  then show ?thesis using log_write_absorbed [OF t True assms(3-5)] t i(1) True by (intro exI [of _ s] exI [of _ pin]) auto
next
  case False
  from log_write_new [OF t _ this a assms(3-5)] t show ?thesis
    by (auto simp: txn_with_def intro!: exI [of _ "pin(nat (lh_n (log_lh s)) := b)"])
qed

lemma txn_with_frame:
  assumes "txn_with V B pin s" "cache_ok (blk (log_dev s)) W C (pin ` {..<nat (lh_n (log_lh s))}) t" "locks_ok C t"
    "\<And>i. i < nat (lh_n (log_lh s)) \<Longrightarrow> b_blockno (bufs t (pin i)) = b_blockno (bufs s (pin i))" "brest t = brest s"
  shows "txn_with W C pin t"
  using assms(1-4) brest_log [OF assms(5)] by (simp add: txn_with_def)

lemma log_update_txn:
  assumes "txn_inv V s" "m \<notin> log_area (log_start s)" "lh_n (log_lh s) < LOGBLOCKS"
    "1 \<le> log_outstanding s" "L_log \<notin> set (held s)"
  shows "\<exists>b r t u. bread sw (blk (log_dev s)) m s = Some (b, r) \<and> log_write b (upd_buf b (\<lambda>x. x\<lparr>b_data := d\<rparr>) r) = Some t \<and>
    brelse b t = Some u \<and> txn_inv (V(m := block_of d)) u \<and> logged u = insert m (logged s) \<and>
    lh_n (log_lh u) \<le> lh_n (log_lh s) + 1 \<and> disk u = disk s \<and> disk_writes u = disk_writes s \<and> log_start u = log_start s"
proof -
  obtain pin where w: "txn_with V {} pin s" using assms(1) by (auto simp: txn_inv_with)
  let ?n = "nat (lh_n (log_lh s))" let ?P = "pin ` {..<?n}" let ?dev = "blk (log_dev s)" let ?V = "V(m := block_of d)"
  have i: "cache_ok ?dev V {} ?P s \<and> locks_ok {} s" and inj: "inj_on pin {..<?n}" using w by (simp_all add: txn_with_def)
  have "card ?P < NBUF" using card_image [OF inj] assms(3) by (simp add: NBUF_def LOGBLOCKS_def MAXOPBLOCKS_def)
  from bc.read_block [OF i this, of sw m] obtain b r where r: "bread sw ?dev m s = Some (b, r)"
    "cache_ok ?dev V {b} ?P r \<and> locks_ok {b} r" "b_blockno (bufs r b) = m" "\<forall>c \<in> ?P. b_blockno (bufs r c) = b_blockno (bufs s c)"
    "disk r = disk s" "disk_writes r = disk_writes s" "brest r = brest s" by metis
  let ?r = "upd_buf b (\<lambda>x. x\<lparr>b_data := d\<rparr>) r"
  have "cache_ok ?dev ?V {b} ?P ?r \<and> locks_ok {b} ?r" using bc.put(1) [OF r(2), of b d] r(3) by simp
  then have w': "txn_with ?V {b} pin ?r" using r(4,7) by (intro txn_with_frame [OF w]) auto
  note l = brest_log [OF r(7)]
  have "b_blockno (bufs ?r b) = m" "log_lh ?r = log_lh s" "log_start ?r = log_start s" "log_dev ?r = log_dev s"
    "log_outstanding ?r = log_outstanding s" "held ?r = held s" "disk ?r = disk s" "disk_writes ?r = disk_writes s"
    using r(3,5,6) l by (simp_all add: upd_buf_def)
  with log_write_ok [OF w'] assms(2-5) obtain t pin' where t: "log_write b ?r = Some t" "txn_with ?V {b} pin' t"
    "logged t = insert m (logged ?r)" "lh_n (log_lh t) \<le> lh_n (log_lh s) + 1" "b \<in> pin' ` {..<nat (lh_n (log_lh t))}"
    "disk t = disk s" "disk_writes t = disk_writes s" "log_start t = log_start s" "log_dev t = log_dev s"
    by auto
  have "cache_ok ?dev ?V {b} (pin' ` {..<nat (lh_n (log_lh t))}) t \<and> locks_ok {b} t" using t(2,9) by (simp add: txn_with_def)
  from bc.rel [OF this, of b] t(5) obtain u where u: "brelse b t = Some u"
    "cache_ok ?dev ?V {} (pin' ` {..<nat (lh_n (log_lh t))}) u \<and> locks_ok {} u"
    "(\<lambda>b. b_blockno (bufs u b)) = (\<lambda>b. b_blockno (bufs t b))" "disk u = disk t" "disk_writes u = disk_writes t" "brest u = brest t"
    by auto
  have "txn_with ?V {} pin' u" using u(2,3,6) t(9) by (intro txn_with_frame [OF t(2)]) (simp_all add: fun_eq_iff)
  then have "txn_inv ?V u" by (auto simp: txn_inv_with)
  moreover have "logged u = insert m (logged s)" using t(3) l brest_log [OF u(6)] by (simp add: logged_def)
  ultimately show ?thesis using r(1) t(1,4,6-8) u(1,4,5) brest_log [OF u(6)] by auto
qed

section \<open>A small disk\<close>

definition log_ex :: "(uint32 \<Rightarrow> bytes) \<Rightarrow> logst" where
  "log_ex D = logst0\<lparr>cpu_proc := (\<lambda>_. Some 0), disk := D, log_start := 2, log_dev := 1, log_outstanding := 1\<rparr>"

lemma log_ex_boot:
  assumes "\<And>n. block_of (D n) = D n"
  obtains s where "binit (log_ex D) = Some s" "quiet D {} s" "disk s = D" "log_start s = 2" "log_dev s = 1"
    "lh_n (log_lh s) = 0" "log_outstanding s = 1" "held s = []"
proof -
  obtain s where s: "binit (log_ex D) = Some s" using binit_linked by blast
  have "bufs (log_ex D) b = bufs bio0 b" for b
    by (simp add: log_ex_def logst0_def bio0_def bio.defs logst.defs slk0_def slk.defs kern.defs kern0_def)
  then have b: "cache_ok 1 (disk (log_ex D)) {} {} s" "locks_ok {} s" "disk s = disk (log_ex D)" "brest s = brest (log_ex D)"
    using binit_cache_ok [OF s, of 1 0] assms by (simp_all add: log_ex_def others_free_def myproc_def cpuid_def)
  note l = brest_log [OF b(4)]
  show thesis
    by (rule that [OF s]) (use b l in \<open>simp_all add: quiet_def log_ex_def logst0_def bio.defs logst.defs blk_def
        bio0_def slk.defs slk0_def kern.defs kern0_def\<close>)
qed

lemma log_ex_area: "40 \<notin> log_area 2"
proof -
  have "log_blk 2 i \<noteq> 40" if "i < 30" for i
  proof
    assume "log_blk 2 i = 40"
    then have "blk (2 + int i + 1) = blk 40" by (simp add: log_blk_def) (simp add: blk_def)
    then show False using that blk_inj [of "2 + int i + 1" 40] by simp
  qed
  moreover have "(40 :: uint32) \<noteq> blk 2" by (simp add: blk_def)
  ultimately show ?thesis by (auto simp: log_area_def LOGBLOCKS_def MAXOPBLOCKS_def)
qed

lemma log_ex_txn:
  assumes "quiet D {} s" "log_start s = 2" "lh_n (log_lh s) = 0"
  shows "txn_inv D s"
  using assms by (auto simp: txn_inv_def area_ok_def LOGBLOCKS_def MAXOPBLOCKS_def)

text \<open>One block changed in a transaction over an empty disk.\<close>

lemma log_ex_update:
  obtains s b r t u where "binit (log_ex (\<lambda>_ _. 0)) = Some s" "bread Some 1 40 s = Some (b, r)"
    "log_write b (upd_buf b (\<lambda>x. x\<lparr>b_data := d\<rparr>) r) = Some t" "brelse b t = Some u"
    "txn_ok ((\<lambda>_ _. 0)(40 := block_of d)) u" "disk u = (\<lambda>_ _. 0)" "log_start u = 2"
proof -
  obtain s where s: "binit (log_ex (\<lambda>_ _. 0)) = Some s" "quiet (\<lambda>_ _. 0) {} s" "disk s = (\<lambda>_ _. 0)" "log_start s = 2"
    "log_dev s = 1" "lh_n (log_lh s) = 0" "log_outstanding s = 1" "held s = []"
    by (rule log_ex_boot [of "\<lambda>_ _. 0"]) (simp_all add: block_of_def)
  obtain b r t u where u: "bread Some 1 40 s = Some (b, r)" "log_write b (upd_buf b (\<lambda>x. x\<lparr>b_data := d\<rparr>) r) = Some t"
    "brelse b t = Some u" "txn_inv ((\<lambda>_ _. 0)(40 := block_of d)) u" "logged u = insert 40 (logged s)" "lh_n (log_lh u) \<le> 1"
    "disk u = (\<lambda>_ _. 0)" "log_start u = 2"
    using log_update_txn [OF log_ex_txn [OF s(2,4,6)], of 40 Some d] log_ex_area s
    by (auto simp: blk_def LOGBLOCKS_def MAXOPBLOCKS_def)
  have "nat (lh_n (log_lh u)) \<noteq> 0" using u(5) by (auto simp: logged_def)
  then have "txn_ok ((\<lambda>_ _. 0)(40 := block_of d)) u" using u(4,6) by (simp add: txn_ok_def NBUF_def MAXOPBLOCKS_def)
  then show thesis using s(1) u that by blast
qed

lemma log_ex_recover:
  defines "D \<equiv> (\<lambda>_ _. 0)(2 := block_of (head_put \<lparr>lh_n = 1, lh_block = (\<lambda>_. 40)\<rparr> (\<lambda>_. 0)), 3 := block_of (\<lambda>_. 7))"
  shows "log_wf 2 D" "recovered 2 D 40 = block_of (\<lambda>_. 7)" "block_of (D n) = D n"
proof -
  have h: "D (blk 2) = block_of (head_put \<lparr>lh_n = 1, lh_block = (\<lambda>_. 40)\<rparr> (\<lambda>_. 0))" by (simp add: D_def blk_def)
  have n: "log_n 2 D = 1" "log_home 2 D 0 = 40"
    using head_of_put(1) [of "\<lparr>lh_n = 1, lh_block = (\<lambda>_. 40)\<rparr>" "\<lambda>_. 0"]
      head_of_put(2) [of "\<lparr>lh_n = 1, lh_block = (\<lambda>_. 40)\<rparr>" 0 "\<lambda>_. 0"] unfolding log_n_def log_home_def h
    by (simp_all add: LOGBLOCKS_def MAXOPBLOCKS_def blk_def)
  then show "log_wf 2 D" using log_ex_area by (simp add: log_wf_def area_ok_def LOGBLOCKS_def MAXOPBLOCKS_def)
  have "log_blk 2 0 = 3" by (simp add: log_blk_def blk_def)
  then show "recovered 2 D 40 = block_of (\<lambda>_. 7)" using n by (simp add: recovered_def home_writes_def) (simp add: D_def)
  show "block_of (D n) = D n" by (auto simp: D_def block_of_def)
qed

section \<open>Properties\<close>

text \<open>
  C1: commit is atomic. Let a transaction be ready to commit over an empty log, \<open>V\<close> being the
  contents of the blocks in the cache. Then \<open>commit\<close> returns with the transaction on the
  disk and the log empty; and if only the first \<open>k\<close> of its block writes reach the disk, for any \<open>k\<close>,
  the log found there makes sense and recovery restores all the blocks as they were
  before (as long as the header was not written) or as the transaction left them.
\<close>

theorem commit_atomic:
  assumes "txn_ok V s" "head_n (disk s (blk (log_start s))) = 0"
  shows "\<exists>t ws. commit sw s = Some t \<and> disk_writes t = disk_writes s @ ws \<and> home_eq (log_start s) (disk t) V \<and>
    log_n (log_start s) (disk t) = 0 \<and>
    (\<forall>k. log_wf (log_start s) (apply_writes (disk s) (take k ws)) \<and>
       home_eq (log_start s) (recovered (log_start s) (apply_writes (disk s) (take k ws)))
         (if k \<le> nat (lh_n (log_lh s)) then disk s else V))"
proof -
  let ?st = "log_start s" let ?n = "nat (lh_n (log_lh s))" let ?H = "\<lambda>i. blk (lh_block (log_lh s) i)"
  have a: "area_ok ?st ?n ?H" using assms(1) by (simp add: txn_ok_def txn_inv_def)
  obtain t h1 h0 where t: "commit sw s = Some t" "disk_writes t = disk_writes s @ commit_writes ?st ?n ?H V h1 h0"
    "disk t = apply_writes (disk s) (commit_writes ?st ?n ?H V h1 h0)"
    "nat (head_n h1) = ?n" "\<forall>i<?n. blk (head_block h1 i) = ?H i" "head_n h0 = 0"
    using commit_writes_disk [OF assms(1), of sw] by blast
  have same: "disk s b = V b \<or> b \<in> ?H ` {..<?n}" for b by (rule txn_on_disk [OF assms(1)])
  have "home_eq ?st (disk t) V" "log_n ?st (disk t) = 0"
    using after_install [of ?st ?n ?H h0 "disk s" V h1, OF a t(6) same] by (simp_all add: t(3))
  moreover have "log_wf ?st (apply_writes (disk s) (take k (commit_writes ?st ?n ?H V h1 h0)))"
    "home_eq ?st (recovered ?st (apply_writes (disk s) (take k (commit_writes ?st ?n ?H V h1 h0)))) (if k \<le> ?n then disk s else V)" for k
    using crash_points [of ?st ?n ?H "disk s" h1 h0 V k, OF a assms(2) t(4) _ t(6) same] t(5) by simp_all
  ultimately show ?thesis using t(1,2) by blast
qed

theorem commit_atomic_witness:
  "\<exists>u t. commit Some (u :: logst) = Some t \<and> disk u 40 = (\<lambda>_. 0) \<and> disk t 40 = block_of (\<lambda>_. 7)"
proof -
  obtain u :: logst where u: "txn_ok ((\<lambda>_ _. 0)(40 := block_of (\<lambda>_. 7))) u" "disk u = (\<lambda>_ _. 0)" "log_start u = 2"
    by (rule log_ex_update)
  have "head_n (disk u (blk (log_start u))) = 0" by (simp add: u(2) head_n_def ldn_zero)
  from commit_atomic [OF u(1) this, of Some] obtain t where "commit Some u = Some t"
    "home_eq 2 (disk t) ((\<lambda>_ _. 0)(40 := block_of (\<lambda>_. 7)))" unfolding u(3) by blast
  then show ?thesis using log_ex_area by (intro exI [of _ u] exI [of _ t]) (simp add: home_eq_def u(2))
qed

text \<open>
  C3: recovery finishes what was committed, and can itself be interrupted. On a disk with a
  log that makes sense, \<open>recover_from_log\<close> returns with every block of the log copied home and
  the log empty; and if only the first \<open>k\<close> of its block writes reach the disk, a later recovery
  gives the same result.
\<close>

theorem recovery_restartable:
  assumes "quiet (disk s) {} s" "log_wf (log_start s) (disk s)" "L_pr \<notin> set (held s)"
  shows "\<exists>t ws. recover_from_log sw s = Some t \<and> disk_writes t = disk_writes s @ ws \<and>
    home_eq (log_start s) (disk t) (recovered (log_start s) (disk s)) \<and> log_n (log_start s) (disk t) = 0 \<and>
    (\<forall>k. log_wf (log_start s) (apply_writes (disk s) (take k ws)) \<and>
       home_eq (log_start s) (recovered (log_start s) (apply_writes (disk s) (take k ws))) (recovered (log_start s) (disk s)))"
proof -
  let ?st = "log_start s"
  obtain t h0 where t: "recover_from_log sw s = Some t" "head_n h0 = 0"
    "disk_writes t = disk_writes s @ home_writes ?st (disk s) @ [(blk ?st, h0)]"
    "disk t = apply_writes (disk s) (home_writes ?st (disk s) @ [(blk ?st, h0)])"
    using recover_writes_disk [OF assms, of sw] by blast
  note p = recovery_points [OF assms(2) t(2)]
  have "take (Suc (log_n ?st (disk s))) (home_writes ?st (disk s) @ [(blk ?st, h0)]) = home_writes ?st (disk s) @ [(blk ?st, h0)]"
    by (simp add: home_writes_def)
  then have "home_eq ?st (disk t) (recovered ?st (disk s))" "log_n ?st (disk t) = 0"
    using p(3) [of "Suc (log_n ?st (disk s))"] by (simp_all add: t(4))
  then show ?thesis using t(1,3) p(1,2) by blast
qed

theorem recovery_restartable_witness:
  "\<exists>D s t. binit (log_ex D) = Some s \<and> recover_from_log Some s = Some t \<and> D 40 = (\<lambda>_. 0) \<and> disk t 40 = block_of (\<lambda>_. 7)"
proof -
  let ?D = "(\<lambda>_ _. 0)(2 := block_of (head_put \<lparr>lh_n = 1, lh_block = (\<lambda>_. 40)\<rparr> (\<lambda>_. 0)), 3 := block_of (\<lambda>_. 7))"
  obtain s where s: "binit (log_ex ?D) = Some s" "quiet ?D {} s" "disk s = ?D" "log_start s = 2" "held s = []"
    by (rule log_ex_boot [OF log_ex_recover(3)])
  have q: "quiet (disk s) {} s" "log_wf (log_start s) (disk s)" "L_pr \<notin> set (held s)"
    using s(2,5) log_ex_recover(1) by (simp_all add: s(3,4))
  from recovery_restartable [OF q, of Some] obtain t where t: "recover_from_log Some s = Some t"
    "home_eq 2 (disk t) (recovered 2 ?D)" unfolding s(3,4) by blast
  then have "disk t 40 = block_of (\<lambda>_. 7)" using log_ex_area log_ex_recover(2) by (simp add: home_eq_def)
  then show ?thesis using s(1) t(1) by (intro exI [of _ ?D] exI [of _ s] exI [of _ t]) simp
qed

text \<open>
  C18: updating a block in a transaction. In a transaction with room in the log,
  reading a block, changing its contents to \<open>d\<close>, passing it to \<open>log_write\<close> and releasing it succeeds:
  the block now has the contents \<open>d\<close>, it belongs to the transaction (once, however often it is
  written), and the disk is untouched.
\<close>

theorem log_update:
  assumes "txn_inv V s" "m \<notin> log_area (log_start s)" "lh_n (log_lh s) < LOGBLOCKS"
    "1 \<le> log_outstanding s" "L_log \<notin> set (held s)"
  shows "\<exists>b r t u. bread sw (blk (log_dev s)) m s = Some (b, r) \<and> log_write b (upd_buf b (\<lambda>x. x\<lparr>b_data := d\<rparr>) r) = Some t \<and>
    brelse b t = Some u \<and> txn_inv (V(m := block_of d)) u \<and> logged u = insert m (logged s) \<and>
    lh_n (log_lh u) \<le> lh_n (log_lh s) + 1 \<and> disk u = disk s \<and> disk_writes u = disk_writes s \<and> log_start u = log_start s"
  using assms by (rule log_update_txn)

theorem log_update_witness:
  "\<exists>s b r t u. binit (log_ex (\<lambda>_ _. 0)) = Some s \<and> bread Some 1 40 s = Some (b, r) \<and>
    log_write b (upd_buf b (\<lambda>x. x\<lparr>b_data := (\<lambda>_. 7)\<rparr>) r) = Some t \<and> brelse b t = Some u \<and> logged u = {40} \<and> disk u = disk s"
proof -
  obtain s where s: "binit (log_ex (\<lambda>_ _. 0)) = Some s" "quiet (\<lambda>_ _. 0) {} s" "log_start s = 2"
    "log_dev s = 1" "lh_n (log_lh s) = 0" "log_outstanding s = 1" "held s = []"
    by (rule log_ex_boot [of "\<lambda>_ _. 0"]) (simp_all add: block_of_def)
  have "logged s = {}" using s(5) by (simp add: logged_def)
  then show ?thesis
    using log_update [OF log_ex_txn [OF s(2,3,5)], of 40 Some "\<lambda>_. 7"] log_ex_area s
    by (auto simp: blk_def LOGBLOCKS_def MAXOPBLOCKS_def)
qed

end
