(* ===== verification/Txn.thy ===== *)
theory Txn
  imports Recovery
begin

text \<open>
  What a running transaction offers the file system: reading blocks, changing them through the log,
  and releasing them, as a contract between \<^verbatim>\<open>fs.c\<close> and \<^verbatim>\<open>log.c\<close> with \<^verbatim>\<open>bio.c\<close>, proved for their models.
\<close>

section \<open>Blocks in a transaction\<close>

text \<open>
  \<open>V\<close> is the contents of the blocks as the transaction sees them, \<open>B\<close> the buffers that the process
  holds, none of them changed and not logged, and \<open>k\<close> the number of blocks it may still log.
\<close>

definition txn :: "(uint32 \<Rightarrow> bytes) \<Rightarrow> nat set \<Rightarrow> nat \<Rightarrow> 'z logst_scheme \<Rightarrow> bool" where
  "txn V B k s \<longleftrightarrow> 1 \<le> log_outstanding s \<and> L_log \<notin> set (held s) \<and> nat (lh_n (log_lh s)) + k + 3 \<le> NBUF \<and>
     (\<exists>pin. txn_with V B pin s \<and> (\<forall>b \<in> B. b \<in> pin ` {..<nat (lh_n (log_lh s))} \<or>
        disk s (b_blockno (bufs s b)) = V (b_blockno (bufs s b))))"

definition key :: "'z bio_scheme \<Rightarrow> nat \<Rightarrow> uint32" where
  "key s b = b_blockno (bufs s b)"

definition home :: "'z logst_scheme \<Rightarrow> uint32 set" where
  "home s = - log_area (log_start s)"

text \<open>What \<open>fs.c\<close> relies on of the buffer cache and the log.\<close>

locale transaction =
  fixes tx :: "(uint32 \<Rightarrow> bytes) \<Rightarrow> nat set \<Rightarrow> nat \<Rightarrow> 's \<Rightarrow> bool"
    and hm :: "'s \<Rightarrow> uint32 set"
    and key :: "'s \<Rightarrow> nat \<Rightarrow> uint32"
    and data :: "'s \<Rightarrow> nat \<Rightarrow> bytes"
    and view :: "'s \<Rightarrow> 'v"
    and rd :: "uint32 \<Rightarrow> 's \<Rightarrow> (nat \<times> 's) option"
    and put :: "nat \<Rightarrow> bytes \<Rightarrow> 's \<Rightarrow> 's"
    and lw :: "nat \<Rightarrow> 's \<Rightarrow> 's option"
    and rel :: "nat \<Rightarrow> 's \<Rightarrow> 's option"
  assumes contents: "tx V B k s \<Longrightarrow> b \<in> B \<Longrightarrow> block_of (data s b) = V (key s b)"
    and whole: "tx V B k s \<Longrightarrow> block_of (V m) = V m"
    and rd: "tx V B k s \<Longrightarrow> m \<notin> key s ` B \<Longrightarrow> card B \<le> 1 \<Longrightarrow>
      \<exists>b t. rd m s = Some (b, t) \<and> tx V (insert b B) k t \<and> b \<notin> B \<and> key t b = m \<and>
        (\<forall>c \<in> B. key t c = key s c) \<and> view t = view s"
    and lw: "tx V B (Suc k) s \<Longrightarrow> b \<in> B \<Longrightarrow> key s b \<in> hm s \<Longrightarrow>
      \<exists>t. lw b (put b d s) = Some t \<and> tx (V(key s b := block_of d)) B k t \<and> (\<forall>c \<in> B. key t c = key s c) \<and> view t = view s"
    and rel: "tx V B k s \<Longrightarrow> b \<in> B \<Longrightarrow>
      \<exists>t. rel b s = Some t \<and> tx V (B - {b}) k t \<and> (\<forall>c \<in> B - {b}. key t c = key s c) \<and> view t = view s"
    and home_view: "view t = view s \<Longrightarrow> hm t = hm s"
begin

text \<open>Reading a block and releasing it, while at most one other is held.\<close>

lemma read_block:
  assumes "tx V B k s" "card B \<le> 1" "m \<notin> key s ` B"
  obtains b t u where "rd m s = Some (b, t)" "block_of (data t b) = V m" "view t = view s"
    "rel b t = Some u" "tx V B k u" "view u = view s" "\<forall>c \<in> B. key u c = key s c"
proof -
  obtain b t where t: "rd m s = Some (b, t)" "tx V (insert b B) k t" "b \<notin> B" "key t b = m" "\<forall>c \<in> B. key t c = key s c" "view t = view s"
    using rd [OF assms(1,3,2)] by blast
  moreover obtain u where "rel b t = Some u" "tx V (insert b B - {b}) k u" "view u = view t" "\<forall>c \<in> insert b B - {b}. key u c = key t c"
    using rel [OF t(2), of b] by blast
  moreover have "block_of (data t b) = V m" using contents [OF t(2)] t(4) by simp
  moreover have "insert b B - {b} = B" using t(3) by blast
  ultimately show thesis using that by simp
qed

text \<open>Changing a block: the new contents may depend on the old ones.\<close>

lemma update_block:
  assumes "tx V B (Suc k) s" "card B \<le> 1" "m \<notin> key s ` B" "m \<in> hm s"
  obtains b t where "rd m s = Some (b, t)" "block_of (data t b) = V m" "view t = view s"
    "\<forall>d. \<exists>u v. lw b (put b d t) = Some u \<and> rel b u = Some v \<and> tx (V(m := block_of d)) B k v \<and> view u = view s \<and> view v = view s \<and>
       (\<forall>c \<in> B. key v c = key s c)"
proof -
  obtain b t where t: "rd m s = Some (b, t)" "tx V (insert b B) (Suc k) t" "b \<notin> B" "key t b = m" "\<forall>c \<in> B. key t c = key s c" "view t = view s"
    using rd [OF assms(1,3,2)] by blast
  have h: "key t b \<in> hm t" using home_view [OF t(6)] assms(4) t(4) by simp
  have B: "insert b B - {b} = B" using t(3) by blast
  have "\<exists>u v. lw b (put b d t) = Some u \<and> rel b u = Some v \<and> tx (V(m := block_of d)) B k v \<and> view u = view s \<and> view v = view s \<and>
       (\<forall>c \<in> B. key v c = key s c)" for d
  proof -
    obtain u where u: "lw b (put b d t) = Some u" "tx (V(m := block_of d)) (insert b B) k u" "view u = view s" "\<forall>c \<in> insert b B. key u c = key t c"
      using lw [OF t(2) insertI1 h, of d] t(4,6) by auto
    moreover obtain v where "rel b u = Some v" "tx (V(m := block_of d)) B k v" "view v = view u" "\<forall>c \<in> B. key v c = key u c"
      using rel [OF u(2) insertI1] unfolding B by blast
    ultimately show ?thesis using t(5) by auto
  qed
  moreover have "block_of (data t b) = V m" using contents [OF t(2)] t(4) by simp
  ultimately show thesis using that t(1,6) by blast
qed

end

section \<open>The log provides transactions\<close>

lemma txnD:
  assumes "txn V B k s"
  obtains pin where "txn_with V B pin s" "cache_ok (blk (log_dev s)) V B (pin ` {..<nat (lh_n (log_lh s))}) s \<and> locks_ok B s"
    "card (pin ` {..<nat (lh_n (log_lh s))}) + k + 3 \<le> NBUF" "finite B"
    "\<forall>b \<in> B. b \<in> pin ` {..<nat (lh_n (log_lh s))} \<or> disk s (key s b) = V (key s b)"
    "lh_n (log_lh s) < LOGBLOCKS" "1 \<le> log_outstanding s" "L_log \<notin> set (held s)"
proof -
  obtain pin where p: "txn_with V B pin s" "\<forall>b \<in> B. b \<in> pin ` {..<nat (lh_n (log_lh s))} \<or> disk s (key s b) = V (key s b)"
    using assms by (auto simp: txn_def key_def)
  then have c: "cache_ok (blk (log_dev s)) V B (pin ` {..<nat (lh_n (log_lh s))}) s \<and> locks_ok B s" "inj_on pin {..<nat (lh_n (log_lh s))}"
    by (simp_all add: txn_with_def)
  show thesis
  proof (rule that [OF p(1) c(1) _ _ p(2)])
    show "card (pin ` {..<nat (lh_n (log_lh s))}) + k + 3 \<le> NBUF" using card_image [OF c(2)] assms by (simp add: txn_def)
    show "finite B" using cache_okD(2) [OF conjunct1 [OF c(1)]] finite_subset by blast
    have "nat (lh_n (log_lh s)) + k + 3 \<le> 30" using assms by (simp add: txn_def NBUF_def MAXOPBLOCKS_def)
    then show "lh_n (log_lh s) < LOGBLOCKS" by (simp add: LOGBLOCKS_def MAXOPBLOCKS_def)
  qed (use assms in \<open>simp_all add: txn_def\<close>)
qed

lemma txnI:
  "txn_with V B pin s \<Longrightarrow> \<forall>b \<in> B. b \<in> pin ` {..<nat (lh_n (log_lh s))} \<or> disk s (key s b) = V (key s b) \<Longrightarrow>
   1 \<le> log_outstanding s \<Longrightarrow> L_log \<notin> set (held s) \<Longrightarrow> nat (lh_n (log_lh s)) + k + 3 \<le> NBUF \<Longrightarrow> txn V B k s"
  unfolding txn_def key_def by (intro conjI exI [of _ pin])

lemma txn_frame:
  assumes "txn V B k s" "log_outstanding t = log_outstanding s" "held t = held s" "log_lh t = log_lh s"
    "txn_with W C pin t" "\<forall>b \<in> C. b \<in> pin ` {..<nat (lh_n (log_lh s))} \<or> disk t (key t b) = W (key t b)"
  shows "txn W C k t"
proof (rule txnI [OF assms(5)])
  have s: "1 \<le> log_outstanding s" "L_log \<notin> set (held s)" "nat (lh_n (log_lh s)) + k + 3 \<le> NBUF"
    using assms(1) unfolding txn_def by simp_all
  show "1 \<le> log_outstanding t" "L_log \<notin> set (held t)" "nat (lh_n (log_lh t)) + k + 3 \<le> NBUF" using s by (simp_all add: assms(2-4))
  show "\<forall>b \<in> C. b \<in> pin ` {..<nat (lh_n (log_lh t))} \<or> disk t (key t b) = W (key t b)" using assms(6) by (simp add: assms(4))
qed

lemma txn_rd:
  assumes t: "txn V B k s" and m: "m \<notin> key s ` B" and B: "card B \<le> 1"
  shows "\<exists>b t. bread sw (blk (log_dev s)) m s = Some (b, t) \<and> txn V (insert b B) k t \<and> b \<notin> B \<and> key t b = m \<and>
    (\<forall>c \<in> B. key t c = key s c) \<and> lview t = lview s"
proof -
  obtain pin where p: "txn_with V B pin s" "cache_ok (blk (log_dev s)) V B (pin ` {..<nat (lh_n (log_lh s))}) s \<and> locks_ok B s"
    "card (pin ` {..<nat (lh_n (log_lh s))}) + k + 3 \<le> NBUF" "finite B"
    "\<forall>b \<in> B. b \<in> pin ` {..<nat (lh_n (log_lh s))} \<or> disk s (key s b) = V (key s b)" by (rule txnD [OF t])
  let ?P = "pin ` {..<nat (lh_n (log_lh s))}"
  have room: "card (B \<union> ?P) < NBUF" using card_Un_le [of B ?P] B p(3) by linarith
  have m': "m \<notin> (\<lambda>b. b_blockno (bufs s b)) ` B" using m by (simp add: key_def image_def)
  obtain b r where r: "bread sw (blk (log_dev s)) m s = Some (b, r)" "cache_ok (blk (log_dev s)) V (insert b B) ?P r \<and> locks_ok (insert b B) r"
    "b \<notin> B" "key r b = m" "\<forall>c \<in> B \<union> ?P. key r c = key s c" "disk r = disk s" "brest r = brest s"
    using bc.rd [OF p(2) m' room, of sw] by (auto simp: key_def)
  note l = brest_log [OF r(7)]
  have "b \<in> ?P \<or> disk s m = V m"
  proof (cases "disk s m = V m")
    case False
    then obtain c where c: "c \<in> ?P" "key s c = m" using bc.on_disk [OF p(2), of m] m' by (auto simp: key_def)
    then have "b = c" using r(4,5) by (intro bc.key_unique [OF r(2)]) (simp_all add: key_def)
    then show ?thesis using c(1) by simp
  qed simp
  then have "\<forall>c \<in> insert b B. c \<in> ?P \<or> disk r (key r c) = V (key r c)"
    using p(5) r(4-6) by simp
  moreover have "txn_with V (insert b B) pin r"
    using r(2,5,7) by (intro txn_with_frame [OF p(1)]) (simp_all add: key_def)
  ultimately have "txn V (insert b B) k r" using l by (intro txn_frame [OF t]) simp_all
  then show ?thesis using r(1,3-5) lview_brest [OF r(7)] by blast
qed

lemma txn_rel:
  assumes t: "txn V B k s" and b: "b \<in> B"
  shows "\<exists>t. brelse b s = Some t \<and> txn V (B - {b}) k t \<and> (\<forall>c \<in> B - {b}. key t c = key s c) \<and> lview t = lview s"
proof -
  obtain pin where p: "txn_with V B pin s" "cache_ok (blk (log_dev s)) V B (pin ` {..<nat (lh_n (log_lh s))}) s \<and> locks_ok B s"
    "card (pin ` {..<nat (lh_n (log_lh s))}) + k + 3 \<le> NBUF" "finite B"
    "\<forall>b \<in> B. b \<in> pin ` {..<nat (lh_n (log_lh s))} \<or> disk s (key s b) = V (key s b)" by (rule txnD [OF t])
  let ?P = "pin ` {..<nat (lh_n (log_lh s))}"
  have "b \<in> ?P \<or> disk s (b_blockno (bufs s b)) = V (b_blockno (bufs s b))" using p(5) b by (simp add: key_def)
  from bc.rel [OF p(2) b this] obtain r where r: "brelse b s = Some r" "cache_ok (blk (log_dev s)) V (B - {b}) ?P r \<and> locks_ok (B - {b}) r"
    "(\<lambda>b. b_blockno (bufs r b)) = (\<lambda>b. b_blockno (bufs s b))" "disk r = disk s" "brest r = brest s" by blast
  note l = brest_log [OF r(5)]
  have key: "key r c = key s c" for c using fun_cong [OF r(3)] by (simp add: key_def)
  have "txn_with V (B - {b}) pin r"
    using r(2,5) fun_cong [OF r(3)] by (intro txn_with_frame [OF p(1)]) simp_all
  moreover have "\<forall>c \<in> B - {b}. c \<in> ?P \<or> disk r (key r c) = V (key r c)"
    using p(5) r(4) by (simp add: key)
  ultimately have "txn V (B - {b}) k r" using l by (intro txn_frame [OF t]) simp_all
  then show ?thesis using r(1) lview_brest [OF r(5)] by (simp add: key)
qed

lemma txn_lw:
  assumes t: "txn V B (Suc k) s" and b: "b \<in> B" and h: "key s b \<in> home s"
  shows "\<exists>t. log_write b (upd_buf b (\<lambda>x. x\<lparr>b_data := d\<rparr>) s) = Some t \<and> txn (V(key s b := block_of d)) B k t \<and>
    (\<forall>c \<in> B. key t c = key s c) \<and> lview t = lview s"
proof -
  obtain pin where p: "txn_with V B pin s" "cache_ok (blk (log_dev s)) V B (pin ` {..<nat (lh_n (log_lh s))}) s \<and> locks_ok B s"
    "card (pin ` {..<nat (lh_n (log_lh s))}) + Suc k + 3 \<le> NBUF" "finite B"
    "\<forall>b \<in> B. b \<in> pin ` {..<nat (lh_n (log_lh s))} \<or> disk s (key s b) = V (key s b)"
    "lh_n (log_lh s) < LOGBLOCKS" "1 \<le> log_outstanding s" "L_log \<notin> set (held s)" by (rule txnD [OF t])
  let ?n = "nat (lh_n (log_lh s))" let ?r = "upd_buf b (\<lambda>x. x\<lparr>b_data := d\<rparr>) s" let ?V = "V(key s b := block_of d)"
  note l = brest_log [OF brest_upd_buf [of b "\<lambda>x. x\<lparr>b_data := d\<rparr>" s]]
  have key: "key ?r c = key s c" "b_blockno (bufs ?r c) = key s c" for c by (simp_all add: key_def)
  have "txn_with ?V B pin ?r"
    using bc.put(1) [OF p(2) b, of d] by (intro txn_with_frame [OF p(1)]) (auto simp: key_def)
  note r = this b
  have keys: "key s c \<noteq> key s b" if "c \<in> B" "c \<noteq> b" for c
    using bc.key_unique [OF p(2), of c b] that b by (auto simp: key_def)
  show ?thesis
  proof (cases "key s b \<in> logged s")
    case True
    then obtain i where i: "i < ?n" "key s b = key s (pin i)" using p(1) by (auto simp: logged_def txn_with_def key_def)
    have "b = pin i" using i b by (intro bc.key_unique [OF p(2)]) (auto simp: key_def)
    then have "b \<in> pin ` {..<?n}" using i(1) by blast
    then have "c \<in> pin ` {..<?n} \<or> disk s (key s c) = ?V (key s c)" if "c \<in> B" for c
      using p(5) keys [of c] that by (cases "c = b") auto
    then have "\<forall>c \<in> B. c \<in> pin ` {..<nat (lh_n (log_lh ?r))} \<or> disk ?r (key ?r c) = ?V (key ?r c)"
      by (simp add: l key)
    moreover have "log_write b ?r = Some ?r"
      using p(6-8) True by (intro log_write_absorbed [OF r(1)]) (simp_all add: l key_def logged_def)
    moreover have "?n + k + 3 \<le> NBUF" using t by (simp add: txn_def)
    ultimately show ?thesis
      using r(1) p(7,8) by (intro exI [of _ ?r] conjI txnI [OF r(1)]) (simp_all add: l key lview_upd)
  next
    case False
    then have new: "b_blockno (bufs ?r b) \<notin> logged ?r" by (simp add: l key_def logged_def)
    have area: "b_blockno (bufs ?r b) \<notin> log_area (log_start ?r)" using h by (simp add: l key_def home_def)
    obtain u where u: "log_write b ?r = Some u" "txn_with ?V B (pin(?n := b)) u" "lh_n (log_lh u) = lh_n (log_lh s) + 1"
      "\<forall>e. b_blockno (bufs u e) = b_blockno (bufs ?r e)" "disk u = disk s" "held u = held s" "log_outstanding u = log_outstanding s" "lview u = lview s"
      using log_write_new [OF r new area] p(6-8) by (auto simp: l lview_upd simp del: upd_buf_fields(5))
    have ku: "key u e = key s e" for e using u(4) by (simp add: key_def)
    have "0 \<le> lh_n (log_lh s)" using p(1) by (simp add: txn_with_def)
    then have n: "nat (lh_n (log_lh u)) = Suc ?n" using u(3) by (simp add: nat_add_distrib)
    have "c \<in> (pin(?n := b)) ` {..<Suc ?n} \<or> disk s (key s c) = ?V (key s c)" if "c \<in> B" for c
      using p(5) keys [of c] that by (cases "c = b") (auto simp: lessThan_Suc)
    then have "\<forall>c \<in> B. c \<in> (pin(?n := b)) ` {..<nat (lh_n (log_lh u))} \<or> disk u (key u c) = ?V (key u c)"
      using u(5) n by (simp add: ku)
    moreover have "nat (lh_n (log_lh u)) + k + 3 \<le> NBUF" using t n by (simp add: txn_def)
    ultimately show ?thesis using u p(7,8) by (intro exI [of _ u] conjI txnI [OF u(2)]) (simp_all add: ku)
  qed
qed

lemma lview_fields:
  assumes "lview t = lview s"
  shows "log_start t = log_start s" "log_dev t = log_dev s" "logst.more t = logst.more s" "held t = held s"
proof -
  have "f (lview t) = f (lview s)" for f :: "'a logst_scheme \<Rightarrow> 'b" by (simp only: assms)
  from this [of log_start] this [of log_dev] this [of logst.more] this [of held]
  show "log_start t = log_start s" "log_dev t = log_dev s" "logst.more t = logst.more s" "held t = held s"
    by (simp_all add: lview_def brest_def)
qed

interpretation fx: transaction txn home key "\<lambda>s b. b_data (bufs s b)" lview "\<lambda>m s. bread sw (blk (log_dev s)) m s"
    "\<lambda>b d. upd_buf b (\<lambda>x. x\<lparr>b_data := d\<rparr>)" log_write brelse
  for sw :: "'z logst_scheme \<Rightarrow> 'z logst_scheme option"
proof (standard, goal_cases)
  case (1 V B k s b)
  obtain pin where c: "cache_ok (blk (log_dev s)) V B (pin ` {..<nat (lh_n (log_lh s))}) s \<and> locks_ok B s" by (rule txnD [OF 1(1)])
  show ?case using bc.contents [OF c 1(2)] by (simp add: key_def)
next
  case (2 V B k s m)
  obtain pin where "cache_ok (blk (log_dev s)) V B (pin ` {..<nat (lh_n (log_lh s))}) s \<and> locks_ok B s" by (rule txnD [OF 2])
  then show ?case by (simp add: cache_ok_def)
next
  case (3 V B k s m)
  then show ?case by (rule txn_rd)
next
  case (4 V B k s b d)
  then show ?case by (rule txn_lw)
next
  case (5 V B k s b)
  then show ?case by (rule txn_rel)
next
  case (6 t s)
  show ?case using lview_fields(1) [OF 6] by (simp add: home_def)
qed

end
