(* ===== verification/Inodes.thy ===== *)
theory Inodes
  imports Fs Txn
begin

text \<open>
  Inodes on disk, \<^verbatim>\<open>kernel/fs.c\<close>: in a transaction \<open>iupdate\<close> stores an inode and touches no other, and \<open>ilock\<close>
  loads what was stored.
\<close>

section \<open>Inodes on disk\<close>

lemma fold_st32_apply:
  "d x = e x \<Longrightarrow> fold (\<lambda>i d. st32 d (f i) (g i)) is d x = fold (\<lambda>i d. st32 d (f i) (g i)) is e x"
proof (induction "is" arbitrary: d e)
  case (Cons i "is")
  have "st32 d (f i) (g i) x = st32 e (f i) (g i) x" using Cons.prems by (simp add: stn_apply)
  then show ?case using Cons.IH [of "st32 d (f i) (g i)" "st32 e (f i) (g i)"] by simp
qed simp

lemma dinode_put_cong: "d x = e x \<Longrightarrow> dinode_put d o' ip x = dinode_put e o' ip x"
  unfolding dinode_put_def Let_def by (rule fold_st32_apply) (simp add: stn_apply)

lemma dinode_put_block: "block_of (dinode_put (block_of d) o' ip) = block_of (dinode_put d o' ip)"
proof
  fix x
  show "block_of (dinode_put (block_of d) o' ip) x = block_of (dinode_put d o' ip) x"
    using dinode_put_cong [of "block_of d" x d o' ip] by (simp add: block_of_def)
qed

lemma fold_st32_outside:
  "x < a \<or> a + 4 * n \<le> x \<Longrightarrow> fold (\<lambda>i d. st32 d (a + 4 * i) (g i)) [0..<n] d x = d x"
  by (induction n) (auto simp: stn_apply)

lemma dinode_put_outside: "x < o' \<or> o' + 64 \<le> x \<Longrightarrow> dinode_put d o' ip x = d x"
proof -
  assume x: "x < o' \<or> o' + 64 \<le> x"
  then have "x < o' + 12 \<or> o' + 12 + 4 * (NDIRECT + 1) \<le> x" by (auto simp: NDIRECT_def)
  then show ?thesis unfolding dinode_put_def Let_def using x
    by (simp only: fold_st32_outside) (auto simp: stn_apply)
qed

lemma ld32_fold_st32:
  "i < n \<Longrightarrow> ld32 (fold (\<lambda>i d. st32 d (a + 4 * i) (g i)) [0..<n] d) (a + 4 * i) = g i"
proof (induction n)
  case (Suc n)
  then show ?case by (cases "i = n") (auto simp: ldn_stn_same ldn_stn_disjoint)
qed simp

lemma ldn_fold_st32: "b + k \<le> a \<Longrightarrow> ldn k (fold (\<lambda>i d. st32 d (a + 4 * i) (g i)) [0..<n] d) b = ldn k d b"
  by (intro ldn_cong fold_st32_outside) simp

lemma ldn_block_of: "a + k \<le> BSIZE \<Longrightarrow> ldn k (block_of d) a = ldn k d a"
  by (intro ldn_cong) (simp add: block_of_def)

text \<open>The fields of an inode that are stored.\<close>

definition stored :: "inode \<Rightarrow> inode \<Rightarrow> inode" where
  "stored ip jp = jp\<lparr>i_type := i_type ip, i_major := i_major ip, i_minor := i_minor ip, i_nlink := i_nlink ip,
     i_size := i_size ip, i_addrs := (\<lambda>i. if i \<le> NDIRECT then i_addrs ip i else i_addrs jp i)\<rparr>"

lemma dinode_get_put:
  assumes "o' + 64 \<le> BSIZE"
  shows "dinode_get (block_of (dinode_put d o' ip)) o' jp = stored ip jp"
proof -
  have "ld32 (dinode_put d o' ip) (o' + 12 + 4 * i) = i_addrs ip i" if "i \<le> NDIRECT" for i
    unfolding dinode_put_def Let_def by (rule ld32_fold_st32) (use that in simp)
  moreover have "o' + 12 + 4 * i + 4 \<le> BSIZE" if "i \<le> NDIRECT" for i using that assms by (simp add: NDIRECT_def)
  moreover have "ld16 (dinode_put d o' ip) o' = i_type ip" "ld16 (dinode_put d o' ip) (o' + 2) = i_major ip"
    "ld16 (dinode_put d o' ip) (o' + 4) = i_minor ip" "ld16 (dinode_put d o' ip) (o' + 6) = i_nlink ip"
    "ld32 (dinode_put d o' ip) (o' + 8) = i_size ip"
    unfolding dinode_put_def Let_def by (simp_all add: ldn_fold_st32 ldn_stn_same ldn_stn_disjoint)
  ultimately show ?thesis
    using assms by (simp add: dinode_get_def stored_def ldn_block_of cong: if_cong)
qed

lemma dinode_get_cong:
  assumes "\<And>x. o' \<le> x \<Longrightarrow> x < o' + 64 \<Longrightarrow> d x = e x"
  shows "dinode_get d o' jp = dinode_get e o' jp"
proof -
  have l: "ldn k d (o' + j) = ldn k e (o' + j)" if "j + k \<le> 64" for k j
    by (rule ldn_cong) (use that assms in simp)
  have "ld32 d (o' + 12 + 4 * i) = ld32 e (o' + 12 + 4 * i)" if "i \<le> NDIRECT" for i
    using l [of "12 + 4 * i" 4] that by (simp add: NDIRECT_def add.assoc)
  moreover have "ld16 d o' = ld16 e o'" "ld16 d (o' + 2) = ld16 e (o' + 2)" "ld16 d (o' + 4) = ld16 e (o' + 4)"
    "ld16 d (o' + 6) = ld16 e (o' + 6)" "ld32 d (o' + 8) = ld32 e (o' + 8)"
    using l [of 0 2] l [of 2 2] l [of 4 2] l [of 6 2] l [of 8 4] by simp_all
  ultimately show ?thesis by (simp add: dinode_get_def cong: if_cong)
qed

text \<open>What the file system sees of a state that block operations do not change.\<close>

lemma lview_fs:
  fixes s t :: "'z fsst_scheme"
  assumes "lview t = lview s"
  shows "sb t = sb s" "inodes t = inodes s" "fsst.more t = fsst.more s"
proof -
  have "f (logst.more t) = f (logst.more s)" for f :: "_ \<Rightarrow> 'b" using lview_fields(3) [OF assms] by simp
  have "f (lview t) = f (lview s)" for f :: "'z fsst_scheme \<Rightarrow> 'b" by (simp only: assms)
  from this [of sb] this [of inodes] this [of fsst.more]
  show "sb t = sb s" "inodes t = inodes s" "fsst.more t = fsst.more s" by (simp_all add: lview_def brest_def)
qed

lemma txn_upd_inode [simp]: "txn V B k (upd_inode ip f s) = txn V B k s"
  by (simp add: txn_def txn_with_def upd_inode_def cache_ok_def locks_ok_def others_free_def myproc_def cpuid_def)

lemma lview_upd_inode: "lview (upd_inode ip f s) = upd_inode ip f (lview s)"
  by (simp add: lview_def brest_def upd_inode_def)

lemma lview_inode:
  assumes "lview t = upd_inode ip f (lview s)"
  shows "inodes t = (inodes s)(ip := f (inodes s ip))" "sb t = sb s" "log_start t = log_start s" "log_dev t = log_dev s" "held t = held s"
proof -
  have e: "lview t = lview (upd_inode ip f s)" using assms by (simp add: lview_upd_inode)
  show "inodes t = (inodes s)(ip := f (inodes s ip))" "sb t = sb s" "log_start t = log_start s" "log_dev t = log_dev s" "held t = held s"
    using lview_fs [OF e] lview_fields [OF e] by (simp_all add: upd_inode_def)
qed

lemma dip_off_block: "dip_off inum + 64 \<le> BSIZE"
proof -
  have "unat inum mod IPB < 16" by (simp add: IPB_def BSIZE_def)
  then show ?thesis by (simp add: dip_off_def BSIZE_def)
qed

text \<open>The block that holds an inode after \<open>iupdate\<close>.\<close>

definition put_inode :: "inode \<Rightarrow> superblock \<Rightarrow> (uint32 \<Rightarrow> bytes) \<Rightarrow> uint32 \<Rightarrow> bytes" where
  "put_inode ip b V = (let m = IBLOCK (i_inum ip) b in V(m := block_of (dinode_put (V m) (dip_off (i_inum ip)) ip)))"

definition get_inode :: "superblock \<Rightarrow> (uint32 \<Rightarrow> bytes) \<Rightarrow> uint32 \<Rightarrow> inode \<Rightarrow> inode" where
  "get_inode b V inum = dinode_get (V (IBLOCK inum b)) (dip_off inum)"

lemma iupdate_txn:
  assumes t: "txn V {} (Suc k) s" and dev: "i_dev (inodes s ip) = blk (log_dev s)"
    and h: "IBLOCK (i_inum (inodes s ip)) (sb s) \<in> home s"
  shows "\<exists>t. iupdate sw ip s = Some t \<and> txn (put_inode (inodes s ip) (sb s) V) {} k t \<and> lview t = lview s"
proof -
  let ?m = "IBLOCK (i_inum (inodes s ip)) (sb s)"
  obtain b t where b: "bread sw (blk (log_dev s)) ?m s = Some (b, t)" "block_of (b_data (bufs t b)) = V ?m" "lview t = lview s"
    "\<forall>d. \<exists>u v. log_write b (upd_buf b (\<lambda>x. x\<lparr>b_data := d\<rparr>) t) = Some u \<and> brelse b u = Some v \<and> txn (V(?m := block_of d)) {} k v \<and>
       lview u = lview s \<and> lview v = lview s \<and> (\<forall>c \<in> {}. key v c = key s c)"
    by (rule fx.update_block [OF t, of ?m sw]) (use h in auto)
  let ?d = "dinode_put (b_data (bufs t b)) (dip_off (i_inum (inodes s ip))) (inodes s ip)"
  have "upd_buf b (\<lambda>x. x\<lparr>b_data := dinode_put (b_data x) (dip_off (i_inum (inodes s ip))) (inodes s ip)\<rparr>) t = upd_buf b (\<lambda>x. x\<lparr>b_data := ?d\<rparr>) t"
    by (simp add: upd_buf_def)
  moreover have "put_inode (inodes s ip) (sb s) V = V(?m := block_of ?d)"
    using dinode_put_block [of "b_data (bufs t b)"] b(2) by (simp add: put_inode_def Let_def)
  ultimately show ?thesis
    using b(1) spec [OF b(4), of ?d] by (auto simp: iupdate_def dev lview_fs [OF b(3)])
qed

lemma get_put_inode: "get_inode b (put_inode ip b V) (i_inum ip) jp = stored ip jp"
  by (simp add: get_inode_def put_inode_def Let_def dinode_get_put dip_off_block)

lemma IBLOCK_same:
  assumes "IBLOCK n b = IBLOCK m b" "n \<noteq> m"
  shows "dip_off n + 64 \<le> dip_off m \<or> dip_off m + 64 \<le> dip_off n"
proof -
  have "n div 16 = m div 16" using assms(1) by (simp add: IBLOCK_def IPB_def BSIZE_def)
  then have "unat n div 16 = unat m div 16" by (simp add: word_unat_eq_iff unat_div)
  moreover have "unat n \<noteq> unat m" using assms(2) by (simp add: word_unat_eq_iff)
  ultimately have "unat n mod 16 \<noteq> unat m mod 16" by (metis div_mult_mod_eq)
  then show ?thesis by (auto simp: dip_off_def IPB_def BSIZE_def)
qed

lemma get_put_other:
  assumes "n \<noteq> i_inum ip" "\<And>m. block_of (V m) = V m"
  shows "get_inode b (put_inode ip b V) n jp = get_inode b V n jp"
proof (cases "IBLOCK n b = IBLOCK (i_inum ip) b")
  case True
  note off = IBLOCK_same [OF True assms(1)]
  have "block_of (dinode_put (V (IBLOCK n b)) (dip_off (i_inum ip)) ip) x = V (IBLOCK n b) x"
    if "dip_off n \<le> x" "x < dip_off n + 64" for x
    using dip_off_block [of n] dinode_put_outside [of x "dip_off (i_inum ip)"] off that by (auto simp: block_of_def)
  then show ?thesis using True by (auto simp: get_inode_def put_inode_def Let_def intro!: dinode_get_cong)
next
  case False
  then show ?thesis by (simp add: get_inode_def put_inode_def Let_def)
qed

text \<open>Taking the lock of an inode loads it.\<close>

lemma txn_upd_slock [simp]: "txn V B k (upd_slock (SL_inode ip) v s) = txn V B k s"
  by (simp add: txn_def txn_with_def upd_slock_def cache_ok_def locks_ok_def others_free_def myproc_def cpuid_def)

lemma txn_locks:
  assumes "txn V B k s"
  obtains p where "myproc s = Some p" "\<forall>lk. L_sleep lk \<notin> set (held s)"
  using assms by (auto simp: txn_def txn_with_def locks_ok_def)

lemma ilock_txn:
  assumes t: "txn V {} k s" and dev: "i_dev (inodes s ip) = blk (log_dev s)" and ref: "1 \<le> i_ref (inodes s ip)"
    and free: "\<not> sl_locked (slocks s (SL_inode ip))" and v: "\<not> i_valid (inodes s ip)"
  defines "q \<equiv> get_inode (sb s) V (i_inum (inodes s ip)) (inodes s ip)"
  shows "(\<exists>t. ilock sw ip s = (if i_type q = 0 then None else Some t) \<and> txn V {} k t \<and>
    lview t = upd_inode ip (\<lambda>_. q\<lparr>i_valid := True\<rparr>) (lview s))"
proof -
  let ?m = "IBLOCK (i_inum (inodes s ip)) (sb s)"
  obtain p where p: "myproc s = Some p" "\<forall>lk. L_sleep lk \<notin> set (held s)" by (rule txn_locks [OF t])
  let ?s = "upd_slock (SL_inode ip) \<lparr>sl_locked = True, sl_pid = p_pid (procs s p)\<rparr> s"
  have f: "inodes ?s = inodes s" "sb ?s = sb s" "log_dev ?s = log_dev s" "lview ?s = lview s"
    by (simp_all add: upd_slock_def lview_def brest_def)
  have "txn V {} k ?s" using t by simp
  from fx.rd [OF this, of ?m sw] obtain b t where b: "bread sw (blk (log_dev s)) ?m ?s = Some (b, t)" "txn V {b} k t" "key t b = ?m" "lview t = lview s"
    by (auto simp: f)
  have d: "block_of (b_data (bufs t b)) = V ?m" using fx.contents [OF b(2), of b] b(3) by simp
  let ?o = "dip_off (i_inum (inodes s ip))" let ?g = "\<lambda>x. dinode_get (b_data (bufs t b)) ?o x"
  have g: "?g x = get_inode (sb s) V (i_inum (inodes s ip)) x" for x
    unfolding get_inode_def d [symmetric] using dip_off_block [of "i_inum (inodes s ip)"]
    by (intro dinode_get_cong) (simp add: block_of_def)
  obtain u where u: "brelse b (upd_inode ip ?g t) = Some u" "txn V {} k u" "lview u = lview (upd_inode ip ?g t)"
    using fx.rel [of V "{b}" k "upd_inode ip ?g t" b] b(2) by auto
  let ?u = "upd_inode ip (\<lambda>x. x\<lparr>i_valid := True\<rparr>) u"
  have iu: "inodes u ip = q" using lview_fs(2) [OF u(3)] lview_fs(2) [OF b(4)] g by (simp add: upd_inode_def q_def)
  have ti: "inodes t = inodes s" "sb t = sb s" using lview_fs [OF b(4)] by simp_all
  have "ilock sw ip s = (if i_type q = 0 then None else Some ?u)"
    using ref free p v b(1) u(1) iu
    by (simp add: ilock_def acquiresleep_free f dev ti upd_inode_def [where f = "\<lambda>x. x\<lparr>i_valid := True\<rparr>"])
  moreover have "lview ?u = upd_inode ip (\<lambda>_. q\<lparr>i_valid := True\<rparr>) (lview s)"
    using iu by (simp add: lview_upd_inode u(3) b(4)) (simp add: upd_inode_def lview_def brest_def g q_def)
  ultimately show ?thesis using u(2) by (intro exI [of _ ?u]) simp
qed

section \<open>A small file system\<close>

text \<open>The layout that \<^verbatim>\<open>mkfs\<close> gives a disk of 2000 blocks, with a transaction running over a disk \<open>D\<close>.\<close>

definition sb_ex :: superblock where
  "sb_ex = \<lparr>sb_magic = 0x10203040, sb_size = 2000, sb_nblocks = 1953, sb_ninodes = 200, sb_nlog = 31, sb_logstart = 2,
     sb_inodestart = 33, sb_bmapstart = 46\<rparr>"

definition fs_ex :: "(uint32 \<Rightarrow> bytes) \<Rightarrow> inode \<Rightarrow> fsst" where
  "fs_ex D q = fsst0\<lparr>cpu_proc := (\<lambda>_. Some 0), disk := D, log_start := 2, log_dev := 1, log_outstanding := 1,
     sb := sb_ex, inodes := (\<lambda>_. q)\<rparr>"

lemma fs_ex_boot:
  assumes "\<And>n. block_of (D n) = D n"
  obtains s where "binit (fs_ex D q) = Some s" "txn D {} 20 s" "sb s = sb_ex" "inodes s = (\<lambda>_. q)" "log_start s = 2" "log_dev s = 1"
    "held s = []"
proof -
  obtain s where s: "binit (fs_ex D q) = Some s" using binit_linked by blast
  have "bufs (fs_ex D q) b = bufs bio0 b" for b
    by (simp add: fs_ex_def fsst0_def logst0_def bio0_def bio.defs logst.defs slk0_def slk.defs kern.defs kern0_def)
  then have b: "cache_ok 1 D {} {} s" "locks_ok {} s" "disk s = D" "brest s = brest (fs_ex D q)"
    using binit_cache_ok [OF s, of 1 0] assms by (simp_all add: fs_ex_def others_free_def myproc_def cpuid_def)
  note l = brest_log [OF b(4)] and v = lview_fs [OF lview_brest [OF b(4)]]
  have f: "log_lh (fs_ex D q) = \<lparr>lh_n = 0, lh_block = (\<lambda>_. 0)\<rparr>" "log_start (fs_ex D q) = 2" "log_dev (fs_ex D q) = 1"
    "log_outstanding (fs_ex D q) = 1" "held (fs_ex D q) = []" "sb (fs_ex D q) = sb_ex" "inodes (fs_ex D q) = (\<lambda>_. q)"
    by (simp_all add: fs_ex_def fsst0_def logst.defs logst0_def bio.defs bio0_def slk.defs slk0_def kern.defs kern0_def)
  have "txn_with D {} (\<lambda>i. i) s" using b(1,2) by (simp add: txn_with_def l f blk_def area_ok_def LOGBLOCKS_def MAXOPBLOCKS_def)
  then have "txn D {} 20 s" by (rule txnI) (simp_all add: l f NBUF_def MAXOPBLOCKS_def)
  then show thesis using that s l v f by simp
qed

lemma fs_ex_area: "33 \<le> b \<Longrightarrow> b < 2 ^ 31 \<Longrightarrow> b \<notin> log_area 2"
proof -
  assume b: "33 \<le> b" "b < 2 ^ 31"
  have "blk (2 + int i + 1) \<noteq> b" if "i < 30" for i
  proof
    assume "blk (2 + int i + 1) = b"
    then have "b = word_of_int (3 + int i)" by (simp add: blk_def)
    then have "uint b = 3 + int i" using that by (simp only: uint_word_of_int) simp
    then show False using b(1) that by (simp add: word_le_def)
  qed
  moreover have "blk 2 \<noteq> b" using b(1) by (auto simp: blk_def)
  ultimately show ?thesis by (auto simp: log_area_def log_blk_def LOGBLOCKS_def MAXOPBLOCKS_def)
qed

definition inode_ex :: inode where
  "inode_ex = \<lparr>i_dev = 1, i_inum = 17, i_ref = 1, i_valid = True, i_type = 2, i_major = 0, i_minor = 0, i_nlink = 1, i_size = 777,
     i_addrs = (\<lambda>_. 0)(0 := 50)\<rparr>"

section \<open>Properties\<close>

text \<open>
  C15: storing and loading inodes. In a transaction \<open>iupdate\<close> returns, and afterwards the inode reads on disk as
  it is in memory, every other inode and every other block as before. Whenever an entry
  of the inode table is set up for the same inode and its blocks have not changed since, \<open>ilock\<close>
  loads into it exactly the fields stored, or panics if the inode is of type 0, and changes no other entry.
\<close>

theorem iupdate_ilock:
  assumes "txn V {} (Suc k) s" "i_dev (inodes s ip) = blk (log_dev s)" "IBLOCK (i_inum (inodes s ip)) (sb s) \<in> home s"
  shows "\<exists>t W. iupdate sw ip s = Some t \<and> txn W {} k t \<and> lview t = lview s \<and>
    (\<forall>n q. get_inode (sb s) W n q = (if n = i_inum (inodes s ip) then stored (inodes s ip) q else get_inode (sb s) V n q)) \<and>
    (\<forall>m. m \<noteq> IBLOCK (i_inum (inodes s ip)) (sb s) \<longrightarrow> W m = V m) \<and>
    (\<forall>u jp l. txn W {} l u \<and> sb u = sb s \<and> i_dev (inodes u jp) = blk (log_dev u) \<and> i_inum (inodes u jp) = i_inum (inodes s ip) \<and>
       1 \<le> i_ref (inodes u jp) \<and> \<not> i_valid (inodes u jp) \<and> \<not> sl_locked (slocks u (SL_inode jp)) \<longrightarrow>
       (if i_type (inodes s ip) = 0 then ilock sw jp u = None
        else \<exists>v. ilock sw jp u = Some v \<and> txn W {} l v \<and> inodes v = (inodes u)(jp := (stored (inodes s ip) (inodes u jp))\<lparr>i_valid := True\<rparr>)))"
proof -
  let ?q = "inodes s ip" let ?W = "put_inode ?q (sb s) V"
  obtain t where t: "iupdate sw ip s = Some t" "txn ?W {} k t" "lview t = lview s" using iupdate_txn [OF assms, of sw] by blast
  have g: "get_inode (sb s) ?W n q = (if n = i_inum ?q then stored ?q q else get_inode (sb s) V n q)" for n q
    using get_put_inode get_put_other [OF _ fx.whole [OF assms(1)]] by simp
  have "if i_type ?q = 0 then ilock sw jp u = None
      else \<exists>v. ilock sw jp u = Some v \<and> txn ?W {} l v \<and> inodes v = (inodes u)(jp := (stored ?q (inodes u jp))\<lparr>i_valid := True\<rparr>)"
    if u: "txn ?W {} l u" "sb u = sb s" "i_dev (inodes u jp) = blk (log_dev u)" "i_inum (inodes u jp) = i_inum ?q" "1 \<le> i_ref (inodes u jp)"
      "\<not> i_valid (inodes u jp)" "\<not> sl_locked (slocks u (SL_inode jp))" for u jp l
  proof -
    have e: "get_inode (sb u) ?W (i_inum (inodes u jp)) (inodes u jp) = stored ?q (inodes u jp)" using g u(2,4) by simp
    obtain v where v: "ilock sw jp u = (if i_type (stored ?q (inodes u jp)) = 0 then None else Some v)" "txn ?W {} l v"
      "lview v = upd_inode jp (\<lambda>_. (stored ?q (inodes u jp))\<lparr>i_valid := True\<rparr>) (lview u)"
      using ilock_txn [OF u(1,3,5,7,6), of sw, unfolded e] by blast
    moreover have "i_type (stored ?q (inodes u jp)) = i_type ?q" by (simp add: stored_def)
    ultimately show ?thesis using lview_inode(1) [OF v(3)] by auto
  qed
  moreover have "?W m = V m" if "m \<noteq> IBLOCK (i_inum ?q) (sb s)" for m using that by (simp add: put_inode_def Let_def)
  ultimately show ?thesis using t g by (intro exI [of _ t] exI [of _ ?W]) blast
qed

theorem iupdate_ilock_witness:
  "\<exists>(s :: fsst) t v. binit (fs_ex (\<lambda>_ _. 0) inode_ex) = Some s \<and> iupdate Some 0 s = Some t \<and>
     ilock Some 1 (upd_slock (SL_inode 1) \<lparr>sl_locked = False, sl_pid = 0\<rparr>
       (upd_inode 1 (\<lambda>q. q\<lparr>i_valid := False, i_type := 0, i_size := 0, i_addrs := (\<lambda>_. 0)\<rparr>) t)) = Some v \<and> 
     i_size (inodes v 1) = 777 \<and> i_addrs (inodes v 1) 0 = 50"
proof -
  obtain s where s: "binit (fs_ex (\<lambda>_ _. 0) inode_ex) = Some s" "txn (\<lambda>_ _. 0) {} (Suc 19) s" "sb s = sb_ex" "inodes s = (\<lambda>_. inode_ex)"
    "log_start s = 2" "log_dev s = 1"
    by (rule fs_ex_boot [of "\<lambda>_ _. 0" inode_ex]) (simp_all add: block_of_def)
  have i: "IBLOCK 17 sb_ex = 34" by (simp add: IBLOCK_def sb_ex_def IPB_def BSIZE_def)
  have h: "i_dev (inodes s 0) = blk (log_dev s)" "IBLOCK (i_inum (inodes s 0)) (sb s) \<in> home s"
    using s(3-6) i fs_ex_area [of 34] by (simp_all add: inode_ex_def blk_def home_def)
  obtain t W where t: "iupdate Some 0 s = Some t" "txn W {} 19 t" "lview t = lview s"
    and l: "\<forall>(u :: fsst) jp l. txn W {} l u \<and> sb u = sb s \<and> i_dev (inodes u jp) = blk (log_dev u) \<and> i_inum (inodes u jp) = i_inum (inodes s 0) \<and>
       1 \<le> i_ref (inodes u jp) \<and> \<not> i_valid (inodes u jp) \<and> \<not> sl_locked (slocks u (SL_inode jp)) \<longrightarrow>
       (if i_type (inodes s 0) = 0 then ilock Some jp u = None
        else \<exists>v. ilock Some jp u = Some v \<and> txn W {} l v \<and> inodes v = (inodes u)(jp := (stored (inodes s 0) (inodes u jp))\<lparr>i_valid := True\<rparr>))"
    using iupdate_ilock [OF s(2) h, of Some] by (elim exE conjE) (rule that)
  let ?u = "upd_slock (SL_inode 1) \<lparr>sl_locked = False, sl_pid = 0\<rparr>
       (upd_inode 1 (\<lambda>q. q\<lparr>i_valid := False, i_type := 0, i_size := 0, i_addrs := (\<lambda>_. 0)\<rparr>) t)"
  have ti: "inodes t = (\<lambda>_. inode_ex)" "log_dev t = 1" "sb t = sb s" using lview_fs [OF t(3)] lview_fields(2) [OF t(3)] s by simp_all
  have u: "inodes ?u 1 = inode_ex\<lparr>i_valid := False, i_type := 0, i_size := 0, i_addrs := (\<lambda>_. 0)\<rparr>" "log_dev ?u = 1" "sb ?u = sb s"
    "\<not> sl_locked (slocks ?u (SL_inode 1))" by (simp_all add: upd_slock_def upd_inode_def ti)
  have "txn W {} 19 ?u" using t(2) by simp
  then obtain v where "ilock Some 1 ?u = Some v" "inodes v = (inodes ?u)(1 := (stored inode_ex (inodes ?u 1))\<lparr>i_valid := True\<rparr>)"
    using l [THEN spec, of ?u, THEN spec, of 1, THEN spec, of 19] unfolding u(1,2,3) s(4) using u(4) by (auto simp: inode_ex_def blk_def)
  then show ?thesis using s(1) t(1) u(1) by (intro exI [of _ s] exI [of _ t] exI [of _ v]) (simp add: stored_def inode_ex_def)
qed

end
