(* ===== verification/Bitmap.thy ===== *)
theory Bitmap
  imports Inodes
begin

text \<open>
  The allocation of disk blocks in \<^verbatim>\<open>kernel/fs.c\<close>: \<open>balloc\<close> hands out a block that was free, zeroed, and marks
  just that block, and \<open>bfree\<close> undoes it.
\<close>

section \<open>The bitmap\<close>

text \<open>Block \<open>b\<close> is in use: its bit in the bitmap.\<close>

definition bpos :: "uint32 \<Rightarrow> nat" where
  "bpos b = unat b mod BPB"

definition in_use :: "superblock \<Rightarrow> (uint32 \<Rightarrow> bytes) \<Rightarrow> uint32 \<Rightarrow> bool" where
  "in_use q V b \<longleftrightarrow> bit (V (BBLOCK b q) (bpos b div 8)) (bpos b mod 8)"

definition set_bit_of :: "bool \<Rightarrow> nat \<Rightarrow> bytes \<Rightarrow> bytes" where
  "set_bit_of v i d = d(i div 8 := if v then d (i div 8) OR push_bit (i mod 8) 1 else d (i div 8) AND NOT (push_bit (i mod 8) 1))"

definition mark :: "superblock \<Rightarrow> bool \<Rightarrow> uint32 \<Rightarrow> (uint32 \<Rightarrow> bytes) \<Rightarrow> uint32 \<Rightarrow> bytes" where
  "mark q v b V = V(BBLOCK b q := set_bit_of v (bpos b) (V (BBLOCK b q)))"

lemma bpos_less: "bpos b < BPB" "bpos b div 8 < BSIZE"
  by (auto simp: bpos_def BPB_def BSIZE_def)

lemma bit_set_bit_of:
  "bit (set_bit_of v i d (j div 8)) (j mod 8) \<longleftrightarrow> (if j = i then v else bit (d (j div 8)) (j mod 8))"
proof (cases "j div 8 = i div 8")
  case True
  then have "j mod 8 = i mod 8 \<longleftrightarrow> j = i" by (metis div_mult_mod_eq)
  then show ?thesis using True
    by (auto simp: set_bit_of_def bit_or_iff bit_and_iff bit_not_iff bit_push_bit_iff possible_bit_def bit_exp_iff)
next
  case False
  then show ?thesis by (auto simp: set_bit_of_def)
qed

lemma set_bit_of_block: "i div 8 < BSIZE \<Longrightarrow> block_of (set_bit_of v i d) = set_bit_of v i (block_of d)"
  by (auto simp: set_bit_of_def block_of_def fun_eq_iff)

lemma BBLOCK_bpos:
  assumes "BBLOCK a q = BBLOCK b q" "bpos a = bpos b"
  shows "a = b"
proof -
  have "a div 8192 = b div 8192" using assms(1) by (simp add: BBLOCK_def BPB_def BSIZE_def)
  then have "unat a div 8192 = unat b div 8192" by (simp add: word_unat_eq_iff unat_div)
  moreover have "unat a mod 8192 = unat b mod 8192" using assms(2) by (simp add: bpos_def BPB_def BSIZE_def)
  ultimately show ?thesis by (metis div_mult_mod_eq word_unat_eq_iff)
qed

lemma in_use_mark: "in_use q (mark q v b V) a \<longleftrightarrow> (if a = b then v else in_use q V a)"
proof (cases "BBLOCK a q = BBLOCK b q")
  case True
  then have "bpos a = bpos b \<longleftrightarrow> a = b" using BBLOCK_bpos by blast
  then show ?thesis using True by (simp add: in_use_def mark_def bit_set_bit_of)
next
  case False
  then show ?thesis by (auto simp: in_use_def mark_def)
qed

lemma in_use_other: "(\<And>b. b < sb_size q \<Longrightarrow> m \<noteq> BBLOCK b q) \<Longrightarrow> b < sb_size q \<Longrightarrow> in_use q (V(m := d)) b = in_use q V b"
  by (auto simp: in_use_def)

text \<open>The blocks that are never handed out, and a bitmap that says so.\<close>

definition reserved :: "superblock \<Rightarrow> int \<Rightarrow> uint32 set" where
  "reserved q st = insert 0 (log_area st \<union> {IBLOCK i q |i. i < sb_ninodes q} \<union> {BBLOCK b q |b. b < sb_size q})"

definition bitmap_ok :: "superblock \<Rightarrow> int \<Rightarrow> (uint32 \<Rightarrow> bytes) \<Rightarrow> bool" where
  "bitmap_ok q st V \<longleftrightarrow> (\<forall>b < sb_size q. BBLOCK b q \<notin> log_area st) \<and>
     (\<forall>b < sb_size q. b \<in> reserved q st \<longrightarrow> in_use q V b)"

section \<open>Freeing\<close>

lemma bfree_txn:
  assumes t: "txn V B (Suc k) s" and B: "card B \<le> 1" "BBLOCK b (sb s) \<notin> key s ` B" and h: "BBLOCK b (sb s) \<in> home s"
    and u: "in_use (sb s) V b" and dev: "dev = blk (log_dev s)"
  shows "\<exists>t. bfree sw dev b s = Some t \<and> txn (mark (sb s) False b V) B k t \<and> lview t = lview s \<and> (\<forall>c \<in> B. key t c = key s c)"
proof -
  let ?m = "BBLOCK b (sb s)"
  obtain p r where p: "bread sw (blk (log_dev s)) ?m s = Some (p, r)" "block_of (b_data (bufs r p)) = V ?m" "lview r = lview s"
    "\<forall>d. \<exists>u v. log_write p (upd_buf p (\<lambda>x. x\<lparr>b_data := d\<rparr>) r) = Some u \<and> brelse p u = Some v \<and> txn (V(?m := block_of d)) B k v \<and>
       lview u = lview s \<and> lview v = lview s \<and> (\<forall>c \<in> B. key v c = key s c)"
    by (rule fx.update_block [OF t B h, of sw])
  let ?d = "b_data (bufs r p)"
  have "bit (?d (bpos b div 8)) (bpos b mod 8)"
    using u bpos_less(2) [of b] unfolding in_use_def p(2) [symmetric] by (simp add: block_of_def)
  then have "?d (bpos b div 8) AND push_bit (bpos b mod 8) 1 \<noteq> 0" by (simp add: bit_iff_and_push_bit_not_eq_0)
  moreover have "upd_buf p (\<lambda>x. x\<lparr>b_data := (b_data x)(bpos b div 8 := b_data x (bpos b div 8) AND NOT (push_bit (bpos b mod 8) 1))\<rparr>) r =
      upd_buf p (\<lambda>x. x\<lparr>b_data := set_bit_of False (bpos b) ?d\<rparr>) r"
    by (simp add: upd_buf_def set_bit_of_def)
  moreover have "V(?m := block_of (set_bit_of False (bpos b) ?d)) = mark (sb s) False b V"
    using bpos_less(2) [of b] by (simp add: mark_def set_bit_of_block p(2))
  ultimately show ?thesis
    using p(1) spec [OF p(4), of "set_bit_of False (bpos b) ?d"] by (auto simp: bfree_def dev bpos_def [symmetric] Let_def)
qed

text \<open>Freeing a free block panics.\<close>

lemma bfree_free:
  assumes t: "txn V {} k s" and u: "\<not> in_use (sb s) V b" and dev: "dev = blk (log_dev s)"
  shows "bfree sw dev b s = None"
proof -
  let ?m = "BBLOCK b (sb s)"
  obtain p r where p: "bread sw (blk (log_dev s)) ?m s = Some (p, r)" "block_of (b_data (bufs r p)) = V ?m"
    by (rule fx.read_block [OF t, of ?m sw]) auto
  have "\<not> bit (b_data (bufs r p) (bpos b div 8)) (bpos b mod 8)"
    using u bpos_less(2) [of b] unfolding in_use_def p(2) [symmetric] by (simp add: block_of_def)
  then have "b_data (bufs r p) (bpos b div 8) AND push_bit (bpos b mod 8) 1 = 0" by (simp add: bit_iff_and_push_bit_not_eq_0)
  then show ?thesis using p(1) by (simp add: bfree_def dev bpos_def [symmetric] Let_def)
qed

section \<open>Allocating\<close>

lemma bzero_txn:
  assumes t: "txn V B (Suc k) s" and B: "card B \<le> 1" "n \<notin> key s ` B" and h: "n \<in> home s" and dev: "dev = blk (log_dev s)"
  shows "\<exists>t. bzero sw dev n s = Some t \<and> txn (V(n := (\<lambda>_. 0))) B k t \<and> lview t = lview s \<and> (\<forall>c \<in> B. key t c = key s c)"
proof -
  obtain p r where p: "bread sw (blk (log_dev s)) n s = Some (p, r)"
    "\<forall>d. \<exists>u v. log_write p (upd_buf p (\<lambda>x. x\<lparr>b_data := d\<rparr>) r) = Some u \<and> brelse p u = Some v \<and> txn (V(n := block_of d)) B k v \<and>
       lview u = lview s \<and> lview v = lview s \<and> (\<forall>c \<in> B. key v c = key s c)"
    by (rule fx.update_block [OF t B h, of sw])
  let ?d = "memset (b_data (bufs r p)) 0 0 BSIZE"
  have "upd_buf p (\<lambda>x. x\<lparr>b_data := memset (b_data x) 0 0 BSIZE\<rparr>) r = upd_buf p (\<lambda>x. x\<lparr>b_data := ?d\<rparr>) r"
    by (simp add: upd_buf_def)
  moreover have "block_of ?d = (\<lambda>_. 0)" by (auto simp: block_of_def memset_apply)
  ultimately show ?thesis using p(1) spec [OF p(2), of ?d] by (auto simp: bzero_def dev)
qed

lemma scan_until:
  assumes "I s" "\<And>i s. i \<in> set is \<Longrightarrow> I s \<Longrightarrow> (\<exists>t. f i s = Some (None, t) \<and> I t \<and> miss i) \<or> (\<exists>r t. f i s = Some (Some r, t) \<and> Q r t)"
  shows "(\<exists>t. scan f is s = Some (None, t) \<and> I t \<and> (\<forall>i \<in> set is. miss i)) \<or> (\<exists>r t. scan f is s = Some (Some r, t) \<and> Q r t)"
  using assms
proof (induction "is" arbitrary: s)
  case (Cons i "is")
  from Cons.prems(2) [of i s] Cons.prems(1) consider t where "f i s = Some (None, t)" "I t" "miss i" | r t where "f i s = Some (Some r, t)" "Q r t"
    by auto
  then show ?case
  proof cases
    case (1 t)
    then show ?thesis using Cons.IH [OF 1(2)] Cons.prems(2) by simp
  qed auto
qed simp

text \<open>The blocks whose bits are in one block of the bitmap.\<close>

lemma group:
  assumes "j * BPB + i < 2 ^ 32" "i < BPB"
  shows "bpos (of_nat (j * BPB + i)) = i" "BBLOCK (of_nat (j * BPB + i)) q = BBLOCK (of_nat (j * BPB)) q"
proof -
  have u: "unat (of_nat (j * BPB + i) :: uint32) = j * BPB + i" "unat (of_nat (j * BPB) :: uint32) = j * BPB"
    using assms(1) by (simp_all only: unat_of_nat) simp_all
  show "bpos (of_nat (j * BPB + i)) = i" unfolding bpos_def u using assms(2) by simp
  have "(of_nat (j * BPB + i) :: uint32) div 8192 = of_nat (j * BPB) div 8192"
    using assms(2) unfolding word_unat_eq_iff unat_div u by (simp add: BPB_def BSIZE_def)
  then show "BBLOCK (of_nat (j * BPB + i)) q = BBLOCK (of_nat (j * BPB)) q" by (simp add: BBLOCK_def BPB_def BSIZE_def)
qed

lemma balloc_bit_spec:
  assumes d: "block_of d = V (BBLOCK (of_nat (j * BPB)) q)" and sz: "sz = unat (sb_size q)"
  shows "balloc_bit d (j * BPB) sz = None \<Longrightarrow> i < BPB \<Longrightarrow> j * BPB + i < sz \<Longrightarrow> in_use q V (of_nat (j * BPB + i))"
    "balloc_bit d (j * BPB) sz = Some i \<Longrightarrow> i < BPB \<and> j * BPB + i < sz \<and> \<not> in_use q V (of_nat (j * BPB + i))"
proof -
  have lim: "sz < 2 ^ 32" using unsigned_less [where 'a = nat, of "sb_size q"] sz by simp
  have b: "d (i div 8) AND push_bit (i mod 8) 1 = 0 \<longleftrightarrow> \<not> in_use q V (of_nat (j * BPB + i))" if "i < BPB" "j * BPB + i < sz" for i
  proof -
    have "i div 8 < BSIZE" using that(1) by (simp add: BPB_def less_mult_imp_div_less)
    then have "block_of d (i div 8) = d (i div 8)" by (simp add: block_of_def)
    moreover have l: "j * BPB + i < 2 ^ 32" using that(2) lim by simp
    have "in_use q V (of_nat (j * BPB + i)) \<longleftrightarrow> bit (block_of d (i div 8)) (i mod 8)"
      unfolding in_use_def group [OF l that(1)] d ..
    ultimately show ?thesis by (simp add: bit_iff_and_push_bit_not_eq_0)
  qed
  show "in_use q V (of_nat (j * BPB + i))" if "balloc_bit d (j * BPB) sz = None" "i < BPB" "j * BPB + i < sz"
    using that b [of i] by (auto simp: balloc_bit_def find_upt_None)
  show "i < BPB \<and> j * BPB + i < sz \<and> \<not> in_use q V (of_nat (j * BPB + i))" if "balloc_bit d (j * BPB) sz = Some i"
  proof -
    have "i < BPB" "i < sz - j * BPB" "d (i div 8) AND push_bit (i mod 8) 1 = 0"
      using that by (auto simp: balloc_bit_def find_upt_Some)
    moreover from this have "j * BPB + i < sz" by simp
    ultimately show ?thesis using b [of i] by simp
  qed
qed

text \<open>The view of a transaction in which block \<open>a\<close> has been allocated.\<close>

definition allocated_block :: "superblock \<Rightarrow> uint32 \<Rightarrow> (uint32 \<Rightarrow> bytes) \<Rightarrow> uint32 \<Rightarrow> bytes" where
  "allocated_block q a V = (mark q True a V)(a := (\<lambda>_. 0))"

definition free_block :: "superblock \<Rightarrow> (uint32 \<Rightarrow> bytes) \<Rightarrow> uint32 \<Rightarrow> bool" where
  "free_block q V a \<longleftrightarrow> a < sb_size q \<and> \<not> in_use q V a"

lemma free_not_reserved: "bitmap_ok q st V \<Longrightarrow> free_block q V a \<Longrightarrow> a \<notin> reserved q st"
  by (auto simp: bitmap_ok_def free_block_def)

lemma balloc_turn:
  assumes t: "txn V B (k + 2) s" and B: "card B \<le> 1" "\<forall>c \<in> B. in_use (sb s) V (key s c) \<and> (\<forall>b < sb_size (sb s). key s c \<noteq> BBLOCK b (sb s))"
    and ok: "bitmap_ok (sb s) (log_start s) V" and dev: "dev = blk (log_dev s)" and j: "j * BPB < unat (sb_size (sb s))"
  shows "(\<exists>t. balloc_group sw dev (j * BPB) s = Some (None, t) \<and> (txn V B (k + 2) t \<and> lview t = lview s \<and> (\<forall>c \<in> B. key t c = key s c)) \<and>
      (\<forall>i < BPB. j * BPB + i < unat (sb_size (sb s)) \<longrightarrow> in_use (sb s) V (of_nat (j * BPB + i)))) \<or>
    (\<exists>a t. balloc_group sw dev (j * BPB) s = Some (Some a, t) \<and> free_block (sb s) V a \<and> txn (allocated_block (sb s) a V) B k t \<and>
       lview t = lview s \<and> (\<forall>c \<in> B. key t c = key s c))"
proof -
  let ?q = "sb s" let ?sz = "unat (sb_size (sb s))" let ?m = "BBLOCK (of_nat (j * BPB)) ?q"
  have lim: "?sz < 2 ^ 32" using unsigned_less [where 'a = nat, of "sb_size (sb s)"] by simp
  have jl: "(of_nat (j * BPB) :: uint32) < sb_size ?q" using j lim by (simp add: word_less_nat_alt unat_of_nat del: of_nat_mult)
  have m: "?m \<notin> key s ` B" "?m \<in> home s" using B(2) jl ok unfolding bitmap_ok_def home_def image_iff Compl_iff by metis+
  have tS: "txn V B (Suc (Suc k)) s" using t by simp
  obtain p r where p: "bread sw (blk (log_dev s)) ?m s = Some (p, r)" "txn V (insert p B) (Suc (Suc k)) r" "p \<notin> B" "key r p = ?m"
    "\<forall>c \<in> B. key r c = key s c" "lview r = lview s"
    using fx.rd [OF tS m(1) B(1), of sw] by blast
  note v = lview_fs [OF p(6)] lview_fields [OF p(6)]
  have d: "block_of (b_data (bufs r p)) = V ?m" using fx.contents [OF p(2), of p] p(4) by simp
  have Bp: "insert p B - {p} = B" using p(3) by blast
  show ?thesis
  proof (cases "balloc_bit (b_data (bufs r p)) (j * BPB) ?sz")
    case None
    obtain u where "brelse p r = Some u" "txn V B (k + 2) u" "lview u = lview s" "\<forall>c \<in> B. key u c = key s c"
      using fx.rel [OF p(2) insertI1] p(5,6) unfolding Bp by auto
    then show ?thesis using p(1) None balloc_bit_spec(1) [of _ V j "sb s", OF d refl None] v by (auto simp: balloc_group_def dev simp del: of_nat_mult of_nat_add)
  next
    case (Some i)
    let ?a = "of_nat (j * BPB + i) :: uint32"
    note b = balloc_bit_spec(2) [of _ V j "sb s", OF d refl Some]
    have l: "j * BPB + i < 2 ^ 32" "i < BPB" using b lim by auto
    note g = group(1) [OF l] group(2) [OF l, of ?q]
    have a: "free_block ?q V ?a"
      using b lim by (simp add: free_block_def word_less_nat_alt unat_of_nat del: of_nat_mult of_nat_add)
    then have res: "?a \<notin> reserved ?q (log_start s)" by (rule free_not_reserved [OF ok])
    let ?d = "set_bit_of True i (b_data (bufs r p))"
    have "key r p \<in> home r" using m(2) p(4) v by (simp add: home_def)
    from fx.lw [OF p(2) insertI1 this, of ?d] obtain u where u: "log_write p (upd_buf p (\<lambda>x. x\<lparr>b_data := ?d\<rparr>) r) = Some u"
      "txn (V(?m := block_of ?d)) (insert p B) (Suc k) u" "\<forall>c \<in> insert p B. key u c = key r c" "lview u = lview r" using p(4) by auto
    have mk: "V(?m := block_of ?d) = mark ?q True ?a V"
      using bpos_less(2) [of ?a] by (simp add: mark_def g set_bit_of_block d del: of_nat_mult of_nat_add)
    obtain w where w: "brelse p u = Some w" "txn (mark ?q True ?a V) B (Suc k) w" "lview w = lview u" "\<forall>c \<in> B. key w c = key u c"
      using fx.rel [OF u(2) insertI1] unfolding Bp mk by blast
    note vw = lview_fields [OF w(3)] lview_fields [OF u(4)]
    have n: "?a \<notin> key w ` B" using w(4) u(3) p(5) B(2) a by (auto simp: free_block_def simp del: of_nat_mult of_nat_add)
    have h: "?a \<in> home w" using res vw v by (simp add: home_def reserved_def del: of_nat_mult of_nat_add)
    obtain x where x: "bzero sw dev ?a w = Some x" "txn ((mark ?q True ?a V)(?a := (\<lambda>_. 0))) B k x" "lview x = lview w" "\<forall>c \<in> B. key x c = key w c"
      using bzero_txn [OF w(2) B(1) n h, of dev sw] vw v dev by auto
    have "upd_buf p (\<lambda>x. x\<lparr>b_data := (b_data x)(i div 8 := b_data x (i div 8) OR push_bit (i mod 8) 1)\<rparr>) r = upd_buf p (\<lambda>x. x\<lparr>b_data := ?d\<rparr>) r"
      by (simp add: upd_buf_def set_bit_of_def)
    then have "balloc_group sw dev (j * BPB) s = Some (Some ?a, x)"
      using p(1) Some u(1) w(1) x(1) v by (simp add: balloc_group_def dev del: of_nat_mult of_nat_add)
    then show ?thesis using a x(2-4) w(3,4) u(3,4) p(5,6) by (auto simp: allocated_block_def simp del: of_nat_mult of_nat_add)
  qed
qed

lemma txn_klog [simp]: "txn V B k (s\<lparr>klog := l\<rparr>) = txn V B k s" "lview (s\<lparr>klog := l\<rparr>) = lview s" "key (s\<lparr>klog := l\<rparr>) = key s"
  by (simp_all add: txn_def txn_with_def cache_ok_def locks_ok_def others_free_def myproc_def cpuid_def lview_def brest_def fun_eq_iff key_def)

lemma balloc_txn:
  assumes t: "txn V B (k + 2) s" and B: "card B \<le> 1" "\<forall>c \<in> B. in_use (sb s) V (key s c) \<and> (\<forall>b < sb_size (sb s). key s c \<noteq> BBLOCK b (sb s))"
    and ok: "bitmap_ok (sb s) (log_start s) V" and dev: "dev = blk (log_dev s)" and pr: "L_pr \<notin> set (held s)"
  shows "\<exists>a t. balloc sw dev s = Some (a, t) \<and> lview t = lview s \<and> (\<forall>c \<in> B. key t c = key s c) \<and>
    (a = 0 \<and> (\<forall>b. \<not> free_block (sb s) V b) \<and> txn V B (k + 2) t \<or>
     a \<noteq> 0 \<and> free_block (sb s) V a \<and> txn (allocated_block (sb s) a V) B k t)"
proof -
  let ?q = "sb s" let ?sz = "unat (sb_size (sb s))" let ?K = "(?sz + BPB - 1) div BPB"
  define I where "I = (\<lambda>t. txn V B (k + 2) t \<and> lview t = lview s \<and> (\<forall>c \<in> B. key t c = key s c))"
  define Q where "Q = (\<lambda>a t. free_block ?q V a \<and> txn (allocated_block ?q a V) B k t \<and> lview t = lview s \<and> (\<forall>c \<in> B. key t c = key s c))"
  let ?miss = "\<lambda>b. \<forall>i < BPB. b + i < ?sz \<longrightarrow> in_use ?q V (of_nat (b + i))"
  have turn: "(\<exists>t. balloc_group sw dev b u = Some (None, t) \<and> I t \<and> ?miss b) \<or> (\<exists>r t. balloc_group sw dev b u = Some (Some r, t) \<and> Q r t)"
    if b: "b \<in> set (map (\<lambda>k. k * BPB) [0..<?K])" and u: "I u" for b u
  proof -
    obtain j where j: "j < ?K" "b = j * BPB" using b by auto
    have "j * BPB < ?sz" using j(1) by (simp add: less_eq_div_iff_mult_less_eq Suc_le_eq [symmetric] BPB_def BSIZE_def)
    then show ?thesis
      using balloc_turn [of V B k u dev j sw] u B ok dev lview_fs [of u s] lview_fields [of u s]
      unfolding I_def Q_def j(2) by auto
  qed
  have "I s" using t by (simp add: I_def)
  from scan_until [of I s "map (\<lambda>k. k * BPB) [0..<?K]" "balloc_group sw dev" ?miss Q, OF this turn]
  consider (none) u where "scan (balloc_group sw dev) (map (\<lambda>k. k * BPB) [0..<?K]) s = Some (None, u)" "I u" "\<forall>j < ?K. ?miss (j * BPB)"
    | (found) a u where "scan (balloc_group sw dev) (map (\<lambda>k. k * BPB) [0..<?K]) s = Some (Some a, u)" "Q a u"
    by auto
  then show ?thesis
  proof cases
    case none
    have "in_use ?q V b" if "b < sb_size ?q" for b
    proof -
      have "unat b < ?sz" using that by (simp add: word_less_nat_alt)
      moreover have "unat b div BPB < ?K" using \<open>unat b < ?sz\<close> by (simp add: BPB_def BSIZE_def)
      moreover have "unat b mod BPB < BPB" "unat b div BPB * BPB + unat b mod BPB = unat b" by (simp_all add: BPB_def BSIZE_def)
      ultimately have "in_use ?q V (of_nat (unat b))" using none(3) by metis
      then show ?thesis by simp
    qed
    then have full: "\<not> free_block ?q V b" for b by (auto simp: free_block_def)
    have "L_pr \<notin> set (held u)" using none(2) lview_fields(4) [of u s] pr by (simp add: I_def)
    then have "balloc sw dev s = Some (0, u\<lparr>klog := klog u @ [(''balloc: out of blocks\<newline>'', [])]\<rparr>)"
      using none(1) by (simp add: balloc_def kprintf_def acquire_free release_head)
    then show ?thesis using none(2) full by (auto simp: I_def)
  next
    case found
    then have "a \<notin> reserved ?q (log_start s)" using free_not_reserved [OF ok, of a] by (simp add: Q_def)
    then show ?thesis using found by (auto simp: balloc_def Q_def reserved_def)
  qed
qed

section \<open>A small bitmap\<close>

text \<open>A bitmap with the first 56 blocks in use.\<close>

definition disk_ex :: "uint32 \<Rightarrow> bytes" where
  "disk_ex = (\<lambda>_ _. 0)(46 := (\<lambda>i. if i < 7 then - 1 else 0))"

lemma disk_ex_block: "block_of (disk_ex n) = disk_ex n"
  by (auto simp: disk_ex_def block_of_def fun_eq_iff BSIZE_def)

lemma BBLOCK_ex: "b < 2000 \<Longrightarrow> BBLOCK b sb_ex = 46"
proof -
  assume "b < 2000"
  then have "b div 8192 = 0" by (simp add: word_less_nat_alt word_unat_eq_iff unat_div)
  then show ?thesis by (simp add: BBLOCK_def sb_ex_def BPB_def BSIZE_def)
qed

lemma in_use_ex:
  assumes "b < 2000"
  shows "in_use sb_ex disk_ex b \<longleftrightarrow> b < 56"
proof -
  have "unat b < 2000" using assms by (simp add: word_less_nat_alt)
  then have "bpos b = unat b" by (simp add: bpos_def BPB_def BSIZE_def)
  moreover have "unat b div 8 < 7 \<longleftrightarrow> b < 56" by (auto simp: word_less_nat_alt)
  ultimately show ?thesis by (simp add: in_use_def BBLOCK_ex [OF assms] disk_ex_def)
qed

lemma bitmap_ex: "bitmap_ok sb_ex 2 disk_ex"
proof -
  have "IBLOCK i sb_ex < 56" if "i < 200" for i
  proof -
    have "unat i div 16 < 13" using that by (simp add: word_less_nat_alt)
    then have "unat (i div 16 + 33) < 56" by (simp add: unat_word_ariths unat_div)
    then show ?thesis by (simp add: IBLOCK_def sb_ex_def IPB_def BSIZE_def word_less_nat_alt)
  qed
  moreover have "b < 56" if "b \<in> log_area 2" "b < 2000" for b
    using fs_ex_area [of b] that by (cases "33 \<le> b") (auto simp: word_less_nat_alt word_le_nat_alt)
  ultimately have "b < 56" if "b \<in> reserved sb_ex 2" "b < 2000" for b
    using that by (auto simp: reserved_def sb_ex_def [THEN arg_cong [of _ _ sb_size]] sb_ex_def [THEN arg_cong [of _ _ sb_ninodes]] BBLOCK_ex)
  then show ?thesis using fs_ex_area [of 46] BBLOCK_ex in_use_ex by (auto simp: bitmap_ok_def sb_ex_def [THEN arg_cong [of _ _ sb_size]])
qed

end
