(* ===== verification/Filemap.thy ===== *)
theory Filemap
  imports Bitmap
begin

text \<open>
  The blocks of a file, \<^verbatim>\<open>kernel/fs.c\<close>: direct and indirect addresses, and that \<open>bmap\<close> finds a block or
  allocates it without changing what the file, or any other file, reads as.
\<close>

section \<open>The blocks of a file\<close>

text \<open>The address of block \<open>n\<close> of the file with inode \<open>q\<close>, 0 where there is none.\<close>

definition baddr :: "(uint32 \<Rightarrow> bytes) \<Rightarrow> inode \<Rightarrow> nat \<Rightarrow> uint32" where
  "baddr V q n =
     (if n < NDIRECT then i_addrs q n
      else if n < MAXFILE \<and> i_addrs q NDIRECT \<noteq> 0 then ld32 (V (i_addrs q NDIRECT)) (4 * (n - NDIRECT))
      else 0)"

text \<open>The byte at an offset; a block that is missing reads as zeros.\<close>

definition fbyte :: "(uint32 \<Rightarrow> bytes) \<Rightarrow> inode \<Rightarrow> nat \<Rightarrow> uint8" where
  "fbyte V q off = (let a = baddr V q (off div BSIZE) in if a = 0 then 0 else V a (off mod BSIZE))"

definition fblocks :: "(uint32 \<Rightarrow> bytes) \<Rightarrow> inode \<Rightarrow> uint32 set" where
  "fblocks V q = insert (i_addrs q NDIRECT) (range (baddr V q))"

definition data_block :: "superblock \<Rightarrow> int \<Rightarrow> (uint32 \<Rightarrow> bytes) \<Rightarrow> uint32 \<Rightarrow> bool" where
  "data_block g st V a \<longleftrightarrow> a < sb_size g \<and> in_use g V a \<and> a \<notin> reserved g st"

text \<open>The blocks of the file, its indirect block included, are different data blocks.\<close>

definition file_ok :: "superblock \<Rightarrow> int \<Rightarrow> (uint32 \<Rightarrow> bytes) \<Rightarrow> inode \<Rightarrow> bool" where
  "file_ok g st V q \<longleftrightarrow>
     (\<forall>n. baddr V q n \<noteq> 0 \<longrightarrow> data_block g st V (baddr V q n) \<and> baddr V q n \<noteq> i_addrs q NDIRECT) \<and>
     (i_addrs q NDIRECT \<noteq> 0 \<longrightarrow> data_block g st V (i_addrs q NDIRECT)) \<and>
     (\<forall>m n. baddr V q m = baddr V q n \<and> baddr V q m \<noteq> 0 \<longrightarrow> m = n)"

lemma file_okD:
  assumes "file_ok g st V q"
  shows "baddr V q n \<noteq> 0 \<Longrightarrow> data_block g st V (baddr V q n)" "baddr V q n \<noteq> 0 \<Longrightarrow> baddr V q n \<noteq> i_addrs q NDIRECT"
    "i_addrs q NDIRECT \<noteq> 0 \<Longrightarrow> data_block g st V (i_addrs q NDIRECT)"
    "baddr V q m = baddr V q n \<Longrightarrow> baddr V q m \<noteq> 0 \<Longrightarrow> m = n"
  using assms by (auto simp: file_ok_def)

text \<open>Allocating a block leaves the data blocks alone.\<close>

lemma alloc_block:
  assumes ok: "bitmap_ok g st V" and a: "free_block g V a"
  defines "W \<equiv> allocated_block g a V"
  shows "data_block g st V m \<Longrightarrow> W m = V m" "W a = (\<lambda>_. 0)" "x < sb_size g \<Longrightarrow> in_use g W x \<longleftrightarrow> in_use g V x \<or> x = a"
    "bitmap_ok g st W" "data_block g st W m \<longleftrightarrow> data_block g st V m \<or> m = a" "\<not> data_block g st V a" "a \<noteq> 0"
proof -
  have r: "a \<notin> reserved g st" by (rule free_not_reserved [OF ok a])
  then have b: "a \<noteq> BBLOCK x g" if "x < sb_size g" for x using that by (auto simp: reserved_def)
  have as: "a < sb_size g" using a by (simp add: free_block_def)
  show u: "in_use g W x \<longleftrightarrow> in_use g V x \<or> x = a" if "x < sb_size g" for x
    using in_use_other [of g a x "mark g True a V"] b that by (simp add: W_def allocated_block_def in_use_mark)
  show "W a = (\<lambda>_. 0)" by (simp add: W_def allocated_block_def)
  have "BBLOCK a g \<in> reserved g st" using as by (auto simp: reserved_def)
  then show "W m = V m" if "data_block g st V m" using that a
    by (auto simp: W_def allocated_block_def mark_def data_block_def free_block_def)
  show "bitmap_ok g st W" using ok u by (simp add: bitmap_ok_def)
  show "data_block g st W m \<longleftrightarrow> data_block g st V m \<or> m = a" using u [of m] r as by (auto simp: data_block_def)
  show "\<not> data_block g st V a" using a by (simp add: data_block_def free_block_def)
  show "a \<noteq> 0" using r by (auto simp: reserved_def)
qed

text \<open>Writing a data block leaves the bitmap alone.\<close>

lemma write_block:
  assumes "data_block g st V m"
  shows "x < sb_size g \<Longrightarrow> in_use g (V(m := d)) x = in_use g V x" "bitmap_ok g st (V(m := d)) = bitmap_ok g st V"
    "data_block g st (V(m := d)) x = data_block g st V x"
proof -
  have b: "m \<noteq> BBLOCK y g" if "y < sb_size g" for y using assms that by (auto simp: data_block_def reserved_def)
  show u: "in_use g (V(m := d)) x = in_use g V x" if "x < sb_size g" for x by (rule in_use_other [OF b that])
  show "bitmap_ok g st (V(m := d)) = bitmap_ok g st V" by (simp add: bitmap_ok_def u)
  show "data_block g st (V(m := d)) x = data_block g st V x" using u [of x] by (auto simp: data_block_def)
qed

text \<open>
  What \<open>bmap\<close> of block \<open>n\<close> does to a file: afterwards the block has address \<open>a\<close>, or 0 when the disk is
  full; the file reads as before; of the data blocks of the disk only its indirect block changes; and
  the file takes over no block that was in use.
\<close>

definition mapped :: "superblock \<Rightarrow> int \<Rightarrow> (uint32 \<Rightarrow> bytes) \<Rightarrow> inode \<Rightarrow> nat \<Rightarrow> (uint32 \<Rightarrow> bytes) \<Rightarrow> inode \<Rightarrow> uint32 \<Rightarrow> bool" where
  "mapped g st V q n W q' a \<longleftrightarrow> file_ok g st W q' \<and> bitmap_ok g st W \<and> (\<forall>m. baddr W q' m = (if m = n then a else baddr V q m)) \<and>
     (baddr V q n \<noteq> 0 \<longrightarrow> a = baddr V q n) \<and> (\<forall>x. fbyte W q' x = fbyte V q x) \<and> (\<exists>f. q' = q\<lparr>i_addrs := f\<rparr>) \<and>
     (\<forall>m. data_block g st V m \<longrightarrow> data_block g st W m \<and> (m \<noteq> i_addrs q NDIRECT \<longrightarrow> W m = V m) \<and>
       (m \<in> fblocks W q' \<longrightarrow> m \<in> fblocks V q))"

lemma mapped_same:
  assumes "file_ok g st V q" "bitmap_ok g st V"
  shows "mapped g st V q n V q (baddr V q n)"
  using assms unfolding mapped_def by (auto intro!: exI [of _ "i_addrs q"])

lemma fbyte_alloc:
  assumes f: "file_ok g st V q" and addr: "\<And>m. baddr W q' m = (if m = n \<and> e then a else baddr V q m)"
    and n: "e \<longrightarrow> baddr V q n = 0 \<and> W a = (\<lambda>_. 0)" and same: "\<And>m. baddr V q m \<noteq> 0 \<Longrightarrow> W (baddr V q m) = V (baddr V q m)"
  shows "fbyte W q' x = fbyte V q x"
  using n same [of "x div BSIZE"] by (auto simp: fbyte_def addr Let_def)

lemma slot_mapped:
  assumes f: "file_ok g st V q" and ok: "bitmap_ok g st V" and a: "free_block g V a" and j: "j \<le> NDIRECT" "i_addrs q j = 0"
    and n: "j < NDIRECT \<Longrightarrow> n = j"
  shows "mapped g st V q n (allocated_block g a V) (set_addr j a q) (if j < NDIRECT then a else baddr V q n)"
proof -
  let ?W = "allocated_block g a V" let ?q = "set_addr j a q"
  note al = alloc_block [OF ok a]
  note fD = file_okD [OF f]
  have ind: "?W (i_addrs q NDIRECT) = V (i_addrs q NDIRECT)" if "i_addrs q NDIRECT \<noteq> 0" using al(1) fD(3) that by blast
  have addr: "baddr ?W ?q m = (if m = j \<and> j < NDIRECT then a else baddr V q m)" for m
  proof (cases "j = NDIRECT")
    case True
    then show ?thesis using j(2) by (simp add: baddr_def set_addr_def al(2) ldn_zero)
  next
    case False
    then show ?thesis using j(1) ind by (auto simp: baddr_def set_addr_def)
  qed
  have iq: "i_addrs ?q NDIRECT = (if j = NDIRECT then a else i_addrs q NDIRECT)" by (simp add: set_addr_def)
  have nj: "baddr V q j = 0" if "j < NDIRECT" using that j(2) by (simp add: baddr_def)
  have na: "baddr V q m \<noteq> a" for m using al(6) fD(1) [of m] al(7) by metis
  have ia: "i_addrs q NDIRECT \<noteq> a" using al(6) fD(3) al(7) by metis
  have same: "?W (baddr V q m) = V (baddr V q m)" if "baddr V q m \<noteq> 0" for m using al(1) fD(1) that by blast
  have "file_ok g st ?W ?q" unfolding file_ok_def
  proof (intro conjI allI impI)
    show "data_block g st ?W (baddr ?W ?q m)" if "baddr ?W ?q m \<noteq> 0" for m using that fD(1) [of m] by (auto simp: addr al(5))
    show "baddr ?W ?q m \<noteq> i_addrs ?q NDIRECT" if "baddr ?W ?q m \<noteq> 0" for m
      using that fD(2) [of m] na [of m] ia j unfolding addr iq by (auto split: if_splits)
    show "data_block g st ?W (i_addrs ?q NDIRECT)" if "i_addrs ?q NDIRECT \<noteq> 0" using that fD(3) unfolding iq by (auto simp: al(5))
    show "m = l" if "baddr ?W ?q m = baddr ?W ?q l \<and> baddr ?W ?q m \<noteq> 0" for m l
      using that fD(4) [of m l] na [of m] na [of l] by (auto simp: addr split: if_splits)
  qed
  moreover have "fbyte ?W ?q x = fbyte V q x" for x
    by (rule fbyte_alloc [OF f, of _ _ j "j < NDIRECT" a]) (use addr nj al(2) same in auto)
  moreover have "m \<in> fblocks V q" if "data_block g st V m" "m \<in> fblocks ?W ?q" for m
    using that al(6) by (auto simp: fblocks_def addr iq split: if_splits)
  ultimately show ?thesis
    using al(4) addr al(1,5) nj n unfolding mapped_def by (auto simp: set_addr_def)
qed

lemma entry_mapped:
  assumes f: "file_ok g st V q" and ok: "bitmap_ok g st V" and a: "free_block g V a" and i: "i < NINDIRECT"
    and d: "i_addrs q NDIRECT \<noteq> 0" "ld32 (V (i_addrs q NDIRECT)) (4 * i) = 0"
  defines "W \<equiv> (allocated_block g a V)(i_addrs q NDIRECT := block_of (st32 (V (i_addrs q NDIRECT)) (4 * i) a))"
  shows "mapped g st V q (NDIRECT + i) W q a"
proof -
  let ?X = "allocated_block g a V" let ?d = "i_addrs q NDIRECT"
  note al = alloc_block [OF ok a]
  note fD = file_okD [OF f]
  have dd: "data_block g st V ?d" "data_block g st ?X ?d" using fD(3) d(1) by (simp_all add: al(5))
  note w = write_block [OF dd(2), where d = "block_of (st32 (V ?d) (4 * i) a)", folded W_def]
  have ad: "a \<noteq> ?d" using al(6) dd(1) by blast
  have addr: "baddr W q m = (if m = NDIRECT + i then a else baddr V q m)" for m
  proof (cases "NDIRECT \<le> m \<and> m < MAXFILE")
    case True
    then have m: "m - NDIRECT < NINDIRECT" by (auto simp: MAXFILE_def)
    have "4 * (m - NDIRECT) + 4 \<le> BSIZE" using m by (simp add: NINDIRECT_def BSIZE_def)
    then have "ld32 (W ?d) (4 * (m - NDIRECT)) = ld32 (st32 (V ?d) (4 * i) a) (4 * (m - NDIRECT))" by (simp add: W_def ldn_block_of)
    also have "\<dots> = (if m = NDIRECT + i then a else ld32 (V ?d) (4 * (m - NDIRECT)))"
      using True by (auto simp: ldn_stn_same intro!: ldn_stn_disjoint)
    finally show ?thesis using True d(1) by (simp add: baddr_def)
  next
    case False
    then have "m \<noteq> NDIRECT + i" using i by (auto simp: MAXFILE_def)
    then show ?thesis using False by (auto simp: baddr_def)
  qed
  have n0: "baddr V q (NDIRECT + i) = 0" using d i by (simp add: baddr_def MAXFILE_def)
  have na: "baddr V q m \<noteq> a" for m using al(6) fD(1) [of m] al(7) by metis
  have same: "W m = V m" if "data_block g st V m" "m \<noteq> ?d" for m using al(1) that by (simp add: W_def)
  have "file_ok g st W q" unfolding file_ok_def
  proof (intro conjI allI impI)
    show "data_block g st W (baddr W q m)" if "baddr W q m \<noteq> 0" for m using that fD(1) [of m] by (auto simp: addr w(3) al(5))
    show "baddr W q m \<noteq> ?d" if "baddr W q m \<noteq> 0" for m using that fD(2) [of m] ad unfolding addr by (auto split: if_splits)
    show "data_block g st W ?d" using dd by (simp add: w(3))
    show "m = l" if "baddr W q m = baddr W q l \<and> baddr W q m \<noteq> 0" for m l
      using that fD(4) [of m l] na [of m] na [of l] by (auto simp: addr split: if_splits)
  qed
  moreover have "fbyte W q x = fbyte V q x" for x
    by (rule fbyte_alloc [OF f, of _ _ "NDIRECT + i" True a]) (use addr n0 al(2) ad same fD(1,2) in \<open>auto simp: W_def\<close>)
  moreover have "bitmap_ok g st W" using al(4) by (simp add: w(2))
  moreover have "m \<in> fblocks V q" if "data_block g st V m" "m \<in> fblocks W q" for m
    using that al(6) by (auto simp: fblocks_def addr split: if_splits)
  ultimately show ?thesis
    using addr n0 same by (auto simp: mapped_def w(3) al(5) intro!: exI [of _ "i_addrs q"])
qed

lemma mapped_trans:
  assumes "mapped g st V q n W q' a" "mapped g st W q' n X q'' b"
    "i_addrs q' NDIRECT = i_addrs q NDIRECT \<or> \<not> data_block g st V (i_addrs q' NDIRECT)"
  shows "mapped g st V q n X q'' b"
proof -
  have "data_block g st X m \<and> (m \<noteq> i_addrs q NDIRECT \<longrightarrow> X m = V m) \<and> (m \<in> fblocks X q'' \<longrightarrow> m \<in> fblocks V q)" if "data_block g st V m" for m
    using that assms unfolding mapped_def by metis
  moreover obtain f h where "q' = q\<lparr>i_addrs := f\<rparr>" "q'' = q'\<lparr>i_addrs := h\<rparr>" using assms unfolding mapped_def by blast
  then have "q'' = q\<lparr>i_addrs := h\<rparr>" by simp
  moreover have "baddr V q n \<noteq> 0 \<longrightarrow> b = baddr V q n" using assms unfolding mapped_def by metis
  ultimately show ?thesis using assms(1,2) unfolding mapped_def by auto
qed

section \<open>Mapping a block of a file\<close>

lemma txn_less: "txn V B k s \<Longrightarrow> j \<le> k \<Longrightarrow> txn V B j s"
  by (auto simp: txn_def)

text \<open>A file system in which a file can be changed: \<open>k\<close> more blocks may be logged.\<close>

definition fs_ok :: "(uint32 \<Rightarrow> bytes) \<Rightarrow> nat \<Rightarrow> nat \<Rightarrow> 'z fsst_scheme \<Rightarrow> bool" where
  "fs_ok V k ip s \<longleftrightarrow> txn V {} k s \<and> file_ok (sb s) (log_start s) V (inodes s ip) \<and> bitmap_ok (sb s) (log_start s) V \<and>
     i_dev (inodes s ip) = blk (log_dev s) \<and> L_pr \<notin> set (held s)"

lemma bmap_slot_txn:
  assumes s: "fs_ok V (k + 2) ip s" and j: "j \<le> NDIRECT" and n: "j < NDIRECT \<Longrightarrow> n = j"
  defines "q \<equiv> inodes s ip"
  shows "\<exists>a t W. bmap_slot sw ip j s = Some (a, t) \<and> txn W {} k t \<and> lview t = upd_inode ip (set_addr j a) (lview s) \<and>
    mapped (sb s) (log_start s) V q n W (set_addr j a q) (if j < NDIRECT then a else baddr V q n) \<and>
    (a = i_addrs q j \<or> \<not> data_block (sb s) (log_start s) V a) \<and> (a = 0 \<longrightarrow> (\<forall>b. \<not> free_block (sb s) W b))"
proof -
  let ?g = "sb s" let ?st = "log_start s"
  have t: "txn V {} (k + 2) s" and f: "file_ok ?g ?st V q" and ok: "bitmap_ok ?g ?st V" and dev: "i_dev q = blk (log_dev s)" and pr: "L_pr \<notin> set (held s)"
    using s by (simp_all add: fs_ok_def q_def)
  have id: "set_addr j (i_addrs q j) q = q" "upd_inode ip (set_addr j (i_addrs q j)) (lview s) = lview s"
    by (simp_all add: upd_inode_def set_addr_def q_def lview_def brest_def)
  have m: "mapped ?g ?st V q n V q (if j < NDIRECT then i_addrs q j else baddr V q n)"
    using mapped_same [OF f ok, of n] n by (auto simp: baddr_def)
  show ?thesis
  proof (cases "i_addrs q j = 0")
    case False
    then have "bmap_slot sw ip j s = Some (i_addrs q j, s)" by (simp add: bmap_slot_def q_def Let_def)
    then show ?thesis using m False txn_less [OF t] id by (intro exI [of _ "i_addrs q j"] exI [of _ s] exI [of _ V]) simp
  next
    case True
    obtain a u where u: "balloc sw (i_dev q) s = Some (a, u)" "lview u = lview s"
      "a = 0 \<and> (\<forall>b. \<not> free_block ?g V b) \<and> txn V {} (k + 2) u \<or> a \<noteq> 0 \<and> free_block ?g V a \<and> txn (allocated_block ?g a V) {} k u"
      using balloc_txn [OF t _ _ ok dev pr, of sw] by auto
    from u(3) show ?thesis
    proof
      assume a: "a = 0 \<and> (\<forall>b. \<not> free_block ?g V b) \<and> txn V {} (k + 2) u"
      then have "bmap_slot sw ip j s = Some (0, u)" using True u(1) by (simp add: bmap_slot_def q_def Let_def)
      then show ?thesis using m [unfolded True] True a txn_less [of V "{}" "k + 2" u k] id [unfolded True] u(2)
        by (intro exI [of _ 0] exI [of _ u] exI [of _ V]) simp
    next
      assume a: "a \<noteq> 0 \<and> free_block ?g V a \<and> txn (allocated_block ?g a V) {} k u"
      then have "bmap_slot sw ip j s = Some (a, upd_inode ip (set_addr j a) u)"
        using True u(1) by (simp add: bmap_slot_def q_def Let_def)
      moreover have "mapped ?g ?st V q n (allocated_block ?g a V) (set_addr j a q) (if j < NDIRECT then a else baddr V q n)"
        by (rule slot_mapped [OF f ok _ j True n]) (use a in auto)
      ultimately show ?thesis using a u(2) alloc_block(6) [OF ok, of a]
        by (intro exI [of _ a] exI [of _ "upd_inode ip (set_addr j a) u"] exI [of _ "allocated_block ?g a V"]) (simp add: lview_upd_inode)
    qed
  qed
qed

lemma block_of_stn: "block_of (stn n (block_of d) a v) = block_of (stn n d a v)"
  by (auto simp: block_of_def stn_apply fun_eq_iff)

lemma bmap_entry_txn:
  assumes s: "fs_ok V (k + 3) ip s" and i: "i < NINDIRECT"
  defines "q \<equiv> inodes s ip"
  assumes d: "i_addrs q NDIRECT \<noteq> 0"
  shows "\<exists>a t W. bmap_entry sw ip (i_addrs q NDIRECT) i s = Some (a, t) \<and> txn W {} k t \<and> lview t = lview s \<and>
    mapped (sb s) (log_start s) V q (NDIRECT + i) W q a \<and> (a = 0 \<longrightarrow> (\<forall>b. \<not> free_block (sb s) W b))"
proof -
  let ?g = "sb s" let ?st = "log_start s" let ?d = "i_addrs q NDIRECT"
  have t: "txn V {} (k + 3) s" and f: "file_ok ?g ?st V q" and ok: "bitmap_ok ?g ?st V" and dev: "i_dev q = blk (log_dev s)" and pr: "L_pr \<notin> set (held s)"
    using s by (simp_all add: fs_ok_def q_def)
  have db: "data_block ?g ?st V ?d" by (rule file_okD(3) [OF f d])
  obtain b r where b: "bread sw (blk (log_dev s)) ?d s = Some (b, r)" "txn V {b} (k + 3) r" "key r b = ?d" "lview r = lview s"
    using fx.rd [OF t, of ?d sw] by auto
  note v = lview_fs [OF b(4)] lview_fields [OF b(4)]
  have bd: "block_of (b_data (bufs r b)) = V ?d" using fx.contents [OF b(2), of b] b(3) by simp
  have "4 * i + 4 \<le> BSIZE" using i by (simp add: NINDIRECT_def BSIZE_def)
  then have ld: "ld32 (b_data (bufs r b)) (4 * i) = ld32 (V ?d) (4 * i)" unfolding bd [symmetric] by (simp add: ldn_block_of)
  have ba: "ld32 (V ?d) (4 * i) = baddr V q (NDIRECT + i)" using i d by (simp add: baddr_def MAXFILE_def)
  note same = mapped_same [OF f ok, of "NDIRECT + i", folded ba]
  have rel: "\<exists>w. brelse b u = Some w \<and> txn W {} l w \<and> lview w = lview u" if "txn W {b} l u" for W l u
    using fx.rel [OF that, of b] by auto
  show ?thesis
  proof (cases "ld32 (V ?d) (4 * i) = 0")
    case False
    then show ?thesis using rel [OF b(2)] b(1,4) same ld v dev txn_less [of V "{}" "k + 3" _ k]
      by (fastforce simp: bmap_entry_def q_def)
  next
    case True
    have B: "\<forall>c \<in> {b}. in_use (sb r) V (key r c) \<and> (\<forall>x < sb_size (sb r). key r c \<noteq> BBLOCK x (sb r))"
      using db b(3) v by (auto simp: data_block_def reserved_def)
    have "txn V {b} (Suc k + 2) r" using b(2) by (simp add: eval_nat_numeral)
    from balloc_txn [OF this _ B, of "i_dev q" sw] ok dev pr v
    obtain a u where u: "balloc sw (i_dev q) r = Some (a, u)" "lview u = lview r" "key u b = ?d"
      "a = 0 \<and> (\<forall>b. \<not> free_block ?g V b) \<and> txn V {b} (Suc k + 2) u \<or> a \<noteq> 0 \<and> free_block ?g V a \<and> txn (allocated_block ?g a V) {b} (Suc k) u"
      using b(3) by auto
    from u(4) show ?thesis
    proof
      assume a: "a = 0 \<and> (\<forall>b. \<not> free_block ?g V b) \<and> txn V {b} (Suc k + 2) u"
      then obtain w where "brelse b u = Some w" "txn V {} (Suc k + 2) w" "lview w = lview u" using rel by blast
      then have "bmap_entry sw ip ?d i s = Some (0, w) \<and> txn V {} k w \<and> lview w = lview s"
        using b(1,4) u(1,2) a ld True v dev txn_less [of V "{}" "Suc k + 2" w k] by (simp add: bmap_entry_def q_def)
      then show ?thesis using same [unfolded True] a by blast
    next
      assume a: "a \<noteq> 0 \<and> free_block ?g V a \<and> txn (allocated_block ?g a V) {b} (Suc k) u"
      let ?X = "allocated_block ?g a V" let ?e = "st32 (b_data (bufs u b)) (4 * i) a"
      let ?W = "?X(?d := block_of (st32 (V ?d) (4 * i) a))"
      have "?X ?d = V ?d" using alloc_block(1) [OF ok _ db] a by blast
      then have "block_of (b_data (bufs u b)) = V ?d" using fx.contents [of ?X "{b}" "Suc k" u b] a u(3) by simp
      then have e: "block_of ?e = block_of (st32 (V ?d) (4 * i) a)" by (metis block_of_stn)
      note vu = lview_fields [OF u(2)]
      have "key u b \<in> home u" using db u(3) vu v by (auto simp: home_def data_block_def reserved_def)
      then obtain w where w: "log_write b (upd_buf b (\<lambda>x. x\<lparr>b_data := ?e\<rparr>) u) = Some w" "txn ?W {b} k w" "lview w = lview u"
        using fx.lw [of ?X "{b}" k u b ?e] a u(3) e by auto
      obtain x where x: "brelse b w = Some x" "txn ?W {} k x" "lview x = lview w" using rel [OF w(2)] by blast
      have "upd_buf b (\<lambda>x. x\<lparr>b_data := st32 (b_data x) (4 * i) a\<rparr>) u = upd_buf b (\<lambda>x. x\<lparr>b_data := ?e\<rparr>) u" by (simp add: upd_buf_def)
      then have "bmap_entry sw ip ?d i s = Some (a, x)"
        using b(1) u(1) a ld True v dev w(1) x(1) by (simp add: bmap_entry_def q_def)
      moreover have "mapped ?g ?st V q (NDIRECT + i) ?W q a" by (rule entry_mapped [OF f ok _ i d True]) (use a in blast)
      ultimately show ?thesis using a x(2,3) w(3) u(2) b(4) by auto
    qed
  qed
qed

lemma fs_ok_mapped:
  assumes "fs_ok V k ip s" "mapped (sb s) (log_start s) V (inodes s ip) n W q' a" "lview t = upd_inode ip (\<lambda>_. q') (lview s)" "txn W {} l t"
  shows "fs_ok W l ip t" "inodes t ip = q'"
  using assms lview_inode [OF assms(3)] by (auto simp: fs_ok_def mapped_def)

lemma upd_inode_same: "lview t = upd_inode ip f (lview s) \<Longrightarrow> lview t = upd_inode ip (\<lambda>_. f (inodes s ip)) (lview s)"
  by (simp add: upd_inode_def lview_def brest_def)

lemma bmap_txn:
  assumes s: "fs_ok V (k + 5) ip s" and n: "unat bn < MAXFILE"
  defines "q \<equiv> inodes s ip"
  shows "\<exists>a t W q'. bmap sw ip bn s = Some (a, t) \<and> fs_ok W k ip t \<and> lview t = upd_inode ip (\<lambda>_. q') (lview s) \<and>
    mapped (sb s) (log_start s) V q (unat bn) W q' a \<and> (a = 0 \<longrightarrow> (\<forall>b. \<not> free_block (sb s) W b))"
proof (cases "unat bn < NDIRECT")
  case True
  then obtain a t W where t: "bmap_slot sw ip (unat bn) s = Some (a, t)" "txn W {} (k + 3) t" "lview t = upd_inode ip (set_addr (unat bn) a) (lview s)"
    "mapped (sb s) (log_start s) V q (unat bn) W (set_addr (unat bn) a q) a" "a = 0 \<longrightarrow> (\<forall>b. \<not> free_block (sb s) W b)"
    using bmap_slot_txn [of V "k + 3" ip s "unat bn" "unat bn" sw] s by (auto simp: q_def eval_nat_numeral)
  note v = upd_inode_same [OF t(3), folded q_def]
  have "fs_ok W k ip t" using fs_ok_mapped(1) [OF s t(4) [unfolded q_def] v [unfolded q_def]] txn_less [OF t(2)] by simp
  then show ?thesis using True t(1,4,5) v by (auto simp: bmap_def)
next
  case False
  let ?i = "unat bn - NDIRECT" let ?g = "sb s" let ?st = "log_start s"
  have i: "?i < NINDIRECT" "NDIRECT + ?i = unat bn" using n False by (auto simp: MAXFILE_def)
  obtain a t W where t: "bmap_slot sw ip NDIRECT s = Some (a, t)" "txn W {} (k + 3) t" "lview t = upd_inode ip (set_addr NDIRECT a) (lview s)"
    "mapped ?g ?st V q (unat bn) W (set_addr NDIRECT a q) (baddr V q (unat bn))" "a = i_addrs q NDIRECT \<or> \<not> data_block ?g ?st V a"
    "a = 0 \<longrightarrow> (\<forall>b. \<not> free_block ?g W b)"
    using bmap_slot_txn [of V "k + 3" ip s NDIRECT "unat bn" sw] s by (auto simp: q_def eval_nat_numeral)
  note v = upd_inode_same [OF t(3), folded q_def]
  note ft = fs_ok_mapped [OF s t(4) [unfolded q_def] v [unfolded q_def] t(2), folded q_def]
  have at: "i_addrs (set_addr NDIRECT a q) NDIRECT = a" by (simp add: set_addr_def)
  show ?thesis
  proof (cases "a = 0")
    case True
    have "baddr W (set_addr NDIRECT a q) (unat bn) = 0" using True False by (simp add: baddr_def set_addr_def)
    then have "baddr V q (unat bn) = 0" using t(4) by (simp add: mapped_def)
    moreover have "fs_ok W k ip t" using ft(1) txn_less [OF t(2), of k] by (simp add: fs_ok_def)
    ultimately show ?thesis using True False i t(1,4,6) v by (auto simp: bmap_def)
  next
    case a: False
    have e: "sb t = ?g" "log_start t = ?st" "inodes t ip = set_addr NDIRECT a q" using lview_inode [OF v] ft(2) by simp_all
    obtain b u X where u: "bmap_entry sw ip a ?i t = Some (b, u)" "txn X {} k u" "lview u = lview t"
      "mapped ?g ?st W (set_addr NDIRECT a q) (unat bn) X (set_addr NDIRECT a q) b" "b = 0 \<longrightarrow> (\<forall>b. \<not> free_block ?g X b)"
      using bmap_entry_txn [OF ft(1) i(1), unfolded e at, OF a, of sw] i(2) by auto
    have m: "mapped ?g ?st V q (unat bn) X (set_addr NDIRECT a q) b"
      by (rule mapped_trans [OF t(4) u(4)]) (use t(5) at in auto)
    have "lview u = upd_inode ip (\<lambda>_. set_addr NDIRECT a q) (lview s)" using u(3) v by simp
    then show ?thesis using fs_ok_mapped(1) [OF s m [unfolded q_def] _ u(2)] m a False i t(1) u(1,5)
      by (auto simp: bmap_def q_def)
  qed
qed

lemma bmap_found:
  assumes s: "fs_ok V k ip s" and n: "unat bn < MAXFILE" and a: "baddr V (inodes s ip) (unat bn) \<noteq> 0"
  shows "\<exists>t. bmap sw ip bn s = Some (baddr V (inodes s ip) (unat bn), t) \<and> txn V {} k t \<and> lview t = lview s"
proof (cases "unat bn < NDIRECT")
  case True
  then show ?thesis using s a by (simp add: bmap_def bmap_slot_def Let_def baddr_def fs_ok_def)
next
  case False
  let ?i = "unat bn - NDIRECT" let ?q = "inodes s ip" let ?d = "i_addrs ?q NDIRECT"
  have i: "?i < NINDIRECT" using n False by (auto simp: MAXFILE_def)
  have d: "?d \<noteq> 0" and ba: "baddr V ?q (unat bn) = ld32 (V ?d) (4 * ?i)" using a False n by (auto simp: baddr_def split: if_splits)
  have t: "txn V {} k s" and dev: "i_dev ?q = blk (log_dev s)" using s by (simp_all add: fs_ok_def)
  obtain b t u where b: "bread sw (blk (log_dev s)) ?d s = Some (b, t)" "block_of (b_data (bufs t b)) = V ?d" "lview t = lview s"
    "brelse b t = Some u" "txn V {} k u" "lview u = lview s"
    by (rule fx.read_block [OF t, of ?d sw]) auto
  have "4 * ?i + 4 \<le> BSIZE" using i by (simp add: NINDIRECT_def BSIZE_def)
  then have "ld32 (b_data (bufs t b)) (4 * ?i) = ld32 (V ?d) (4 * ?i)" unfolding b(2) [symmetric] by (simp add: ldn_block_of)
  then show ?thesis using a False i d b(1,4-6) dev ba lview_fs [OF b(3)]
    by (simp add: bmap_def bmap_slot_def bmap_entry_def Let_def)
qed

text \<open>A file of one block.\<close>

lemma file_ex: "file_ok sb_ex 2 disk_ex inode_ex"
proof -
  have b: "baddr disk_ex inode_ex n = (if n = 0 then 50 else 0)" for n by (simp add: baddr_def inode_ex_def NDIRECT_def)
  have r: "IBLOCK i sb_ex \<noteq> 50" if "i < 200" for i
  proof -
    have "unat i div 16 < 13" using that by (simp add: word_less_nat_alt)
    then have "unat (i div 16 + 33) < 50" by (simp add: unat_word_ariths unat_div)
    then show ?thesis by (auto simp: IBLOCK_def sb_ex_def IPB_def BSIZE_def)
  qed
  have "50 \<notin> reserved sb_ex 2"
    using fs_ex_area [of 50] r BBLOCK_ex by (auto simp: reserved_def sb_ex_def [THEN arg_cong [of _ _ sb_size]] sb_ex_def [THEN arg_cong [of _ _ sb_ninodes]])
  then have "data_block sb_ex 2 disk_ex 50" using in_use_ex [of 50] by (simp add: data_block_def sb_ex_def [THEN arg_cong [of _ _ sb_size]])
  then show ?thesis by (simp add: file_ok_def b) (simp add: inode_ex_def NDIRECT_def)
qed

section \<open>Properties\<close>

text \<open>
  C16: allocating and freeing disk blocks. In a transaction \<open>balloc\<close> returns; the result is 0 just when every
  block is in use. Otherwise it is the number of a block that was free and belongs neither to the
  log nor to the inodes nor to the bitmap; this block is now zeroed and in use, no other block is
  marked differently, and no block but it and its bitmap block has changed. \<open>bfree\<close> then gives it
  back: the same blocks are in use as before, and freeing it again panics.
\<close>

theorem balloc_bfree:
  assumes "txn V {} (k + 3) s" "bitmap_ok (sb s) (log_start s) V" "dev = blk (log_dev s)" "L_pr \<notin> set (held s)"
  shows "\<exists>a t. balloc sw dev s = Some (a, t) \<and> lview t = lview s \<and>
    (if a = 0 then (\<forall>b < sb_size (sb s). in_use (sb s) V b) \<and> txn V {} (k + 3) t
     else a < sb_size (sb s) \<and> \<not> in_use (sb s) V a \<and> a \<notin> reserved (sb s) (log_start s) \<and>
       (\<exists>W u X. txn W {} (k + 1) t \<and> bitmap_ok (sb s) (log_start s) W \<and> W a = (\<lambda>_. 0) \<and>
          (\<forall>b < sb_size (sb s). in_use (sb s) W b \<longleftrightarrow> in_use (sb s) V b \<or> b = a) \<and>
          (\<forall>m. m \<noteq> a \<and> m \<noteq> BBLOCK a (sb s) \<longrightarrow> W m = V m) \<and>
          bfree sw dev a t = Some u \<and> txn X {} k u \<and> lview u = lview s \<and>
          (\<forall>b < sb_size (sb s). in_use (sb s) X b \<longleftrightarrow> in_use (sb s) V b) \<and>
          (\<forall>m. m \<noteq> BBLOCK a (sb s) \<longrightarrow> X m = W m) \<and> bfree sw dev a u = None))"
proof -
  let ?g = "sb s" let ?st = "log_start s"
  have "txn V {} (Suc k + 2) s" using assms(1) by (simp add: eval_nat_numeral)
  from balloc_txn [OF this _ _ assms(2-4), of sw] obtain a t where t: "balloc sw dev s = Some (a, t)" "lview t = lview s"
    "a = 0 \<and> (\<forall>b. \<not> free_block ?g V b) \<and> txn V {} (Suc k + 2) t \<or>
     a \<noteq> 0 \<and> free_block ?g V a \<and> txn (allocated_block ?g a V) {} (Suc k) t" by auto
  note e = lview_fs(1) [OF t(2)] lview_fields [OF t(2)]
  from t(3) show ?thesis
  proof
    assume "a = 0 \<and> (\<forall>b. \<not> free_block ?g V b) \<and> txn V {} (Suc k + 2) t"
    then show ?thesis using t(1,2) by (auto simp: free_block_def eval_nat_numeral)
  next
    assume a: "a \<noteq> 0 \<and> free_block ?g V a \<and> txn (allocated_block ?g a V) {} (Suc k) t"
    let ?W = "allocated_block ?g a V" let ?X = "mark ?g False a ?W"
    note al = alloc_block [OF assms(2), of a]
    have as: "a < sb_size ?g" "\<not> in_use ?g V a" using a by (simp_all add: free_block_def)
    have r: "a \<notin> reserved ?g ?st" using free_not_reserved [OF assms(2)] a by blast
    have "BBLOCK a ?g \<in> home t" using assms(2) as e by (simp add: bitmap_ok_def home_def)
    moreover have "in_use ?g ?W a" using al(3) a as by blast
    ultimately obtain u where u: "bfree sw dev a t = Some u" "txn ?X {} k u" "lview u = lview t"
      using bfree_txn [of ?W "{}" k t a dev sw] a e assms(3) by auto
    have X: "in_use ?g ?X b \<longleftrightarrow> in_use ?g V b" if "b < sb_size ?g" for b
      using al(3) [OF _ that] a as by (auto simp: in_use_mark)
    have "bfree sw dev a u = None"
      using bfree_free [OF u(2), of a dev sw] X [OF as(1)] as(2) lview_fs(1) [OF u(3)] lview_fields(2) [OF u(3)] e assms(3) by simp
    moreover have "?W m = V m" if "m \<noteq> a \<and> m \<noteq> BBLOCK a ?g" for m using that by (simp add: allocated_block_def mark_def)
    moreover have "?X m = ?W m" if "m \<noteq> BBLOCK a ?g" for m using that by (simp add: mark_def)
    moreover have "bitmap_ok ?g ?st ?W" "?W a = (\<lambda>_. 0)" "\<forall>b < sb_size ?g. in_use ?g ?W b \<longleftrightarrow> in_use ?g V b \<or> b = a"
      using al a by blast+
    moreover have "txn ?W {} (k + 1) t" "a \<noteq> 0" "lview u = lview s" using a t(2) u(3) by simp_all
    ultimately show ?thesis using t(1,2) as r u(1,2) X
      by (intro exI [of _ a] exI [of _ t]) (simp only: if_False, blast)
  qed
qed

theorem balloc_bfree_witness:
  "\<exists>(s :: fsst) a t u. binit (fs_ex disk_ex inode_ex) = Some s \<and> balloc Some 1 s = Some (a, t) \<and> 56 \<le> a \<and> a < 2000 \<and>
     bfree Some 1 a t = Some u \<and> bfree Some 1 a u = None"
proof -
  obtain s where s: "binit (fs_ex disk_ex inode_ex) = Some s" "txn disk_ex {} (17 + 3) s" "sb s = sb_ex"
    "log_start s = 2" "log_dev s = 1" "held s = []"
    by (rule fs_ex_boot [OF disk_ex_block, where q = inode_ex]) simp
  have h: "bitmap_ok (sb s) (log_start s) disk_ex" "1 = blk (log_dev s)" "L_pr \<notin> set (held s)"
    using bitmap_ex s(3-6) by (simp_all add: blk_def)
  have z: "sb_size sb_ex = 2000" by (simp add: sb_ex_def)
  have "\<not> in_use sb_ex disk_ex 100" by (simp add: in_use_ex)
  moreover obtain a t where t: "balloc Some 1 s = Some (a, t)"
    "if a = 0 then (\<forall>b < 2000. in_use sb_ex disk_ex b)
     else a < 2000 \<and> \<not> in_use sb_ex disk_ex a \<and> (\<exists>u. bfree Some 1 a t = Some u \<and> bfree Some 1 a u = None)"
    using balloc_bfree [OF s(2) h, of Some] unfolding s(3) z by (elim exE conjE) (rule that, assumption, auto split: if_splits)
  ultimately have "a \<noteq> 0" by (auto split: if_splits)
  then show ?thesis using s(1) t in_use_ex [of a] by (auto simp: not_less)
qed

text \<open>
  C17: \<open>bmap\<close> returns the address of a block of a file. Beyond the largest file it panics. An address already
  there is returned; otherwise a block is allocated, with the indirect block if need be, and the
  result is 0 only if the disk is full. The file reads as before and its other blocks have the addresses they had;
  no data block on the disk but its indirect block changes; and no other inode changes.
\<close>

theorem bmap_maps:
  assumes "fs_ok V (k + 5) ip s"
  shows "if MAXFILE \<le> unat bn then bmap sw ip bn s = None
    else \<exists>a t W. bmap sw ip bn s = Some (a, t) \<and> fs_ok W k ip t \<and>
      (\<forall>n. baddr W (inodes t ip) n = (if n = unat bn then a else baddr V (inodes s ip) n)) \<and>
      (baddr V (inodes s ip) (unat bn) \<noteq> 0 \<longrightarrow> a = baddr V (inodes s ip) (unat bn)) \<and>
      (a = 0 \<longrightarrow> (\<forall>b < sb_size (sb s). in_use (sb s) W b)) \<and>
      (\<forall>x. fbyte W (inodes t ip) x = fbyte V (inodes s ip) x) \<and>
      (\<exists>f. inodes t = (inodes s)(ip := (inodes s ip)\<lparr>i_addrs := f\<rparr>)) \<and>
      (\<forall>m. data_block (sb s) (log_start s) V m \<longrightarrow> data_block (sb s) (log_start s) W m \<and>
        (m \<noteq> i_addrs (inodes s ip) NDIRECT \<longrightarrow> W m = V m))"
proof (cases "unat bn < MAXFILE")
  case False
  then show ?thesis by (auto simp: bmap_def MAXFILE_def NDIRECT_def NINDIRECT_def BSIZE_def)
next
  case True
  let ?q = "inodes s ip"
  obtain a t W q' where t: "bmap sw ip bn s = Some (a, t)" "fs_ok W k ip t" "lview t = upd_inode ip (\<lambda>_. q') (lview s)"
    "mapped (sb s) (log_start s) V ?q (unat bn) W q' a" "a = 0 \<longrightarrow> (\<forall>b. \<not> free_block (sb s) W b)"
    using bmap_txn [OF assms True, of sw] by blast
  have i: "inodes t = (inodes s)(ip := q')" using lview_inode(1) [OF t(3)] by simp
  obtain f where "q' = ?q\<lparr>i_addrs := f\<rparr>" using t(4) by (auto simp: mapped_def)
  then have "\<exists>f. inodes t = (inodes s)(ip := ?q\<lparr>i_addrs := f\<rparr>)" using i by blast
  moreover have "a = 0 \<longrightarrow> (\<forall>b < sb_size (sb s). in_use (sb s) W b)" using t(5) by (auto simp: free_block_def)
  moreover have "inodes t ip = q'" using i by simp
  ultimately show ?thesis using True t(1,2,4) unfolding mapped_def by auto
qed

theorem bmap_maps_witness:
  "\<exists>(s :: fsst) t a u. binit (fs_ex disk_ex inode_ex) = Some s \<and> bmap Some 0 0 s = Some (50, t) \<and>
     bmap Some 0 3 s = Some (a, u) \<and> i_addrs (inodes u 0) 3 = a \<and> i_addrs (inodes u 0) 0 = 50"
proof -
  obtain s where s: "binit (fs_ex disk_ex inode_ex) = Some s" "txn disk_ex {} (15 + 5) s" "sb s = sb_ex" "inodes s = (\<lambda>_. inode_ex)"
    "log_start s = 2" "log_dev s = 1" "held s = []"
    by (rule fs_ex_boot [OF disk_ex_block, where q = inode_ex]) simp
  have f: "fs_ok disk_ex (15 + 5) 0 s"
    unfolding fs_ok_def using s bitmap_ex file_ex by (simp add: inode_ex_def [THEN arg_cong [of _ _ i_dev]] blk_def)
  have b: "baddr V q n = i_addrs q n" if "n < 12" for V q n using that by (simp add: baddr_def NDIRECT_def)
  have m: "\<not> MAXFILE \<le> unat (0 :: uint32)" "\<not> MAXFILE \<le> unat (3 :: uint32)" by (simp_all add: MAXFILE_def NDIRECT_def)
  obtain t where "bmap Some 0 0 s = Some (50, t)"
    using bmap_maps [OF f, of 0 Some] unfolding s(4) if_not_P [OF m(1)] by (auto simp: b inode_ex_def)
  moreover obtain a u where u: "bmap Some 0 3 s = Some (a, u)" "i_addrs (inodes u 0) 3 = a" "i_addrs (inodes u 0) 0 = 50"
  proof -
    obtain a u W where u: "bmap Some 0 3 s = Some (a, u)"
      "\<forall>n. baddr W (inodes u 0) n = (if n = unat (3 :: uint32) then a else baddr disk_ex inode_ex n)"
      using bmap_maps [OF f, of 3 Some] unfolding s(4) if_not_P [OF m(2)] by (elim exE conjE) (rule that)
    show thesis using that [OF u(1)] u(2) [THEN spec, of 3] u(2) [THEN spec, of 0] by (simp add: b inode_ex_def)
  qed
  ultimately show ?thesis using s(1) by blast
qed

end
