(* ===== verification/Fileio.thy ===== *)
theory Fileio
  imports Filemap
begin

text \<open>
  Reading and writing files, \<^verbatim>\<open>kernel/fs.c\<close>: \<open>readi\<close> delivers the bytes of the file, and \<open>writei\<close> changes just the
  bytes it is given, growing the file as needed.
\<close>

section \<open>Pieces of a transfer\<close>

text \<open>The part of a transfer of \<open>r\<close> bytes at offset \<open>x\<close> that lies in the first block.\<close>

definition piece :: "nat \<Rightarrow> nat \<Rightarrow> nat" where
  "piece x r = min r (BSIZE - x mod BSIZE)"

lemma piece_bounds: "0 < r \<Longrightarrow> 0 < piece x r" "piece x r \<le> r" "piece x r \<le> BSIZE" "x mod BSIZE + piece x r \<le> BSIZE"
  by (auto simp: piece_def BSIZE_def)

lemma piece_word:
  assumes "tot < n" "unat off + (unat n - unat tot) < 2 ^ 32"
  defines "m \<equiv> min (n - tot) (bsize32 - off mod bsize32)"
  shows "unat m = piece (unat off) (unat n - unat tot)" "unat (off + m) = unat off + piece (unat off) (unat n - unat tot)"
    "unat (tot + m) = unat tot + piece (unat off) (unat n - unat tot)" "tot + m \<le> n" "unat (off mod bsize32) = unat off mod BSIZE"
    "unat (off div bsize32) = unat off div BSIZE"
proof -
  have le: "unat tot \<le> unat n" using assms(1) by (simp add: word_less_nat_alt)
  have b: "unat bsize32 = 1024" by (simp add: bsize32_def BSIZE_def)
  show md: "unat (off mod bsize32) = unat off mod BSIZE" "unat (off div bsize32) = unat off div BSIZE" by (simp_all add: unat_mod unat_div b BSIZE_def)
  have "off mod bsize32 \<le> bsize32" using md(1) b by (simp add: word_le_nat_alt BSIZE_def)
  then have "unat (bsize32 - off mod bsize32) = 1024 - unat off mod 1024" using md b by (simp add: unat_sub BSIZE_def)
  moreover have "unat (n - tot) = unat n - unat tot" using assms(1) by (simp add: unat_sub less_imp_le)
  ultimately show m: "unat m = piece (unat off) (unat n - unat tot)" unfolding m_def piece_def min_def by (simp add: word_le_nat_alt BSIZE_def)
  have "piece (unat off) (unat n - unat tot) \<le> unat n - unat tot" by (rule piece_bounds)
  moreover have "unat n < 2 ^ 32" using unsigned_less [where 'a = nat, of n] by simp
  ultimately show "unat (off + m) = unat off + piece (unat off) (unat n - unat tot)" "unat (tot + m) = unat tot + piece (unat off) (unat n - unat tot)"
    using assms(2) le m by (simp_all add: unat_word_ariths)
  then show "tot + m \<le> n" using le piece_bounds(2) [of "unat off" "unat n - unat tot"] by (simp add: word_le_nat_alt)
qed

lemma unat_ucast64: "unat (ucast (m :: uint32) :: uint64) = unat m"
proof -
  have "unat m < 2 ^ 64" using unsigned_less [where 'a = nat, of m] by simp
  then show ?thesis by (simp add: unsigned_ucast_eq take_bit_nat_eq_self)
qed

lemma blit_cong:
  assumes "\<And>i. i < p \<Longrightarrow> f (x + i) = g (y + i)"
  shows "blit k j f x p = blit k j g y p"
proof
  fix z
  show "blit k j f x p z = blit k j g y p z" using assms [of "z - j"] by (cases "j \<le> z \<and> z < j + p") (auto simp: blit_def)
qed

lemma blit_0 [simp]: "blit k j f x 0 = k"
  by (auto simp: blit_def fun_eq_iff)

lemma blit_blit: "blit (blit k d f x m) (d + m) f (x + m) r = blit k d f x (m + r)"
  by (auto simp: blit_def fun_eq_iff)

section \<open>Reading\<close>

definition present :: "(uint32 \<Rightarrow> bytes) \<Rightarrow> inode \<Rightarrow> nat \<Rightarrow> bool" where
  "present V q e \<longleftrightarrow> e \<le> MAXFILE * BSIZE \<and> (\<forall>n. n * BSIZE < e \<longrightarrow> baddr V q n \<noteq> 0)"

lemma present_block: "present V q e \<Longrightarrow> x < e \<Longrightarrow> baddr V q (x div BSIZE) \<noteq> 0 \<and> x div BSIZE < MAXFILE"
proof -
  assume p: "present V q e" "x < e"
  have "x div BSIZE * BSIZE \<le> x" by simp
  then have "x div BSIZE * BSIZE < e" using p(2) by linarith
  moreover have "x < MAXFILE * BSIZE" using p by (simp add: present_def)
  then have "x div BSIZE < MAXFILE" by (simp add: less_mult_imp_div_less)
  ultimately show ?thesis using p(1) by (simp add: present_def)
qed

lemma fs_ok_view: "fs_ok V k ip s \<Longrightarrow> txn V {} l t \<Longrightarrow> lview t = lview s \<Longrightarrow> fs_ok V l ip t"
  using lview_fs [of t s] lview_fields [of t s] by (simp add: fs_ok_def)

lemma fbyte_block:
  assumes "x mod BSIZE + i < BSIZE" "baddr V q (x div BSIZE) \<noteq> 0"
  shows "fbyte V q (x + i) = V (baddr V q (x div BSIZE)) (x mod BSIZE + i)"
proof -
  have "x + i = x div BSIZE * BSIZE + (x mod BSIZE + i)" by simp
  then have "(x + i) div BSIZE = x div BSIZE" "(x + i) mod BSIZE = x mod BSIZE + i"
    using assms(1) by (metis div_mult_self3 div_less add_0_right less_nat_zero_code, metis mod_mult_self3 mod_less)
  then show ?thesis using assms(2) by (simp add: fbyte_def)
qed

lemma blit_block:
  assumes "block_of d = V (baddr V q (x div BSIZE))" "baddr V q (x div BSIZE) \<noteq> 0" "x mod BSIZE + p \<le> BSIZE"
  shows "blit k j d (x mod BSIZE) p = blit k j (fbyte V q) x p"
proof -
  have "fbyte V q (x + i) = d (x mod BSIZE + i)" if "i < p" for i
    using fbyte_block [of x i V q] assms that unfolding assms(1) [symmetric] by (simp add: block_of_def)
  then show ?thesis by (intro blit_cong) simp
qed

lemma readi_loop_reads:
  assumes "fs_ok V k ip s" "present V (inodes s ip) (unat off + (unat n - unat tot))" "tot \<le> n" "unat dst + (unat n - unat tot) < 2 ^ 64"
  shows "\<exists>t. readi_loop sw ip False dst kbuf off n tot s =
      Some (n, blit kbuf (unat dst) (fbyte V (inodes s ip)) (unat off) (unat n - unat tot), t) \<and> fs_ok V k ip t \<and> lview t = lview s"
  using assms
proof (induction "unat n - unat tot" arbitrary: tot off dst kbuf s rule: less_induct)
  case (less tot off dst kbuf s)
  show ?case
  proof (cases "tot < n")
    case False
    then have "tot = n" using less.prems(3) by simp
    then show ?thesis using less.prems(1) by (subst readi_loop.simps) simp
  next
    case True
    let ?r = "unat n - unat tot" let ?q = "inodes s ip" let ?m = "min (n - tot) (bsize32 - off mod bsize32)" let ?p = "piece (unat off) ?r"
    have r: "0 < ?r" using True by (simp add: word_less_nat_alt)
    have "unat off + ?r < 2 ^ 32" using less.prems(2) by (simp add: present_def MAXFILE_def NDIRECT_def NINDIRECT_def BSIZE_def)
    note w = piece_word [OF True this]
    have p: "0 < ?p" "?p \<le> ?r" using piece_bounds r by auto
    let ?b = "unat off div BSIZE" let ?a = "baddr V ?q ?b"
    have a: "?a \<noteq> 0" "?b < MAXFILE" using present_block [OF less.prems(2), of "unat off"] r by auto
    obtain t where t: "bmap sw ip (off div bsize32) s = Some (?a, t)" "txn V {} k t" "lview t = lview s"
      using bmap_found [OF less.prems(1), of "off div bsize32" sw] a w(6) by auto
    have dev: "i_dev ?q = blk (log_dev s)" using less.prems(1) by (simp add: fs_ok_def)
    obtain b u x where b: "bread sw (blk (log_dev t)) ?a t = Some (b, u)" "block_of (b_data (bufs u b)) = V ?a" "lview u = lview t"
      "brelse b u = Some x" "txn V {} k x" "lview x = lview t"
      by (rule fx.read_block [OF t(2), of ?a sw]) auto
    have v: "inodes t = inodes s" "log_dev t = log_dev s" using lview_fs [OF t(3)] lview_fields [OF t(3)] by simp_all
    let ?k = "blit kbuf (unat dst) (fbyte V ?q) (unat off) ?p"
    have cp: "either_copyout False dst kbuf (b_data (bufs u b)) (unat (off mod bsize32)) (ucast ?m) u = Some (0, ?k, u)"
      using blit_block [OF b(2) a(1) piece_bounds(4), of kbuf "unat dst" ?r] w(1,5) by (simp add: either_copyout_def unat_ucast64)
    have x: "fs_ok V k ip x" "lview x = lview s" "inodes x = inodes s"
      using fs_ok_view [OF less.prems(1) b(5)] b(6) t(3) lview_fs [of x s] by simp_all
    have step: "readi_loop sw ip False dst kbuf off n tot s = readi_loop sw ip False (dst + ucast ?m) ?k (off + ?m) n (tot + ?m) x"
      using True t(1) a(1) b(1,4) cp v dev by (subst readi_loop.simps) (simp add: Let_def)
    have n: "unat n - unat (tot + ?m) = ?r - ?p" "unat (off + ?m) + (?r - ?p) = unat off + ?r" using w(2,3) p by simp_all
    have d: "unat (dst + ucast ?m) = unat dst + ?p"
      using less.prems(4) p w(1) by (simp add: unat_word_ariths unat_ucast64)
    have lt: "?r - ?p < ?r" using p by linarith
    have pr: "present V ?q (unat off + ?p + (?r - ?p))" and dl: "unat dst + ?p + (?r - ?p) < 2 ^ 64" using less.prems(2,4) p by simp_all
    obtain y where "readi_loop sw ip False (dst + ucast ?m) ?k (off + ?m) n (tot + ?m) x =
        Some (n, blit ?k (unat dst + ?p) (fbyte V ?q) (unat off + ?p) (?r - ?p), y)" "fs_ok V k ip y" "lview y = lview x"
      using less.hyps [of "tot + ?m" x "off + ?m" "dst + ucast ?m" ?k, unfolded n(1) x(3) d w(2), OF lt x(1) pr w(4) dl] by blast
    then show ?thesis using step x(2) p by (simp add: blit_blit)
  qed
qed

lemma sint_unat: "unat (w :: uint32) < 2 ^ 31 \<Longrightarrow> sint w = int (unat w)"
proof -
  assume w: "unat w < 2 ^ 31"
  have u: "uint w = int (unat w)" by simp
  have "uint w < 2 ^ 31" unfolding u using w by (simp only: of_nat_less_iff [where 'a = int, symmetric]) simp
  then have "sint w = uint w" by (simp only: sint_uint) (rule signed_take_bit_int_eq_self, auto intro: order_trans [of _ 0])
  then show ?thesis by simp
qed

lemma readi_reads:
  fixes off :: uint32
  assumes s: "fs_ok V k ip s" and sz: "present V (inodes s ip) (unat (i_size (inodes s ip)))" and d: "unat dst + unat n < 2 ^ 64"
  defines "c \<equiv> min (unat n) (unat (i_size (inodes s ip)) - unat off)"
  shows "if unat (i_size (inodes s ip)) < unat off \<or> 2 ^ 32 \<le> unat off + unat n then readi sw ip False dst kbuf off n s = Some (0, kbuf, s)
    else \<exists>t. readi sw ip False dst kbuf off n s = Some (int c, blit kbuf (unat dst) (fbyte V (inodes s ip)) (unat off) c, t) \<and>
      fs_ok V k ip t \<and> lview t = lview s"
proof -
  let ?q = "inodes s ip" let ?z = "unat (i_size ?q)"
  have z: "?z \<le> MAXFILE * BSIZE" using sz by (simp add: present_def)
  have wrap: "off + n < off \<longleftrightarrow> 2 ^ 32 \<le> unat off + unat n"
    using unsigned_less [where 'a = nat, of off] unsigned_less [where 'a = nat, of n] by (auto simp: word_less_nat_alt unat_word_ariths mod_if)
  show ?thesis
  proof (cases "?z < unat off \<or> 2 ^ 32 \<le> unat off + unat n")
    case True
    then show ?thesis using wrap by (auto simp: readi_def Let_def word_less_nat_alt)
  next
    case False
    let ?n = "if off + n > i_size ?q then i_size ?q - off else n"
    have "unat (off + n) = unat off + unat n" using False by (simp add: unat_word_ariths)
    moreover have "unat (i_size ?q - off) = ?z - unat off" using False by (simp add: unat_sub word_le_nat_alt)
    ultimately have c: "unat ?n = c" using False by (auto simp: c_def word_less_nat_alt)
    have "present V ?q (unat off + c)" using sz False by (auto simp: present_def c_def)
    moreover have "unat dst + c < 2 ^ 64" using d by (simp add: c_def)
    ultimately obtain t where t: "readi_loop sw ip False dst kbuf off ?n 0 s = Some (?n, blit kbuf (unat dst) (fbyte V ?q) (unat off) c, t)"
      "fs_ok V k ip t" "lview t = lview s"
      using readi_loop_reads [OF s, of off ?n 0 dst sw kbuf] c by auto
    have "c < 2 ^ 31" using z by (simp add: c_def MAXFILE_def NDIRECT_def NINDIRECT_def BSIZE_def)
    then have "sint ?n = int c" using c using sint_unat [of ?n] by simp
    then show ?thesis using False wrap t by (auto simp: readi_def Let_def word_less_nat_alt)
  qed
qed

section \<open>Writing\<close>

lemma same_block:
  assumes "x \<le> z" "z < x + p" "x mod BSIZE + p \<le> BSIZE"
  shows "z div BSIZE = x div BSIZE"
proof -
  have "z < Suc (x div BSIZE) * BSIZE" unfolding mult_Suc using assms(2,3) div_mult_mod_eq [of x BSIZE] by linarith
  then show ?thesis using div_le_mono [OF assms(1), of BSIZE] less_mult_imp_div_less [of z "Suc (x div BSIZE)" BSIZE] by linarith
qed

lemma block_of_blit: "block_of (blit (block_of d) j f y p) = block_of (blit d j f y p)"
  by (auto simp: block_of_def blit_def fun_eq_iff)

lemma write_data:
  fixes h :: bytes and y :: nat
  assumes f: "file_ok g st V q" and ok: "bitmap_ok g st V" and a: "baddr V q (x div BSIZE) = a" "a \<noteq> 0" and p: "x mod BSIZE + p \<le> BSIZE"
  defines "W \<equiv> V(a := block_of (blit (V a) (x mod BSIZE) h y p))"
  shows "file_ok g st W q" "bitmap_ok g st W" "baddr W q = baddr V q" "fbyte W q = blit (fbyte V q) x h y p" "data_block g st W = data_block g st V"
proof -
  note fD = file_okD [OF f]
  have d: "data_block g st V a" "a \<noteq> i_addrs q NDIRECT" using fD(1,2) [of "x div BSIZE"] a by auto
  note w = write_block [OF d(1), where d = "block_of (blit (V a) (x mod BSIZE) h y p)", folded W_def]
  show b: "baddr W q = baddr V q" using d(2) by (auto simp: baddr_def W_def fun_eq_iff)
  show "bitmap_ok g st W" using ok w(2) by simp
  show db: "data_block g st W = data_block g st V" using w(3) by (simp add: fun_eq_iff)
  show "file_ok g st W q" using f by (simp only: file_ok_def b db)
  have Wa: "W a i = blit (V a) (x mod BSIZE) h y p i" if "i < BSIZE" for i using that by (simp add: W_def block_of_def)
  have Wo: "W m = V m" if "m \<noteq> a" for m using that by (simp add: W_def)
  show "fbyte W q = blit (fbyte V q) x h y p"
  proof
    fix z
    have x: "x = x div BSIZE * BSIZE + x mod BSIZE" and z: "z = z div BSIZE * BSIZE + z mod BSIZE" by simp_all
    show "fbyte W q z = blit (fbyte V q) x h y p z"
    proof (cases "z div BSIZE = x div BSIZE")
      case True
      have "x \<le> z \<longleftrightarrow> x mod BSIZE \<le> z mod BSIZE" "z < x + p \<longleftrightarrow> z mod BSIZE < x mod BSIZE + p" "z - x = z mod BSIZE - x mod BSIZE"
        using x z unfolding True by linarith+
      moreover have "z mod BSIZE < BSIZE" by (simp add: BSIZE_def)
      ultimately show ?thesis using a by (simp add: fbyte_def b True Wa blit_def Let_def)
    next
      case False
      have "\<not> (x \<le> z \<and> z < x + p)" using same_block [of x z p] p False by blast
      moreover have "baddr V q (z div BSIZE) \<noteq> a" using fD(4) [of "z div BSIZE" "x div BSIZE"] a False by auto
      ultimately show ?thesis using Wo by (auto simp: fbyte_def b blit_def Let_def)
    qed
  qed
qed

text \<open>
  What a file is after \<open>c\<close> bytes have been written at \<open>x\<close>: it reads as before but for these bytes, its
  blocks are kept, none is missing where bytes were written, and the data blocks of other files are not touched.
\<close>

definition wrote :: "superblock \<Rightarrow> int \<Rightarrow> (uint32 \<Rightarrow> bytes) \<Rightarrow> inode \<Rightarrow> (uint32 \<Rightarrow> bytes) \<Rightarrow> inode \<Rightarrow> nat \<Rightarrow> bytes \<Rightarrow> nat \<Rightarrow> nat \<Rightarrow> bool" where
  "wrote g st V q W q' x f y c \<longleftrightarrow> file_ok g st W q' \<and> bitmap_ok g st W \<and> (\<exists>h. q' = q\<lparr>i_addrs := h\<rparr>) \<and>
     fbyte W q' = blit (fbyte V q) x f y c \<and> (\<forall>n. baddr V q n \<noteq> 0 \<longrightarrow> baddr W q' n = baddr V q n) \<and>
     (\<forall>z. x \<le> z \<and> z < x + c \<longrightarrow> baddr W q' (z div BSIZE) \<noteq> 0) \<and>
     (\<forall>m. data_block g st V m \<longrightarrow> data_block g st W m \<and> (m \<notin> fblocks V q \<longrightarrow> W m = V m \<and> m \<notin> fblocks W q'))"

lemma mapped_wrote_0: "mapped g st V q n W q' a \<Longrightarrow> wrote g st V q W q' x f y 0"
  unfolding wrote_def mapped_def by (auto simp: fblocks_def fun_eq_iff)

lemma wrote_same: "file_ok g st V q \<Longrightarrow> bitmap_ok g st V \<Longrightarrow> wrote g st V q V q x f y 0"
  by (rule mapped_wrote_0 [OF mapped_same])

lemma wrote_piece:
  assumes m: "mapped g st V q (x div BSIZE) W q' a" and a: "a \<noteq> 0" and p: "x mod BSIZE + p \<le> BSIZE"
  shows "wrote g st V q (W(a := block_of (blit (W a) (x mod BSIZE) f y p))) q' x f y p"
proof -
  let ?X = "W(a := block_of (blit (W a) (x mod BSIZE) f y p))"
  have w: "wrote g st V q W q' x f y 0" by (rule mapped_wrote_0 [OF m])
  have b: "baddr W q' (x div BSIZE) = a" and f: "file_ok g st W q'" "bitmap_ok g st W" using m by (simp_all add: mapped_def)
  note d = write_data [OF f b a p, of f y]
  have "a \<in> fblocks W q'" using b by (auto simp: fblocks_def)
  then have "data_block g st ?X m \<and> (m \<notin> fblocks V q \<longrightarrow> ?X m = V m \<and> m \<notin> fblocks ?X q')" if "data_block g st V m" for m
    using w that unfolding d(5) by (auto simp: wrote_def fblocks_def d(3))
  moreover have "baddr ?X q' (z div BSIZE) \<noteq> 0" if "x \<le> z" "z < x + p" for z
  proof -
    have "z div BSIZE = x div BSIZE" by (rule same_block [OF that p])
    then show ?thesis using a b by (simp add: d(3))
  qed
  ultimately show ?thesis using w d(1-4) by (simp add: wrote_def)
qed

lemma wrote_trans:
  assumes "wrote g st V q W q' x f y c" "wrote g st W q' X q'' (x + c) f (y + c) d"
  shows "wrote g st V q X q'' x f y (c + d)"
proof -
  have "baddr X q'' (z div BSIZE) \<noteq> 0" if "x \<le> z" "z < x + (c + d)" for z
    using that assms unfolding wrote_def by (cases "z < x + c") auto
  moreover have "fbyte X q'' = blit (fbyte V q) x f y (c + d)" using assms by (simp add: wrote_def blit_blit)
  moreover have "baddr X q'' n = baddr V q n" if "baddr V q n \<noteq> 0" for n using that assms by (simp add: wrote_def)
  moreover have "data_block g st X m \<and> (m \<notin> fblocks V q \<longrightarrow> X m = V m \<and> m \<notin> fblocks X q'')" if "data_block g st V m" for m
    using that assms unfolding wrote_def by metis
  moreover obtain h i where "q' = q\<lparr>i_addrs := h\<rparr>" "q'' = q'\<lparr>i_addrs := i\<rparr>" using assms unfolding wrote_def by blast
  then have "q'' = q\<lparr>i_addrs := i\<rparr>" by simp
  ultimately show ?thesis using assms(2) unfolding wrote_def by blast
qed

text \<open>The number of blocks that a transfer touches.\<close>

definition pieces :: "nat \<Rightarrow> nat \<Rightarrow> nat" where
  "pieces x r = (if r = 0 then 0 else (x mod BSIZE + r + (BSIZE - 1)) div BSIZE)"

lemma pieces_step:
  assumes "0 < r"
  shows "pieces x r = Suc (pieces (x + piece x r) (r - piece x r))"
proof -
  have m: "x mod 1024 < 1024" by simp
  show ?thesis
  proof (cases "r \<le> 1024 - x mod 1024")
    case True
    then have "(x mod 1024 + r + 1023) div 1024 = 1" using assms m by linarith
    then show ?thesis using True assms by (simp add: pieces_def piece_def BSIZE_def)
  next
    case False
    have "x + (1024 - x mod 1024) = Suc (x div 1024) * 1024" unfolding mult_Suc using m div_mult_mod_eq [of x 1024] by linarith
    then have "(x + (1024 - x mod 1024)) mod 1024 = 0" by simp
    moreover have "(x mod 1024 + r + 1023) div 1024 = Suc ((r - (1024 - x mod 1024) + 1023) div 1024)" using False m by linarith
    moreover have "\<not> r + x mod 1024 \<le> 1024" using False by linarith
    ultimately show ?thesis using False assms by (simp add: pieces_def piece_def BSIZE_def)
  qed
qed

lemma writei_loop_writes:
  assumes "fs_ok V (k + 6 * pieces (unat off) (unat n - unat tot)) ip s" "tot \<le> n"
    "unat off + (unat n - unat tot) \<le> MAXFILE * BSIZE" "unat src + (unat n - unat tot) < 2 ^ 64"
  shows "\<exists>c t W q'. writei_loop sw ip False src kbuf off n tot s = Some (tot + of_nat c, off + of_nat c, t) \<and>
    c \<le> unat n - unat tot \<and> fs_ok W k ip t \<and> lview t = upd_inode ip (\<lambda>_. q') (lview s) \<and>
    wrote (sb s) (log_start s) V (inodes s ip) W q' (unat off) kbuf (unat src) c \<and>
    (c < unat n - unat tot \<longrightarrow> (\<forall>b. \<not> free_block (sb s) W b))"
  using assms
proof (induction "unat n - unat tot" arbitrary: tot off src V s rule: less_induct)
  case (less tot off src V s)
  let ?q = "inodes s ip" let ?g = "sb s" let ?st = "log_start s"
  have fo: "file_ok ?g ?st V ?q" "bitmap_ok ?g ?st V" "i_dev ?q = blk (log_dev s)" using less.prems(1) by (simp_all add: fs_ok_def)
  show ?case
  proof (cases "tot < n")
    case False
    then have "tot = n" using less.prems(2) by simp
    moreover have "lview s = upd_inode ip (\<lambda>_. ?q) (lview s)" by (simp add: upd_inode_def lview_def brest_def)
    ultimately show ?thesis using less.prems(1) wrote_same [OF fo(1,2)]
      by (subst writei_loop.simps) (intro exI [of _ 0] exI [of _ s] exI [of _ V] exI [of _ ?q], simp add: pieces_def)
  next
    case True
    let ?r = "unat n - unat tot" let ?m = "min (n - tot) (bsize32 - off mod bsize32)" let ?p = "piece (unat off) ?r" let ?b = "unat off div BSIZE"
    have r: "0 < ?r" using True by (simp add: word_less_nat_alt)
    have "unat off + ?r < 2 ^ 32" using less.prems(3) by (simp add: MAXFILE_def NDIRECT_def NINDIRECT_def BSIZE_def)
    note w = piece_word [OF True this]
    have p: "0 < ?p" "?p \<le> ?r" using piece_bounds r by auto
    let ?K = "k + 6 * pieces (unat off + ?p) (?r - ?p)"
    have "unat off < MAXFILE * BSIZE" using less.prems(3) r by linarith
    then have bn: "unat (off div bsize32) < MAXFILE" unfolding w(6) by (rule less_mult_imp_div_less)
    have "fs_ok V (Suc ?K + 5) ip s" using less.prems(1) by (simp add: pieces_step [OF r, of "unat off"] ac_simps)
    from bmap_txn [OF this bn, of sw, unfolded w(6)]
    obtain a t W q' where t: "bmap sw ip (off div bsize32) s = Some (a, t)" "fs_ok W (Suc ?K) ip t" "lview t = upd_inode ip (\<lambda>_. q') (lview s)"
      "mapped ?g ?st V ?q ?b W q' a" "a = 0 \<longrightarrow> (\<forall>b. \<not> free_block ?g W b)" by blast
    note e = lview_inode [OF t(3)]
    show ?thesis
    proof (cases "a = 0")
      case a: True
      have "fs_ok W k ip t" using t(2) txn_less [of W "{}" "Suc ?K" t k] by (simp add: fs_ok_def)
      moreover have "writei_loop sw ip False src kbuf off n tot s = Some (tot, off, t)"
        using True t(1) a by (subst writei_loop.simps) simp
      ultimately show ?thesis using t(3,5) a mapped_wrote_0 [OF t(4)] by (intro exI [of _ 0] exI [of _ t] exI [of _ W] exI [of _ q']) simp
    next
      case a: False
      have tt: "txn W {} (Suc ?K) t" "file_ok ?g ?st W q'" using t(2,4) by (simp_all add: fs_ok_def mapped_def)
      have ba: "baddr W q' ?b = a" using t(4) by (simp add: mapped_def)
      have "a \<in> home t" using file_okD(1) [OF tt(2), of ?b] ba a e by (auto simp: home_def data_block_def reserved_def)
      then obtain b u where b: "bread sw (blk (log_dev t)) a t = Some (b, u)" "block_of (b_data (bufs u b)) = W a" "lview u = lview t"
        "\<forall>d. \<exists>x y. log_write b (upd_buf b (\<lambda>x. x\<lparr>b_data := d\<rparr>) u) = Some x \<and> brelse b x = Some y \<and> txn (W(a := block_of d)) {} ?K y \<and>
           lview x = lview t \<and> lview y = lview t \<and> (\<forall>c \<in> {}. key y c = key t c)"
        by (rule fx.update_block [OF tt(1), of a sw, rotated 2]) auto
      let ?d = "blit (b_data (bufs u b)) (unat off mod BSIZE) kbuf (unat src) ?p"
      let ?X = "W(a := block_of (blit (W a) (unat off mod BSIZE) kbuf (unat src) ?p))"
      have "block_of ?d = block_of (blit (W a) (unat off mod BSIZE) kbuf (unat src) ?p)" unfolding b(2) [symmetric] by (simp add: block_of_blit)
      then obtain x y where y: "log_write b (upd_buf b (\<lambda>x. x\<lparr>b_data := ?d\<rparr>) u) = Some x" "brelse b x = Some y" "txn ?X {} ?K y" "lview y = lview t"
        using spec [OF b(4), of ?d] by auto
      have wr: "wrote ?g ?st V ?q ?X q' (unat off) kbuf (unat src) ?p" by (rule wrote_piece [OF t(4) a piece_bounds(4)])
      have vy: "lview y = upd_inode ip (\<lambda>_. q') (lview s)" using y(4) t(3) by simp
      note ey = lview_inode [OF vy]
      have dev: "i_dev q' = blk (log_dev s)" using t(4) fo(3) by (auto simp: mapped_def)
      have fy: "fs_ok ?X ?K ip y" using wr y(3) ey dev t(2) e(5) by (simp add: fs_ok_def wrote_def)
      have iu: "i_dev (inodes u ip) = blk (log_dev t)" "i_dev (inodes t ip) = blk (log_dev t)" using lview_fs(2) [OF b(3)] e dev by simp_all
      have step: "writei_loop sw ip False src kbuf off n tot s = writei_loop sw ip False (src + ucast ?m) kbuf (off + ?m) n (tot + ?m) y"
        using True t(1) a b(1) y(1,2) iu w(1,5) by (subst writei_loop.simps) (simp add: either_copyin_def Let_def unat_ucast64)
      have n: "unat n - unat (tot + ?m) = ?r - ?p" using w(3) p by simp
      have d: "unat (src + ucast ?m) = unat src + ?p" using less.prems(4) p w(1) by (simp add: unat_word_ariths unat_ucast64)
      have lt: "?r - ?p < ?r" "unat off + ?p + (?r - ?p) \<le> MAXFILE * BSIZE" "unat src + ?p + (?r - ?p) < 2 ^ 64" using p less.prems(3,4) by linarith+
      have "inodes y ip = q'" using ey(1) by simp
      note ih = less.hyps [of "tot + ?m" ?X "off + ?m" y "src + ucast ?m", unfolded n d w(2) ey(2,3) this, OF lt(1) fy w(4) lt(2,3)]
      obtain c z Y q'' where z: "writei_loop sw ip False (src + ucast ?m) kbuf (off + ?m) n (tot + ?m) y = Some (tot + ?m + of_nat c, off + ?m + of_nat c, z)"
        "c \<le> ?r - ?p" "fs_ok Y k ip z" "lview z = upd_inode ip (\<lambda>_. q'') (lview y)"
        "wrote ?g ?st ?X q' Y q'' (unat off + ?p) kbuf (unat src + ?p) c" "c < ?r - ?p \<longrightarrow> (\<forall>b. \<not> free_block ?g Y b)"
        using ih by blast
      have "lview z = upd_inode ip (\<lambda>_. q'') (lview s)" unfolding z(4) vy by (simp add: upd_inode_def)
      moreover have "?m + of_nat c = of_nat (?p + c)" unfolding w(1) [symmetric] by simp
      ultimately show ?thesis using step z(1-3,6) wrote_trans [OF wr z(5)] p
        by (intro exI [of _ "?p + c"] exI [of _ z] exI [of _ Y] exI [of _ q'']) (auto simp: add.assoc)
    qed
  qed
qed

lemma baddr_cong: "(i_addrs q NDIRECT \<noteq> 0 \<Longrightarrow> W (i_addrs q NDIRECT) = V (i_addrs q NDIRECT)) \<Longrightarrow> baddr W q = baddr V q"
  by (rule ext) (simp add: baddr_def)

text \<open>Writing the block of an inode changes no file.\<close>

definition inode_home :: "superblock \<Rightarrow> int \<Rightarrow> uint32 \<Rightarrow> bool" where
  "inode_home g st i \<longleftrightarrow> i < sb_ninodes g \<and> IBLOCK i g \<notin> log_area st \<and> (\<forall>b < sb_size g. BBLOCK b g \<noteq> IBLOCK i g)"

lemma inode_block:
  fixes V :: "uint32 \<Rightarrow> bytes" and d :: bytes
  assumes i: "inode_home g st i"
  defines "W \<equiv> V(IBLOCK i g := d)"
  shows "bitmap_ok g st V \<Longrightarrow> bitmap_ok g st W" "file_ok g st V q \<Longrightarrow> file_ok g st W q" "file_ok g st V q \<Longrightarrow> fbyte W q = fbyte V q"
    "file_ok g st V q \<Longrightarrow> baddr W q = baddr V q" "free_block g W = free_block g V"
proof -
  have u: "in_use g W b = in_use g V b" if "b < sb_size g" for b
    unfolding W_def by (rule in_use_other [OF _ that]) (use i in \<open>auto simp: inode_home_def\<close>)
  have r: "IBLOCK i g \<in> reserved g st" using i by (auto simp: reserved_def inode_home_def)
  have s: "W a = V a" if "data_block g st V a" for a using that r by (auto simp: W_def data_block_def)
  have db: "data_block g st W = data_block g st V" using u by (auto simp: data_block_def fun_eq_iff)
  show "bitmap_ok g st W" if "bitmap_ok g st V" using that u by (simp add: bitmap_ok_def)
  show "free_block g W = free_block g V" using u by (auto simp: free_block_def fun_eq_iff)
  show b: "baddr W q = baddr V q" if "file_ok g st V q" by (rule baddr_cong) (rule s [OF file_okD(3) [OF that]])
  show "file_ok g st W q" if "file_ok g st V q" using that by (simp only: file_ok_def b [OF that] db)
  show "fbyte W q = fbyte V q" if "file_ok g st V q"
    using s [OF file_okD(1) [OF that]] by (auto simp: fbyte_def b [OF that] fun_eq_iff Let_def)
qed

text \<open>Files that share no block with the one written.\<close>

lemma other_file:
  assumes w: "wrote g st V q W q' x f y c" and r: "file_ok g st V r" "fblocks V r \<inter> fblocks V q \<subseteq> {0}"
  shows "file_ok g st W r" "fbyte W r = fbyte V r"
proof -
  have k: "data_block g st W a \<and> W a = V a" if "a \<in> fblocks V r" "a \<noteq> 0" for a
  proof -
    have "data_block g st V a" using that file_okD(1,3) [OF r(1)] by (auto simp: fblocks_def)
    moreover have "a \<notin> fblocks V q" using that r(2) by blast
    ultimately show ?thesis using w by (simp add: wrote_def)
  qed
  have b: "baddr W r = baddr V r" by (rule baddr_cong) (use k [of "i_addrs r NDIRECT"] in \<open>auto simp: fblocks_def\<close>)
  have kb: "data_block g st W (baddr V r n) \<and> W (baddr V r n) = V (baddr V r n)" if "baddr V r n \<noteq> 0" for n
    using k [of "baddr V r n"] that by (auto simp: fblocks_def)
  show "file_ok g st W r" using r(1) kb k [of "i_addrs r NDIRECT"] unfolding file_ok_def b by (auto simp: fblocks_def)
  show "fbyte W r = fbyte V r" using kb by (auto simp: fbyte_def b fun_eq_iff Let_def)
qed

lemma wrote_present:
  assumes w: "wrote g st V q W q' x f y c" and p: "present V q e" "x \<le> e" "x + c \<le> MAXFILE * BSIZE"
  shows "present W q' (max e (x + c))"
proof -
  have "baddr W q' n \<noteq> 0" if n: "n * BSIZE < max e (x + c)" for n
  proof (cases "n * BSIZE < e")
    case True
    then show ?thesis using w p(1) by (simp add: wrote_def present_def)
  next
    case False
    then have "x \<le> n * BSIZE \<and> n * BSIZE < x + c" using n p(2) by auto
    then have "baddr W q' (n * BSIZE div BSIZE) \<noteq> 0" using w unfolding wrote_def by blast
    then show ?thesis by (simp add: BSIZE_def)
  qed
  then show ?thesis using p by (auto simp: present_def)
qed

lemma baddr_size [simp]: "baddr V (q\<lparr>i_size := z\<rparr>) = baddr V q" "fbyte V (q\<lparr>i_size := z\<rparr>) = fbyte V q"
  "file_ok g st V (q\<lparr>i_size := z\<rparr>) = file_ok g st V q" "present V (q\<lparr>i_size := z\<rparr>) = present V q"
proof -
  show b: "baddr V (q\<lparr>i_size := z\<rparr>) = baddr V q" by (simp add: baddr_def fun_eq_iff)
  show "fbyte V (q\<lparr>i_size := z\<rparr>) = fbyte V q" "file_ok g st V (q\<lparr>i_size := z\<rparr>) = file_ok g st V q" "present V (q\<lparr>i_size := z\<rparr>) = present V q"
    by (simp_all add: fbyte_def file_ok_def present_def b fun_eq_iff)
qed

lemma writei_writes:
  fixes off n :: uint32
  assumes s: "fs_ok V (Suc k + 6 * pieces (unat off) (unat n)) ip s" and pr: "present V (inodes s ip) (unat (i_size (inodes s ip)))"
    and ih: "inode_home (sb s) (log_start s) (i_inum (inodes s ip))" and src: "unat src + unat n < 2 ^ 64"
    and off: "unat off \<le> unat (i_size (inodes s ip))" "unat off + unat n \<le> MAXFILE * BSIZE"
  defines "q \<equiv> inodes s ip"
  shows "\<exists>c t W q'. writei sw ip False src kbuf off n s = Some (int c, t) \<and> c \<le> unat n \<and> fs_ok W k ip t \<and>
    (c < unat n \<longrightarrow> (\<forall>b. \<not> free_block (sb s) W b)) \<and> lview t = upd_inode ip (\<lambda>_. q') (lview s) \<and>
    (\<exists>h. q' = q\<lparr>i_size := of_nat (max (unat (i_size q)) (unat off + c)), i_addrs := h\<rparr>) \<and>
    present W q' (unat (i_size q')) \<and> fbyte W q' = blit (fbyte V q) (unat off) kbuf (unat src) c \<and>
    (\<forall>r. get_inode (sb s) W (i_inum q) r = stored q' r) \<and>
    (\<forall>r. file_ok (sb s) (log_start s) V r \<and> fblocks V r \<inter> fblocks V q \<subseteq> {0} \<longrightarrow>
       file_ok (sb s) (log_start s) W r \<and> fbyte W r = fbyte V r)"
proof -
  let ?g = "sb s" let ?st = "log_start s"
  have mf: "MAXFILE * BSIZE < 2 ^ 31" by (simp add: MAXFILE_def NDIRECT_def NINDIRECT_def BSIZE_def)
  have on: "unat (off + n) = unat off + unat n" using off(2) mf by (simp add: unat_word_ariths)
  have g: "\<not> (off > i_size q \<or> off + n < off)" "\<not> unat (off + n) > MAXFILE * BSIZE"
    using off on by (simp_all add: word_less_nat_alt q_def)
  obtain c t W q' where t: "writei_loop sw ip False src kbuf off n 0 s = Some (of_nat c, off + of_nat c, t)" "c \<le> unat n" "fs_ok W (Suc k) ip t"
    "lview t = upd_inode ip (\<lambda>_. q') (lview s)" "wrote ?g ?st V q W q' (unat off) kbuf (unat src) c" "c < unat n \<longrightarrow> (\<forall>b. \<not> free_block ?g W b)"
    using writei_loop_writes [of V "Suc k" off n 0 ip s src sw kbuf] s src off(2) by (auto simp: q_def)
  note e = lview_inode [OF t(4)]
  have c: "c < 2 ^ 31" "unat off + c < 2 ^ 31" using t(2) off(2) mf by linarith+
  have uc: "unat (of_nat c :: uint32) = c" "unat (off + of_nat c) = unat off + c" using c by (simp_all add: unat_of_nat unat_word_ariths)
  let ?z = "of_nat (max (unat (i_size q)) (unat off + c)) :: uint32" let ?q = "q'\<lparr>i_size := ?z\<rparr>"
  obtain h where h: "q' = q\<lparr>i_addrs := h\<rparr>" using t(5) by (auto simp: wrote_def)
  have "max (unat (i_size q)) (unat off + c) < 2 ^ 32" using c unsigned_less [where 'a = nat, of "i_size q"] by simp
  then have uz: "unat ?z = max (unat (i_size q)) (unat off + c)" by (simp only: unat_of_nat) simp
  have z: "?z = (if off + of_nat c > i_size q then off + of_nat c else i_size q)"
    unfolding word_unat_eq_iff uz using uc(2) by (simp add: word_less_nat_alt)
  let ?u = "upd_inode ip (\<lambda>_. ?q) t"
  have u: "(if off + of_nat c > i_size (inodes t ip) then upd_inode ip (\<lambda>x. x\<lparr>i_size := off + of_nat c\<rparr>) t else t) = ?u"
    unfolding z using e(1) h by (auto simp: upd_inode_def)
  have lu: "lview ?u = upd_inode ip (\<lambda>_. ?q) (lview s)" by (simp add: lview_upd_inode t(4)) (simp add: upd_inode_def)
  note eu = lview_inode [OF lu]
  have qi: "inodes ?u ip = ?q" "i_inum ?q = i_inum q" "i_dev ?q = blk (log_dev s)" using eu(1) h s by (simp_all add: q_def fs_ok_def)
  have "txn W {} (Suc k) ?u" "IBLOCK (i_inum ?q) ?g \<in> home ?u" using t(3) ih eu h by (simp_all add: fs_ok_def home_def inode_home_def q_def)
  then obtain v where v: "iupdate sw ip ?u = Some v" "txn (put_inode ?q ?g W) {} k v" "lview v = lview ?u"
    using iupdate_txn [of W k ?u ip sw] qi eu by auto
  let ?X = "put_inode ?q ?g W"
  have X: "?X = W(IBLOCK (i_inum q) ?g := block_of (dinode_put (W (IBLOCK (i_inum q) ?g)) (dip_off (i_inum q)) ?q))"
    using qi(2) by (simp add: put_inode_def Let_def)
  note ib = inode_block [OF ih [folded q_def], where V = W and d = "block_of (dinode_put (W (IBLOCK (i_inum q) ?g)) (dip_off (i_inum q)) ?q)", folded X]
  have f: "file_ok ?g ?st W q'" "bitmap_ok ?g ?st W" "fbyte W q' = blit (fbyte V q) (unat off) kbuf (unat src) c" using t(5) by (simp_all add: wrote_def)
  have lv: "lview v = upd_inode ip (\<lambda>_. ?q) (lview s)" using v(3) lu by simp
  note ev = lview_inode [OF lv]
  have "fs_ok ?X k ip v" using v(2) ib(1,2) f ev qi(3) s by (simp add: fs_ok_def)
  moreover have "writei sw ip False src kbuf off n s = Some (int c, v)"
    using g t(1) u v(1) sint_unat [of "of_nat c"] c uc by (simp add: writei_def q_def Let_def)
  moreover have "present ?X ?q (unat (i_size ?q))"
    using wrote_present [OF t(5) pr [folded q_def] off(1) [folded q_def]] off(2) t(2) ib(4) [OF f(1)] uz by (simp add: present_def)
  moreover have "\<forall>r. get_inode ?g ?X (i_inum q) r = stored ?q r" using get_put_inode [of ?g ?q W] qi(2) by simp
  moreover have "file_ok ?g ?st ?X r \<and> fbyte ?X r = fbyte V r" if "file_ok ?g ?st V r \<and> fblocks V r \<inter> fblocks V q \<subseteq> {0}" for r
    using other_file [OF t(5), of r] ib(2,3) [of r] that by simp
  moreover have "\<exists>h. ?q = q\<lparr>i_size := ?z, i_addrs := h\<rparr>" using h by (intro exI [of _ h]) simp
  moreover have "fbyte ?X ?q = blit (fbyte V q) (unat off) kbuf (unat src) c" using ib(3) [OF f(1)] f(3) by simp
  moreover have "c < unat n \<longrightarrow> (\<forall>b. \<not> free_block ?g ?X b)" using t(6) ib(5) by simp
  ultimately show ?thesis using t(2) lv by (intro exI [of _ c] exI [of _ v] exI [of _ ?X] exI [of _ ?q]) blast
qed

section \<open>Properties\<close>

text \<open>
  C14: reading and writing a file, from and to kernel memory, in a transaction with room for the blocks touched. \<open>writei\<close> rejects
  an offset beyond the end of the file and a range beyond the largest file. Otherwise it writes
  the first \<open>c\<close> bytes, all of them unless the disk is full; the size becomes the maximum of the old one and the end of what was written;
  the inode on disk is the one in memory; no other inode in the table and no
  file that shares no block with this one changes. From then on \<open>readi\<close> returns for every range
  the bytes written, the old ones around them, cut off at the end of the file.
\<close>

theorem writei_readi:
  fixes off n :: uint32
  assumes "fs_ok V (Suc k + 6 * pieces (unat off) (unat n)) ip s" "present V (inodes s ip) (unat (i_size (inodes s ip)))"
    "inode_home (sb s) (log_start s) (i_inum (inodes s ip))" "unat src + unat n < 2 ^ 64"
  shows "if unat (i_size (inodes s ip)) < unat off \<or> MAXFILE * BSIZE < unat off + unat n
    then writei sw ip False src kbuf off n s = Some (-1, s)
    else \<exists>c t W. writei sw ip False src kbuf off n s = Some (int c, t) \<and> c \<le> unat n \<and> fs_ok W k ip t \<and>
      (c < unat n \<longrightarrow> (\<forall>b < sb_size (sb s). in_use (sb s) W b)) \<and>
      unat (i_size (inodes t ip)) = max (unat (i_size (inodes s ip))) (unat off + c) \<and>
      (\<forall>r. get_inode (sb s) W (i_inum (inodes s ip)) r = stored (inodes t ip) r) \<and>
      (\<forall>jp. jp \<noteq> ip \<longrightarrow> inodes t jp = inodes s jp) \<and>
      (\<forall>r. file_ok (sb s) (log_start s) V r \<and> fblocks V r \<inter> fblocks V (inodes s ip) \<subseteq> {0} \<longrightarrow>
         file_ok (sb s) (log_start s) W r \<and> fbyte W r = fbyte V r) \<and>
      (\<forall>dst kb x m. unat dst + unat m < 2 ^ 64 \<and> unat x \<le> unat (i_size (inodes t ip)) \<and> unat x + unat m < 2 ^ 32 \<longrightarrow>
         (\<exists>u. readi sw ip False dst kb x m t =
            Some (int (min (unat m) (unat (i_size (inodes t ip)) - unat x)),
              blit kb (unat dst) (blit (fbyte V (inodes s ip)) (unat off) kbuf (unat src) c) (unat x)
                (min (unat m) (unat (i_size (inodes t ip)) - unat x)), u) \<and> fs_ok W k ip u \<and> lview u = lview t))"
proof (cases "unat (i_size (inodes s ip)) < unat off \<or> MAXFILE * BSIZE < unat off + unat n")
  case True
  have "off + n < off \<or> unat (off + n) = unat off + unat n"
    using unsigned_less [where 'a = nat, of off] unsigned_less [where 'a = nat, of n] by (auto simp: word_less_nat_alt unat_word_ariths mod_if)
  then show ?thesis using True by (auto simp: writei_def Let_def word_less_nat_alt)
next
  case False
  let ?q = "inodes s ip"
  have off: "unat off \<le> unat (i_size ?q)" "unat off + unat n \<le> MAXFILE * BSIZE" using False by auto
  obtain c t W q' where t: "writei sw ip False src kbuf off n s = Some (int c, t)" "c \<le> unat n" "fs_ok W k ip t"
    "c < unat n \<longrightarrow> (\<forall>b. \<not> free_block (sb s) W b)" "lview t = upd_inode ip (\<lambda>_. q') (lview s)"
    "\<exists>h. q' = ?q\<lparr>i_size := of_nat (max (unat (i_size ?q)) (unat off + c)), i_addrs := h\<rparr>"
    "present W q' (unat (i_size q'))" "fbyte W q' = blit (fbyte V ?q) (unat off) kbuf (unat src) c"
    "\<forall>r. get_inode (sb s) W (i_inum ?q) r = stored q' r"
    "\<forall>r. file_ok (sb s) (log_start s) V r \<and> fblocks V r \<inter> fblocks V ?q \<subseteq> {0} \<longrightarrow> file_ok (sb s) (log_start s) W r \<and> fbyte W r = fbyte V r"
    using writei_writes [OF assms off, of sw kbuf] by blast
  have i: "inodes t = (inodes s)(ip := q')" "inodes t ip = q'" using lview_inode(1) [OF t(5)] by simp_all
  have "max (unat (i_size ?q)) (unat off + c) < 2 ^ 32"
    using t(2) False unsigned_less [where 'a = nat, of "i_size ?q"] by (auto simp: MAXFILE_def NDIRECT_def NINDIRECT_def BSIZE_def)
  then have z: "unat (i_size q') = max (unat (i_size ?q)) (unat off + c)" using t(6) by (auto simp: unat_of_nat simp del: of_nat_max)
  have "\<exists>u. readi sw ip False dst kb x m t = Some (int (min (unat m) (unat (i_size q') - unat x)),
      blit kb (unat dst) (blit (fbyte V ?q) (unat off) kbuf (unat src) c) (unat x) (min (unat m) (unat (i_size q') - unat x)), u) \<and> fs_ok W k ip u \<and> lview u = lview t"
    if "unat dst + unat m < 2 ^ 64 \<and> unat x \<le> unat (i_size q') \<and> unat x + unat m < 2 ^ 32" for dst kb x m
    using readi_reads [OF t(3), unfolded i(2), OF t(7), of dst m x sw kb, unfolded t(8)] that by (simp add: not_less)
  moreover have "\<forall>jp. jp \<noteq> ip \<longrightarrow> inodes t jp = inodes s jp" using i(1) by simp
  moreover have "c < unat n \<longrightarrow> (\<forall>b < sb_size (sb s). in_use (sb s) W b)" using t(4) by (auto simp: free_block_def)
  ultimately show ?thesis unfolding if_not_P [OF False] using t(1-3,9,10) z
    by (intro exI [of _ c] exI [of _ t] exI [of _ W]) (unfold i(2), blast)
qed

lemma present_ex: "present disk_ex inode_ex 777"
  by (auto simp: present_def baddr_def inode_ex_def NDIRECT_def MAXFILE_def NINDIRECT_def BSIZE_def)

lemma home_ex: "inode_home sb_ex 2 17"
proof -
  have "IBLOCK 17 sb_ex = 34" by (simp add: IBLOCK_def sb_ex_def IPB_def BSIZE_def)
  moreover have "sb_ninodes sb_ex = 200" "sb_size sb_ex = 2000" by (simp_all add: sb_ex_def)
  ultimately show ?thesis using fs_ex_area [of 34] BBLOCK_ex by (simp add: inode_home_def)
qed

theorem writei_readi_witness:
  "\<exists>(s :: fsst) c t u. binit (fs_ex disk_ex inode_ex) = Some s \<and> writei Some 0 False 0 (\<lambda>_. 9) 770 20 s = Some (int c, t) \<and>
     unat (i_size (inodes t 0)) = max 777 (770 + c) \<and>
     readi Some 0 False 0 (\<lambda>_. 1) 770 5 t = Some (5, blit (\<lambda>_. 1) 0 (blit (fbyte disk_ex inode_ex) 770 (\<lambda>_. 9) 0 c) 770 5, u)"
proof -
  obtain s where s: "binit (fs_ex disk_ex inode_ex) = Some s" "txn disk_ex {} 20 s" "sb s = sb_ex" "inodes s = (\<lambda>_. inode_ex)"
    "log_start s = 2" "log_dev s = 1" "held s = []"
    by (rule fs_ex_boot [OF disk_ex_block, where q = inode_ex])
  have iq: "i_dev inode_ex = 1" "i_inum inode_ex = 17" "i_size inode_ex = 777" by (simp_all add: inode_ex_def)
  have "pieces 770 20 = 1" by (simp add: pieces_def BSIZE_def)
  then have h: "fs_ok disk_ex (Suc 13 + 6 * pieces (unat (770 :: uint32)) (unat (20 :: uint32))) 0 s"
    unfolding fs_ok_def using s bitmap_ex file_ex by (simp add: iq blk_def)
  have h': "present disk_ex (inodes s 0) (unat (i_size (inodes s 0)))" "inode_home (sb s) (log_start s) (i_inum (inodes s 0))"
    "unat (0 :: uint64) + unat (20 :: uint32) < 2 ^ 64" using present_ex home_ex s by (simp_all add: iq)
  have "\<not> (unat (i_size (inodes s 0)) < unat (770 :: uint32) \<or> MAXFILE * BSIZE < unat (770 :: uint32) + unat (20 :: uint32))"
    using s(4) by (simp add: iq MAXFILE_def NDIRECT_def NINDIRECT_def BSIZE_def)
  from writei_readi [OF h h', of Some "\<lambda>_. 9", unfolded if_not_P [OF this]]
  obtain c t W where t: "writei Some 0 False 0 (\<lambda>_. 9) 770 20 s = Some (int c, t)"
    "unat (i_size (inodes t 0)) = max (unat (i_size (inodes s 0))) (unat (770 :: uint32) + c)"
    "\<forall>(dst :: uint64) kb (x :: uint32) (m :: uint32). unat dst + unat m < 2 ^ 64 \<and> unat x \<le> unat (i_size (inodes t 0)) \<and> unat x + unat m < 2 ^ 32 \<longrightarrow>
       (\<exists>u. readi Some 0 False dst kb x m t =
          Some (int (min (unat m) (unat (i_size (inodes t 0)) - unat x)),
            blit kb (unat dst) (blit (fbyte disk_ex (inodes s 0)) (unat (770 :: uint32)) (\<lambda>_. 9) (unat (0 :: uint64)) c) (unat x)
              (min (unat m) (unat (i_size (inodes t 0)) - unat x)), u) \<and> fs_ok W 13 0 u \<and> lview u = lview t)"
    by (elim exE conjE) (rule that)
  have z: "unat (i_size (inodes t 0)) = max 777 (770 + c)" using t(2) s(4) by (simp add: iq)
  have "\<exists>u. readi Some 0 False 0 (\<lambda>_. 1) 770 5 t = Some (5, blit (\<lambda>_. 1) 0 (blit (fbyte disk_ex inode_ex) 770 (\<lambda>_. 9) 0 c) 770 5, u)"
    using t(3) [THEN spec, of 0, THEN spec, of "\<lambda>_. 1", THEN spec, of 770, THEN spec, of 5] s(4) by (auto simp: z)
  then show ?thesis using s(1) t(1) z by blast
qed

end
