(* ===== verification/Ulib.thy ===== *)
theory Ulib
  imports String_C
begin

text \<open>
  The C library of the user programs, \<^verbatim>\<open>user/ulib.c\<close>. The functions on blocks of memory work on
  one byte memory, like those of the kernel. The functions that only read strings take the
  characters of the buffer from the pointer on; the string ends at the first nul byte or with
  the list. What can be read from standard input is the list of characters not yet read.
\<close>

section \<open>Blocks of memory\<close>

fun umemset :: "bytes \<Rightarrow> nat \<Rightarrow> uint8 \<Rightarrow> nat \<Rightarrow> bytes" where
  "umemset m dst c 0 = m"
| "umemset m dst c (Suc n) = (umemset m dst c n)(dst + n := c)"

text \<open>A negative length copies nothing.\<close>

definition umemmove :: "bytes \<Rightarrow> nat \<Rightarrow> nat \<Rightarrow> int \<Rightarrow> bytes" where
  "umemmove m vdst vsrc n =
     (if vsrc > vdst then copy_up m vdst vsrc (nat n)
      else copy_down m (vdst + nat n) (vsrc + nat n) (nat n))"

fun umemcmp :: "bytes \<Rightarrow> nat \<Rightarrow> nat \<Rightarrow> nat \<Rightarrow> int" where
  "umemcmp m p1 p2 0 = 0"
| "umemcmp m p1 p2 (Suc n) =
     (if m p1 \<noteq> m p2 then uint (m p1) - uint (m p2) else umemcmp m (p1 + 1) (p2 + 1) n)"

definition umemcpy :: "bytes \<Rightarrow> nat \<Rightarrow> nat \<Rightarrow> nat \<Rightarrow> bytes" where
  "umemcpy m dst src n = umemmove m dst src (sint (of_nat n :: uint32))"

text \<open>\<open>strcpy\<close> copies until it has copied a nul byte, which may never come.\<close>

partial_function (option) strcpy :: "bytes \<Rightarrow> nat \<Rightarrow> nat \<Rightarrow> bytes option" where
  "strcpy m s t = (let c = m t; m = m(s := c) in if c \<noteq> 0 then strcpy m (s + 1) (t + 1) else Some m)"

section \<open>Strings\<close>

abbreviation (input) NL :: char where "NL \<equiv> CHR 0x0A"
abbreviation (input) CR :: char where "CR \<equiv> CHR 0x0D"
abbreviation (input) NUL :: char where "NUL \<equiv> CHR 0x00"

primrec ustrlen :: "string \<Rightarrow> uint32" where
  "ustrlen [] = 0"
| "ustrlen (x # s) = (if x = NUL then 0 else ustrlen s + 1)"

text \<open>The character at the head of a string, as an \<open>uchar\<close>.\<close>

definition uchar_at :: "string \<Rightarrow> int" where
  "uchar_at s = (case s of [] \<Rightarrow> 0 | c # _ \<Rightarrow> of_char c)"

lemma uchar_at_tl [termination_simp]: "uchar_at p \<noteq> 0 \<Longrightarrow> length p - Suc 0 < length p"
  by (cases p) (auto simp: uchar_at_def)

fun ustrcmp :: "string \<Rightarrow> string \<Rightarrow> int" where
  "ustrcmp p q =
     (if uchar_at p \<noteq> 0 \<and> uchar_at p = uchar_at q then ustrcmp (tl p) (tl q)
      else uchar_at p - uchar_at q)"

text \<open>\<open>strchr\<close> returns the offset of the character.\<close>

primrec strchr :: "string \<Rightarrow> char \<Rightarrow> nat option" where
  "strchr [] c = None"
| "strchr (x # s) c = (if x = NUL then None else if x = c then Some 0 else map_option Suc (strchr s c))"

text \<open>\<open>gets\<close>: the bytes stored before the nul byte, and what remains to be read.\<close>

fun gets_loop :: "nat \<Rightarrow> string \<Rightarrow> string \<times> string" where
  "gets_loop 0 inp = ([], inp)"
| "gets_loop (Suc n) [] = ([], [])"
| "gets_loop (Suc n) (c # inp) =
     (if c = NL \<or> c = CR then ([c], inp) else apfst ((#) c) (gets_loop n inp))"

definition gets :: "int \<Rightarrow> string \<Rightarrow> string \<times> string" where
  "gets lim inp = gets_loop (nat (lim - 1)) inp"

text \<open>The machine wraps around when the number does not fit.\<close>

fun atoi_loop :: "uint32 \<Rightarrow> string \<Rightarrow> uint32" where
  "atoi_loop n [] = n"
| "atoi_loop n (c # s) =
     (if 48 \<le> (of_char c :: nat) \<and> (of_char c :: nat) \<le> 57
      then atoi_loop (n * 10 + of_char c - 48) s else n)"

definition atoi :: "string \<Rightarrow> int" where
  "atoi s = sint (atoi_loop 0 s)"

section \<open>What they compute\<close>

text \<open>The library and the kernel have their own \<open>memmove\<close>, which choose the direction differently.\<close>

lemma umemmove_eq: "umemmove m dst src n = memmove m dst src (nat n)"
proof
  fix x
  show "umemmove m dst src n x = memmove m dst src (nat n) x"
  proof (cases "src > dst")
    case True
    then show ?thesis by (simp add: umemmove_def copy_up_apply memmove_apply)
  next
    case False
    have "copy_down m (dst + nat n) (src + nat n) (nat n) x =
        (if dst \<le> x \<and> x < dst + nat n then m (src + nat n - (dst + nat n - x)) else m x)"
      using False by (subst copy_down_apply) auto
    moreover have "dst \<le> x \<Longrightarrow> x < dst + nat n \<Longrightarrow> src + nat n - (dst + nat n - x) = src + (x - dst)" by simp
    ultimately show ?thesis using False by (simp add: umemmove_def memmove_apply)
  qed
qed

lemma umemset_eq: "umemset m d c n = memset m d c n"
  by (induction n) auto

lemma umemcmp_eq: "umemcmp m a b n = memcmp m a b n"
  by (induction n arbitrary: a b) auto

lemma strcpy_copies:
  assumes "m (t + k) = 0" "\<And>i. i < k \<Longrightarrow> m (t + i) \<noteq> 0" "s + k < t \<or> t + k < s"
  shows "strcpy m s t = Some (memmove m s t (Suc k))"
  using assms
proof (induction k arbitrary: m s t)
  case 0
  have "m(s := 0) = memmove m s t (Suc 0)" using 0 by (auto simp: memmove_apply fun_eq_iff)
  then show ?case using 0 by (subst strcpy.simps) simp
next
  case (Suc k)
  let ?m = "m(s := m t)"
  have "strcpy ?m (s + 1) (t + 1) = Some (memmove ?m (s + 1) (t + 1) (Suc k))"
    using Suc.prems Suc.prems(2) [of "Suc _"] by (intro Suc.IH) auto
  moreover have "memmove ?m (s + 1) (t + 1) (Suc k) = memmove m s t (Suc (Suc k))"
  proof
    fix x
    show "memmove ?m (s + 1) (t + 1) (Suc k) x = memmove m s t (Suc (Suc k)) x"
    proof (cases "s + 1 \<le> x \<and> x < s + 1 + Suc k")
      case True
      then have "t + 1 + (x - (s + 1)) = t + (x - s)" "t + (x - s) \<noteq> s" using Suc.prems(3) by auto
      then show ?thesis using True by (simp add: memmove_apply)
    next
      case False
      then show ?thesis by (auto simp: memmove_apply)
    qed
  qed
  moreover have "m t \<noteq> 0" using Suc.prems(2) [of 0] by simp
  ultimately show ?case by (subst strcpy.simps) (simp add: Let_def)
qed

declare ustrcmp.simps [simp del]

lemma of_char_zero: "of_char c = (0 :: int) \<longleftrightarrow> c = NUL"
proof -
  have "of_char c = (of_char NUL :: int) \<longleftrightarrow> c = NUL" by (rule of_char_eq_iff)
  then show ?thesis by simp
qed

lemma ustrcmp_zero_iff:
  "NUL \<notin> set p \<Longrightarrow> NUL \<notin> set q \<Longrightarrow> ustrcmp p q = 0 \<longleftrightarrow> p = q"
proof (induction p arbitrary: q)
  case Nil
  then show ?case by (subst ustrcmp.simps) (auto simp: uchar_at_def of_char_zero split: list.splits)
next
  case (Cons c p)
  show ?case
  proof (cases q)
    case Nil
    then show ?thesis using Cons.prems by (subst ustrcmp.simps) (auto simp: uchar_at_def of_char_zero)
  next
    case (Cons d q')
    then show ?thesis
      using Cons.IH [of q'] Cons.prems by (subst ustrcmp.simps) (auto simp: uchar_at_def of_char_zero)
  qed
qed

lemma strchr_None: "NUL \<notin> set s \<Longrightarrow> strchr s c = None \<longleftrightarrow> c \<notin> set s"
  by (induction s) auto

lemma strchr_Some: "strchr s c = Some k \<Longrightarrow> c \<notin> set (take k s) \<and> s ! k = c \<and> k < length s"
  by (induction s arbitrary: k) (auto split: if_splits)

lemma strchr_bound [termination_simp]: "strchr s c = Some k \<Longrightarrow> length s - Suc k < length s"
  by (cases s) auto

text \<open>\<open>gets\<close> takes a prefix of the input that fits, and one line when the line fits.\<close>

lemma gets_prefix: "gets_loop n inp = (b, r) \<Longrightarrow> inp = b @ r \<and> length b \<le> n"
proof (induction n inp arbitrary: b r rule: gets_loop.induct)
  case (3 n c inp)
  then show ?case by (cases "gets_loop n inp") (auto split: if_splits)
qed auto

lemma gets_progress: "gets_loop (Suc n) inp = (b, r) \<Longrightarrow> b = [] \<longleftrightarrow> inp = []"
  by (cases inp; cases "gets_loop n (tl inp)") (auto split: if_splits)

lemma gets_line:
  "NL \<notin> set l \<Longrightarrow> CR \<notin> set l \<Longrightarrow> length l < n \<Longrightarrow> gets_loop n (l @ NL # r) = (l @ [NL], r)"
proof (induction l arbitrary: n)
  case Nil
  then show ?case by (cases n) auto
next
  case (Cons c l)
  then show ?case by (cases n) auto
qed

end
