(* ===== verification/Grep.thy ===== *)
theory Grep
  imports Ulib
begin

text \<open>
  The user program \<^verbatim>\<open>user/grep.c\<close>: its pattern matcher, proved equivalent to the meaning of a
  pattern as a language, and its loop over the input, proved to print the matching lines
  whatever the sizes of the pieces the input arrives in.

  A string in memory is the list of its characters before the terminating nul byte; a pointer
  into it is a suffix, and reading the nul byte is seeing the empty list.
\<close>

section \<open>The matcher\<close>

function matchhere :: "string \<Rightarrow> string \<Rightarrow> bool"
  and matchstar :: "char \<Rightarrow> string \<Rightarrow> string \<Rightarrow> bool" where
  "matchhere re tx =
     (case re of
        [] \<Rightarrow> True
      | c # r \<Rightarrow>
          if r \<noteq> [] \<and> hd r = CHR ''*'' then matchstar c (tl r) tx
          else if c = CHR ''$'' \<and> r = [] then tx = []
          else if tx \<noteq> [] \<and> (c = CHR ''.'' \<or> c = hd tx) then matchhere r (tl tx)
          else False)"
| "matchstar c re tx =
     (if matchhere re tx then True
      else if tx \<noteq> [] \<and> (hd tx = c \<or> c = CHR ''.'') then matchstar c re (tl tx)
      else False)"
  by pat_completeness auto
termination
  by (relation "measures [case_sum (\<lambda>(re, tx). 2 * length re) (\<lambda>(c, re, tx). 2 * length re + 1),
        case_sum (length \<circ> snd) (length \<circ> snd \<circ> snd)]") (auto simp: neq_Nil_conv)

declare matchhere.simps [simp del] matchstar.simps [simp del]

text \<open>The loop of \<open>match\<close> tries every suffix of the text, the empty one included.\<close>

fun match_any :: "string \<Rightarrow> string \<Rightarrow> bool" where
  "match_any re [] = matchhere re []"
| "match_any re (x # tx) = (if matchhere re (x # tx) then True else match_any re tx)"

definition match :: "string \<Rightarrow> string \<Rightarrow> bool" where
  "match re tx =
     (if re \<noteq> [] \<and> hd re = CHR ''^'' then matchhere (tl re) tx else match_any re tx)"

section \<open>What a pattern means\<close>

text \<open>
  A pattern is a sequence of items, each one character or a repetition, and may be anchored at
  the end of the line. Its meaning is the set of strings its items match.
\<close>

datatype item = Single char | Repeat char

fun parse :: "string \<Rightarrow> item list \<times> bool" where
  "parse [] = ([], False)"
| "parse [c] = (if c = CHR ''$'' then ([], True) else ([Single c], False))"
| "parse (c # d # r) =
     (if d = CHR ''*'' then apfst ((#) (Repeat c)) (parse r) else apfst ((#) (Single c)) (parse (d # r)))"

definition char_matches :: "char \<Rightarrow> char \<Rightarrow> bool" where
  "char_matches c x \<longleftrightarrow> c = CHR ''.'' \<or> x = c"

primrec item_lang :: "item \<Rightarrow> string set" where
  "item_lang (Single c) = {[x] | x. char_matches c x}"
| "item_lang (Repeat c) = {u. list_all (char_matches c) u}"

primrec lang :: "item list \<Rightarrow> string set" where
  "lang [] = {[]}"
| "lang (i # is) = {u @ v | u v. u \<in> item_lang i \<and> v \<in> lang is}"

text \<open>A part of the text is in the language; an anchored pattern fixes where it starts or ends.\<close>

definition here :: "item list \<times> bool \<Rightarrow> string \<Rightarrow> bool" where
  "here p tx \<longleftrightarrow> (\<exists>u v. tx = u @ v \<and> u \<in> lang (fst p) \<and> (snd p \<longrightarrow> v = []))"

definition pattern_matches :: "string \<Rightarrow> string \<Rightarrow> bool" where
  "pattern_matches re tx \<longleftrightarrow>
     (if re \<noteq> [] \<and> hd re = CHR ''^''
      then \<exists>u v. tx = u @ v \<and> u \<in> lang (fst (parse (tl re))) \<and> (snd (parse (tl re)) \<longrightarrow> v = [])
      else \<exists>t u v. tx = t @ u @ v \<and> u \<in> lang (fst (parse re)) \<and> (snd (parse re) \<longrightarrow> v = []))"

lemma hereI: "tx = u @ v \<Longrightarrow> u \<in> lang is \<Longrightarrow> (e \<longrightarrow> v = []) \<Longrightarrow> here (is, e) tx"
  by (auto simp: here_def)

lemma hereE:
  assumes "here (is, e) tx"
  obtains u v where "tx = u @ v" "u \<in> lang is" "e \<longrightarrow> v = []"
  using assms by (auto simp: here_def)

lemma here_Nil [simp]: "here ([], e) tx \<longleftrightarrow> (e \<longrightarrow> tx = [])"
  by (auto simp: here_def)

lemma lang_SingleI: "char_matches c x \<Longrightarrow> u \<in> lang is \<Longrightarrow> x # u \<in> lang (Single c # is)"
  by (simp, rule exI [of _ "[x]"], simp)

lemma here_Single [simp]:
  "here (Single c # is, e) tx \<longleftrightarrow> (case tx of [] \<Rightarrow> False | x # t \<Rightarrow> char_matches c x \<and> here (is, e) t)"
proof (cases tx)
  case (Cons x t)
  show ?thesis
  proof
    assume "here (Single c # is, e) tx"
    then obtain u v where u: "tx = u @ v" "u \<in> lang (Single c # is)" and v: "e \<longrightarrow> v = []" by (rule hereE)
    then obtain y w where w: "tx = ([y] @ w) @ v" "char_matches c y" "w \<in> lang is" by auto
    then have "here (is, e) t" using Cons by (intro hereI [OF _ w(3) v]) simp
    then show "case tx of [] \<Rightarrow> False | x # t \<Rightarrow> char_matches c x \<and> here (is, e) t"
      using Cons w(1,2) by simp
  next
    assume "case tx of [] \<Rightarrow> False | x # t \<Rightarrow> char_matches c x \<and> here (is, e) t"
    then obtain u v where "char_matches c x" "t = u @ v" "u \<in> lang is" and v: "e \<longrightarrow> v = []"
      using Cons by (auto simp: here_def)
    then have "tx = (x # u) @ v" "x # u \<in> lang (Single c # is)" using Cons by (simp_all add: lang_SingleI del: lang.simps)
    then show "here (Single c # is, e) tx" using v by (rule hereI)
  qed
qed (auto simp: here_def)

lemma repeat_unfold:
  "w \<in> lang (Repeat c # is) \<longleftrightarrow>
     w \<in> lang is \<or> (\<exists>x v. w = x # v \<and> char_matches c x \<and> v \<in> lang (Repeat c # is))" (is "?l \<longleftrightarrow> ?r")
proof
  assume ?l
  then obtain u v where "w = u @ v" "list_all (char_matches c) u" "v \<in> lang is" by auto
  then show ?r by (cases u) auto
next
  assume ?r
  then show ?l
  proof
    assume "w \<in> lang is"
    then have "w = [] @ w" "list_all (char_matches c) []" "w \<in> lang is" by simp_all
    then show ?l by (simp only: lang.simps item_lang.simps mem_Collect_eq) blast
  next
    assume "\<exists>x v. w = x # v \<and> char_matches c x \<and> v \<in> lang (Repeat c # is)"
    then obtain x u v where "w = (x # u) @ v" "list_all (char_matches c) (x # u)" "v \<in> lang is" by auto
    then show ?l by (simp only: lang.simps item_lang.simps mem_Collect_eq) blast
  qed
qed

lemma here_Repeat:
  "here (Repeat c # is, e) tx \<longleftrightarrow>
     here (is, e) tx \<or> (case tx of [] \<Rightarrow> False | x # t \<Rightarrow> char_matches c x \<and> here (Repeat c # is, e) t)"
proof
  assume "here (Repeat c # is, e) tx"
  then obtain u v where u: "tx = u @ v" "u \<in> lang (Repeat c # is)" and v: "e \<longrightarrow> v = []" by (rule hereE)
  from u(2) [unfolded repeat_unfold [of u]]
  show "here (is, e) tx \<or> (case tx of [] \<Rightarrow> False | x # t \<Rightarrow> char_matches c x \<and> here (Repeat c # is, e) t)"
  proof
    assume "u \<in> lang is"
    then show ?thesis using hereI [OF u(1) _ v] by blast
  next
    assume "\<exists>x w. u = x # w \<and> char_matches c x \<and> w \<in> lang (Repeat c # is)"
    then obtain x w where w: "u = x # w" "char_matches c x" "w \<in> lang (Repeat c # is)" by blast
    have "here (Repeat c # is, e) (w @ v)" by (rule hereI [OF refl w(3) v])
    then show ?thesis using u(1) w by simp
  qed
next
  assume "here (is, e) tx \<or> (case tx of [] \<Rightarrow> False | x # t \<Rightarrow> char_matches c x \<and> here (Repeat c # is, e) t)"
  then show "here (Repeat c # is, e) tx"
  proof
    assume "here (is, e) tx"
    then show ?thesis unfolding here_def fst_conv snd_conv using repeat_unfold by blast
  next
    assume "case tx of [] \<Rightarrow> False | x # t \<Rightarrow> char_matches c x \<and> here (Repeat c # is, e) t"
    then obtain x u v where "tx = (x # u) @ v" "char_matches c x" "u \<in> lang (Repeat c # is)" "e \<longrightarrow> v = []"
      by (auto simp: here_def simp del: lang.simps split: list.splits)
    then show ?thesis unfolding here_def fst_conv snd_conv using repeat_unfold by blast
  qed
qed

lemma matchhere_eq:
  "matchhere re tx \<longleftrightarrow> here (parse re) tx"
  "matchstar c re tx \<longleftrightarrow> here (apfst ((#) (Repeat c)) (parse re)) tx"
proof (induction re tx and c re tx rule: matchhere_matchstar.induct)
  case (1 re tx)
  show ?case
  proof (cases re rule: parse.cases)
    case 1
    then show ?thesis by (simp add: matchhere.simps)
  next
    case (2 c)
    then show ?thesis by (cases tx) (auto simp: matchhere.simps char_matches_def)
  next
    case (3 c d r)
    show ?thesis
    proof (cases "d = CHR ''*''")
      case True
      then show ?thesis using 3 "1.IH"(1) [OF 3] by (subst matchhere.simps) simp
    next
      case False
      obtain "is" e where p: "parse (d # r) = (is, e)" by force
      show ?thesis
      proof (cases tx)
        case Nil
        then show ?thesis using 3 False p by (subst matchhere.simps) simp
      next
        case (Cons x t)
        then show ?thesis using 3 False p "1.IH"(2) [OF 3]
          by (subst matchhere.simps) (auto simp: char_matches_def)
      qed
    qed
  qed
next
  case (2 c re tx)
  obtain "is" e where p: "parse re = (is, e)" by force
  show ?case
  proof (cases tx)
    case Nil
    then show ?thesis using 2 p here_Repeat [of c "is" e tx] by (simp add: matchstar.simps)
  next
    case (Cons x t)
    then show ?thesis using 2 p here_Repeat [of c "is" e tx]
      by (subst matchstar.simps) (auto simp: char_matches_def)
  qed
qed


lemma match_any_eq: "match_any re tx \<longleftrightarrow> (\<exists>t s. tx = t @ s \<and> here (parse re) s)"
proof (induction tx)
  case Nil
  then show ?case by (simp add: matchhere_eq)
next
  case (Cons x tx)
  have "(\<exists>t s. x # tx = t @ s \<and> here (parse re) s) \<longleftrightarrow>
      here (parse re) (x # tx) \<or> (\<exists>t s. tx = t @ s \<and> here (parse re) s)"
    by (metis append_Cons append_Nil append_eq_Cons_conv)
  then show ?case using Cons by (simp add: matchhere_eq)
qed

lemma match_eq: "match = pattern_matches"
proof (intro ext)
  fix re tx
  show "match re tx = pattern_matches re tx"
    by (cases "re \<noteq> [] \<and> hd re = CHR ''^''")
      (auto simp: match_def pattern_matches_def matchhere_eq match_any_eq here_def)
qed

text \<open>
  C23: the recursive matcher with its early returns decides the meaning of the pattern: some
  part of the line, at the start for \<open>^\<close> and at the end for \<open>$\<close>, is in the language of the
  pattern's items.
\<close>

theorem match_iff_pattern: "match = pattern_matches"
  by (rule match_eq)

section \<open>The loop over the input\<close>

text \<open>
  The part of a buffer up to its terminating nul byte is a string, and pointers into it are
  suffixes. \<open>grep_lines\<close> gives the writes of the inner loop, and what is left of the buffer from
  \<open>p\<close> on.
\<close>

fun grep_lines :: "string \<Rightarrow> string \<Rightarrow> string list \<times> string" where
  "grep_lines pattern p =
     (case strchr p NL of
        None \<Rightarrow> ([], p)
      | Some k \<Rightarrow>
          let (out, rest) = grep_lines pattern (drop (k + 1) p)
          in (if match pattern (take k p) then take (k + 1) p # out else out, rest))"

declare grep_lines.simps [simp del]

text \<open>
  A descriptor delivers its input in pieces; a read takes at most \<open>n\<close> bytes of the first one,
  and an empty piece or the absence of any is the end of the file.
\<close>

fun read_piece :: "nat \<Rightarrow> string list \<Rightarrow> string \<times> string list" where
  "read_piece n [] = ([], [])"
| "read_piece n (c # cs) = (take n c, if length c \<le> n then cs else drop n c # cs)"

lemma read_piece_less:
  "read_piece n inp = (r, inp') \<Longrightarrow> r \<noteq> [] \<Longrightarrow>
     length inp' + length (concat inp') < length inp + length (concat inp)"
  by (cases inp) (auto split: if_splits)

function grep_loop :: "string \<Rightarrow> string \<Rightarrow> string list \<Rightarrow> string list" where
  "grep_loop pattern buf inp =
     (let (r, inp') = read_piece (1024 - length buf - 1) inp
      in if r = [] then []
         else let (out, rest) = grep_lines pattern (buf @ r)
              in out @ grep_loop pattern rest inp')"
  by pat_completeness auto
termination
proof (relation "measure (\<lambda>(pattern, buf, inp). length inp + length (concat inp))", goal_cases)
  case (2 pattern buf inp x r inp' y out rest)
  then show ?case using read_piece_less [of "1024 - length buf - 1" inp r inp'] by simp
qed simp

declare grep_loop.simps [simp del]

definition grep :: "string \<Rightarrow> string list \<Rightarrow> string list" where
  "grep pattern inp = grep_loop pattern [] inp"

text \<open>
  \<open>main\<close>: the exit status and the writes with their descriptors. \<open>op\<close> is what opening a name
  gives: the input behind it, or failure.
\<close>

primrec grep_files :: "(string \<Rightarrow> string list option) \<Rightarrow> string \<Rightarrow> string list \<Rightarrow> nat \<times> (nat \<times> string) list" where
  "grep_files op pattern [] = (0, [])"
| "grep_files op pattern (f # fs) =
     (case op f of
        None \<Rightarrow> (1, [(1, ''grep: cannot open '' @ f @ [NL])])
      | Some inp \<Rightarrow> apsnd ((@) (map (Pair 1) (grep pattern inp))) (grep_files op pattern fs))"

definition grep_main :: "(string \<Rightarrow> string list option) \<Rightarrow> string list \<Rightarrow> string list \<Rightarrow> nat \<times> (nat \<times> string) list" where
  "grep_main op stdin argv =
     (if length argv \<le> 1 then (1, [(2, ''usage: grep pattern [file ...]'' @ [NL])])
      else if length argv \<le> 2 then (0, map (Pair 1) (grep (argv ! 1) stdin))
      else grep_files op (argv ! 1) (drop 2 argv))"

text \<open>The lines of a text that end in a newline, and the unfinished line after them.\<close>

primrec lines_from :: "string \<Rightarrow> string \<Rightarrow> string list" where
  "lines_from l [] = []"
| "lines_from l (x # s) = (if x = NL then l # lines_from [] s else lines_from (l @ [x]) s)"

primrec last_from :: "string \<Rightarrow> string \<Rightarrow> string" where
  "last_from l [] = l"
| "last_from l (x # s) = (if x = NL then last_from [] s else last_from (l @ [x]) s)"

lemma lines_from_append:
  "lines_from l (s @ t) = lines_from l s @ lines_from (last_from l s) t"
  "last_from l (s @ t) = last_from (last_from l s) t"
  by (induction s arbitrary: l) auto

lemma lines_from_no_newline: "NL \<notin> set s \<Longrightarrow> lines_from l s = [] \<and> last_from l s = l @ s"
  by (induction s arbitrary: l) auto

lemma lines_from_longer: "lines_from l s \<noteq> [] \<Longrightarrow> length l \<le> length (hd (lines_from l s))"
  by (induction s arbitrary: l) (auto, metis (no_types) Suc_leD length_append_singleton)

lemma last_from_length: "length (last_from l s) \<le> length l + length s"
proof (induction s arbitrary: l)
  case (Cons x s)
  then show ?case using Cons.IH [of "[]"] Cons.IH [of "l @ [x]"] by simp
qed simp

lemma last_from_subset: "set (last_from l s) \<subseteq> set l \<union> set s"
proof (induction s arbitrary: l)
  case (Cons x s)
  then show ?case using Cons.IH [of "[]"] Cons.IH [of "l @ [x]"] by auto
qed simp

lemma last_from_no_newline: "NL \<notin> set l \<Longrightarrow> NL \<notin> set (last_from l s)"
  by (induction s arbitrary: l) auto

lemma grep_lines_eq:
  "CHR 0x00 \<notin> set p \<Longrightarrow>
   grep_lines pattern p = (map (\<lambda>l. l @ [NL]) (filter (match pattern) (lines_from [] p)), last_from [] p)"
proof (induction pattern p rule: grep_lines.induct)
  case (1 pattern p)
  show ?case
  proof (cases "strchr p NL")
    case None
    then have "NL \<notin> set p" using strchr_None "1.prems" by blast
    then show ?thesis using None lines_from_no_newline [of p "[]"] by (subst grep_lines.simps) simp
  next
    case (Some k)
    note k = strchr_Some [OF Some]
    have n: "CHR 0x00 \<notin> set (drop (k + 1) p)" using "1.prems" in_set_dropD by metis
    have p: "p = take k p @ NL # drop (k + 1) p" using k by (metis Suc_eq_plus1 id_take_nth_drop)
    have l: "lines_from [] p = take k p # lines_from [] (drop (k + 1) p)" "last_from [] p = last_from [] (drop (k + 1) p)"
      using k lines_from_no_newline [of "take k p" "[]"] by (subst p, simp add: lines_from_append)+
    have t: "take (k + 1) p = take k p @ [NL]" using k by (simp add: take_Suc_conv_app_nth)
    show ?thesis
      using "1.IH" [OF Some n] Some l t by (subst grep_lines.simps) simp
  qed
qed


lemma read_piece_concat: "read_piece n inp = (r, rest) \<Longrightarrow> r @ concat rest = concat inp \<and> length r \<le> n"
  by (cases inp) auto

lemma read_piece_nonempty: "read_piece n inp = (r, rest) \<Longrightarrow> [] \<notin> set inp \<Longrightarrow> [] \<notin> set rest"
  by (cases inp) (auto split: if_splits)

lemma read_piece_end: "read_piece n inp = ([], rest) \<Longrightarrow> 0 < n \<Longrightarrow> [] \<notin> set inp \<Longrightarrow> inp = []"
  by (cases inp) (auto split: if_splits)

lemma grep_loop_prints:
  assumes "CHR 0x00 \<notin> set (buf @ concat inp)" "NL \<notin> set buf" "[] \<notin> set inp" "length buf < 1024"
    and "\<forall>l \<in> set (lines_from buf (concat inp)). length l < 1023"
  shows "grep_loop pattern buf inp = map (\<lambda>l. l @ [NL]) (filter (match pattern) (lines_from buf (concat inp)))"
  using assms
proof (induction pattern buf inp rule: grep_loop.induct)
  case (1 pattern buf inp)
  obtain r rest where r: "read_piece (1024 - length buf - 1) inp = (r, rest)" by force
  note c = read_piece_concat [OF r]
  show ?case
  proof (cases "r = []")
    case True
    have "lines_from buf (concat inp) = []" 
    proof (cases "length buf = 1023")
      case True
      show ?thesis
      proof (rule ccontr)
        assume "lines_from buf (concat inp) \<noteq> []"
        then have "length buf \<le> length (hd (lines_from buf (concat inp)))" by (rule lines_from_longer)
        moreover have "hd (lines_from buf (concat inp)) \<in> set (lines_from buf (concat inp))"
          using \<open>lines_from buf (concat inp) \<noteq> []\<close> by (rule hd_in_set)
        ultimately show False using True "1.prems"(5) by fastforce
      qed
    next
      case False
      then have "0 < 1024 - length buf - 1" using "1.prems"(4) by simp
      then have "inp = []" using read_piece_end [OF _ _ "1.prems"(3)] r \<open>r = []\<close> by blast
      then show ?thesis by simp
    qed

    then show ?thesis using True r by (subst grep_loop.simps) simp
  next
    case False
    let ?b = "last_from [] (buf @ r)"
    have n: "CHR 0x00 \<notin> set (buf @ r)" using "1.prems"(1) c by (metis Un_iff set_append)
    have l: "lines_from buf (concat inp) = lines_from [] (buf @ r) @ lines_from ?b (concat rest)"
      using c "1.prems"(2) lines_from_no_newline [of buf "[]"] by (metis append_Nil lines_from_append)
    have g: "(fst (grep_lines pattern (buf @ r)), ?b) = grep_lines pattern (buf @ r)" by (simp add: grep_lines_eq [OF n])
    have "grep_loop pattern ?b rest = map (\<lambda>l. l @ [NL]) (filter (match pattern) (lines_from ?b (concat rest)))"
    proof (rule "1.IH" [OF r [symmetric] refl False g refl])
      have "set (?b @ concat rest) \<subseteq> set (buf @ concat inp)"
        using last_from_subset [of "[]" "buf @ r"] c by (metis Un_mono append_assoc set_append subset_refl sup_bot_left list.set(1))
      then show "CHR 0x00 \<notin> set (?b @ concat rest)" using "1.prems"(1) by blast
      show "length ?b < 1024" using last_from_length [of "[]" "buf @ r"] c "1.prems"(4) by (simp, arith)
      show "[] \<notin> set rest" using read_piece_nonempty [OF r "1.prems"(3)] .
      show "NL \<notin> set ?b" by (simp add: last_from_no_newline)
      show "\<forall>l \<in> set (lines_from ?b (concat rest)). length l < 1023" using "1.prems"(5) l by simp
    qed
    then show ?thesis
      using False r by (subst grep_loop.simps) (simp add: grep_lines_eq [OF n] l)
  qed
qed


text \<open>
  C24: \<open>grep\<close> prints exactly the matching lines, whole and in their order, for every way the
  input is cut into pieces by the reads, provided no line is too long for the buffer and the
  input has no nul byte. What follows the last newline is not printed.
\<close>

theorem grep_prints_matching_lines:
  assumes "CHR 0x00 \<notin> set (concat inp)" "[] \<notin> set inp"
    and "\<forall>l \<in> set (lines_from [] (concat inp)). length l < 1023"
  shows "grep pattern inp = map (\<lambda>l. l @ [NL]) (filter (pattern_matches pattern) (lines_from [] (concat inp)))"
  using grep_loop_prints [of "[]" inp pattern] assms by (simp add: grep_def match_eq)

theorem grep_prints_matching_lines_witness:
  "grep ''^a.*c$'' [''xa'', [CHR ''c'', NL] @ ''ab'', ''bc'' @ [NL, CHR ''c'']] = [''abbc'' @ [NL]]"
proof -
  let ?inp = "[''xa'', [CHR ''c'', NL] @ ''ab'', ''bc'' @ [NL, CHR ''c'']]"
  have l: "lines_from [] (concat ?inp) = [''xac'', ''abbc'']" by simp
  have "grep ''^a.*c$'' ?inp = map (\<lambda>l. l @ [NL]) (filter (pattern_matches ''^a.*c$'') (lines_from [] (concat ?inp)))"
    by (rule grep_prints_matching_lines) (simp_all add: l)
  moreover have "filter (match ''^a.*c$'') [''xac'', ''abbc''] = [''abbc'']" by code_simp
  ultimately show ?thesis by (simp only: l match_eq list.map)
qed

end
