(* ===== verification/Shparse.thy ===== *)
theory Shparse
  imports Ulib Fcntl "HOL-Library.Sublist"
begin

text \<open>
  The parser of the shell, \<^verbatim>\<open>user/sh.c\<close>: tokens, the recursive descent through lines, pipelines,
  commands and redirections, and the termination of the words in the buffer. It is total, and the
  words of the parsed command are the words of the line.
\<close>

section \<open>Tokens\<close>

text \<open>
  A pointer into the command line is the rest of the line from there, so two pointers into the
  same line are equal exactly when their lengths are, and \<open>es\<close> is the empty list.
\<close>

definition whitespace :: string where
  "whitespace = [CHR '' '', CHR 0x09, CHR 0x0D, CHR 0x0A, CHR 0x0B]"

definition symbols :: string where
  "symbols = ''<|>&;()''"

definition is_space :: "char \<Rightarrow> bool" where
  "is_space c \<longleftrightarrow> strchr whitespace c \<noteq> None"

definition is_symbol :: "char \<Rightarrow> bool" where
  "is_symbol c \<longleftrightarrow> strchr symbols c \<noteq> None"

definition skip_space :: "string \<Rightarrow> string" where
  "skip_space s = dropWhile is_space s"

text \<open>The token, where it begins and ends, and the pointer after it and the space that follows.\<close>

definition gettoken :: "string \<Rightarrow> char \<times> (string \<times> string) \<times> string" where
  "gettoken s =
     (let q = skip_space s in
      case q of
        [] \<Rightarrow> (CHR 0x00, (q, q), q)
      | c # r \<Rightarrow>
          let (ret, eq) =
            (if c \<in> {CHR ''|'', CHR ''('', CHR '')'', CHR '';'', CHR ''&'', CHR ''<''} then (c, r)
             else if c = CHR ''>'' then
               (if r \<noteq> [] \<and> hd r = CHR ''>'' then (CHR ''+'', tl r) else (c, r))
             else (CHR ''a'', dropWhile (\<lambda>c. \<not> is_space c \<and> \<not> is_symbol c) q))
          in (ret, (q, eq), skip_space eq))"

definition peek :: "string \<Rightarrow> string \<Rightarrow> bool \<times> string" where
  "peek toks s = (let s = skip_space s in (s \<noteq> [] \<and> strchr toks (hd s) \<noteq> None, s))"

section \<open>Commands\<close>

text \<open>
  The \<open>struct cmd\<close> tree. In the parser a word is the pair of pointers to its beginning and its
  end, afterwards it is a string.
\<close>

datatype 'w cmd = EXEC "'w list" | REDIR "'w cmd" 'w uint32 nat | PIPE "'w cmd" "'w cmd"
  | LIST "'w cmd" "'w cmd" | BACK "'w cmd"

type_synonym word_ptr = "string \<times> string"

definition MAXARGS :: nat where "MAXARGS = 10"

section \<open>The parser\<close>

text \<open>A panic of the shell is \<open>Inl\<close> with its message.\<close>

lemma length_skip: "length (skip_space s) \<le> length s"
  by (simp add: skip_space_def length_dropWhile_le)

lemma is_symbol_iff: "is_symbol c \<longleftrightarrow> c \<in> set symbols"
  by (simp add: is_symbol_def strchr_None symbols_def)

lemma is_space_iff: "is_space c \<longleftrightarrow> c \<in> set whitespace"
  by (simp add: is_space_def strchr_None whitespace_def)

lemma gettoken_less:
  assumes "gettoken s = (t, w, r)"
  shows "length r \<le> length s" "t \<noteq> CHR 0x00 \<Longrightarrow> length r < length s" "skip_space s \<noteq> [] \<Longrightarrow> length r < length s"
proof -
  have "length r \<le> length s \<and> (t \<noteq> CHR 0x00 \<or> skip_space s \<noteq> [] \<longrightarrow> length r < length s)"
  proof (cases "skip_space s")
    case Nil
    then show ?thesis using assms by (auto simp: gettoken_def)
  next
    case (Cons c q)
    have "\<not> is_space c" using Cons by (simp add: skip_space_def dropWhile_eq_Cons_conv)
    then have "length (dropWhile (\<lambda>c. \<not> is_space c \<and> \<not> is_symbol c) (c # q)) \<le> length q" if "\<not> is_symbol c"
      using that by (simp add: length_dropWhile_le)
    then obtain e where "r = skip_space e" "length e \<le> length q"
      using assms Cons by (auto simp: gettoken_def Let_def is_symbol_iff symbols_def split: if_splits)
    then show ?thesis using length_skip [of e] length_skip [of s] Cons by simp
  qed
  then show "length r \<le> length s" "t \<noteq> CHR 0x00 \<Longrightarrow> length r < length s" "skip_space s \<noteq> [] \<Longrightarrow> length r < length s"
    by auto
qed

lemma peek_le: "peek toks s = (b, r) \<Longrightarrow> length r \<le> length s"
  using length_skip [of s] by (auto simp: peek_def Let_def)

text \<open>A word of the line: letters up to a separator.\<close>

definition word_char :: "char \<Rightarrow> bool" where
  "word_char c \<longleftrightarrow> \<not> is_space c \<and> \<not> is_symbol c"

definition word_of :: "string \<Rightarrow> word_ptr \<Rightarrow> bool" where
  "word_of s w \<longleftrightarrow> suffix (fst w) s \<and> (\<exists>u. fst w = u @ snd w \<and> u \<noteq> [] \<and> list_all word_char u) \<and>
     (snd w = [] \<or> \<not> word_char (hd (snd w)))"

lemma word_of_suffix: "word_of s w \<Longrightarrow> suffix s t \<Longrightarrow> word_of t w"
  by (auto simp: word_of_def intro: suffix_order.trans)

lemma suffix_skip [simp]: "suffix (skip_space s) s"
  by (simp add: skip_space_def suffix_dropWhile)

lemma peek_suffix: "peek toks s = (b, r) \<Longrightarrow> suffix r s"
  by (auto simp: peek_def Let_def)

lemma gettoken_suffix:
  assumes "gettoken s = (t, w, r)"
  shows "suffix r s" "t = CHR ''a'' \<Longrightarrow> word_of s w"
proof -
  have "suffix r s \<and> (t = CHR ''a'' \<longrightarrow> word_of s w)"
  proof (cases "skip_space s")
    case Nil
    then show ?thesis using assms by (auto simp: gettoken_def)
  next
    case (Cons c q)
    have c: "suffix (c # q) s" using suffix_skip [of s] Cons by simp
    then have q: "suffix q s" by (rule suffix_ConsD)
    have d: "\<not> is_space c" using Cons by (simp add: skip_space_def dropWhile_eq_Cons_conv)
    have w: "word_of s (c # q, dropWhile word_char (c # q))" if "word_char c"
      using c that dropWhile_eq_Nil_conv hd_dropWhile [of word_char "c # q"]
      by (fastforce simp: word_of_def list_all_iff intro!: exI [of _ "takeWhile word_char (c # q)"] dest: set_takeWhileD)
    have e: "suffix (skip_space e) s" if "suffix e s" for e using that suffix_skip suffix_order.trans by blast
    have tl: "suffix (tl q) s" using q by (cases q) (auto dest: suffix_ConsD)
    have dw: "suffix (dropWhile word_char (c # q)) s" using c suffix_dropWhile suffix_order.trans by blast
    have wc: "(\<lambda>c. \<not> is_space c \<and> \<not> is_symbol c) = word_char" by (auto simp: word_char_def)
    consider "c \<in> {CHR ''|'', CHR ''('', CHR '')'', CHR '';'', CHR ''&'', CHR ''<''}" | "c = CHR ''>''" | "word_char c"
      using d by (auto simp: word_char_def is_symbol_iff symbols_def)
    then show ?thesis
    proof cases
      case 1
      then show ?thesis using assms Cons e [OF q] by (auto simp: gettoken_def)
    next
      case 2
      then show ?thesis using assms Cons e [OF q] e [OF tl] by (auto simp: gettoken_def split: if_splits)
    next
      case 3
      then have "c \<notin> set symbols" by (simp add: word_char_def is_symbol_iff)
      then show ?thesis using assms Cons e [OF dw] w [OF 3] by (auto simp: gettoken_def wc symbols_def Let_def)
    qed
  qed
  then show "suffix r s" "t = CHR ''a'' \<Longrightarrow> word_of s w" by auto
qed

text \<open>
  \<open>parseredirs\<close> wraps its command in one \<open>redircmd\<close> after the other; here it gives the list of
  them, and \<open>wrap\<close> puts them around a command. \<open>parseexec\<close> adds arguments to the inner command
  after redirections have been put around it, so it collects both.
\<close>

type_synonym redir = "word_ptr \<times> uint32 \<times> nat"

definition wrap :: "('w \<times> uint32 \<times> nat) list \<Rightarrow> 'w cmd \<Rightarrow> 'w cmd" where
  "wrap rs c = fold (\<lambda>(f, mode, fd) c. REDIR c f mode fd) rs c"

definition redir_of :: "char \<Rightarrow> word_ptr \<Rightarrow> redir" where
  "redir_of tok w =
     (if tok = CHR ''<'' then (w, O_RDONLY, 0)
      else if tok = CHR ''>'' then (w, O_WRONLY OR O_CREATE OR O_TRUNC, 1)
      else (w, O_WRONLY OR O_CREATE, 1))"

lemma redir_less:
  "peek toks s = (b, s') \<Longrightarrow> gettoken s' = (tok, w', s1) \<Longrightarrow> gettoken s1 = (CHR ''a'', w, s2) \<Longrightarrow> length s2 < length s"
  using peek_le [of toks s b s'] gettoken_less [of s' tok w' s1] gettoken_less [of s1 "CHR ''a''" w s2] by simp

function parseredirs :: "string \<Rightarrow> string + redir list \<times> string" where
  "parseredirs s =
     (let (found, s') = peek ''<>'' s in
      if found then
        let (tok, _, s1) = gettoken s'; (tok2, w, s2) = gettoken s1 in
        if tok2 \<noteq> CHR ''a'' then Inl ''missing file for redirection''
        else map_sum id (apfst ((#) (redir_of tok w))) (parseredirs s2)
      else Inr ([], s'))"
  by pat_completeness auto
termination
  by (relation "measure length") (simp, simp, metis redir_less)

declare parseredirs.simps [simp del]

lemma parseredirs_eq:
  assumes "peek ''<>'' s = (True, s')" "gettoken s' = (tok, w', s1)" "gettoken s1 = (tok2, w, s2)"
  shows "parseredirs s = (if tok2 \<noteq> CHR ''a'' then Inl ''missing file for redirection''
     else map_sum id (apfst ((#) (redir_of tok w))) (parseredirs s2))"
  using assms by (subst parseredirs.simps) simp

lemma parseredirs_words:
  "parseredirs s = Inr (rs, r) \<Longrightarrow> suffix r s \<and> (\<forall>x \<in> set rs. word_of s (fst x))"
proof (induction s arbitrary: rs r rule: parseredirs.induct)
  case (1 s)
  obtain found s' where p: "peek ''<>'' s = (found, s')" by force
  obtain tok w' s1 where t1: "gettoken s' = (tok, w', s1)" by (cases "gettoken s'") auto
  obtain tok2 w s2 where t2: "gettoken s1 = (tok2, w, s2)" by (cases "gettoken s1") auto
  have sf: "suffix s' s" "suffix s1 s" "suffix s2 s"
    using peek_suffix [OF p] gettoken_suffix(1) [OF t1] gettoken_suffix(1) [OF t2] suffix_order.trans by blast+
  show ?case
  proof (cases found)
    case True
    then obtain rs' where r: "tok2 = CHR ''a''" "parseredirs s2 = Inr (rs', r)" "rs = redir_of tok w # rs'"
      using "1.prems" parseredirs_eq [OF _ t1 t2, of s] p by (cases "parseredirs s2") (auto split: if_splits)
    have "suffix r s2" "\<forall>x \<in> set rs'. word_of s2 (fst x)"
      using 1(1) [OF p [symmetric] refl True] t1 t2 r by auto
    moreover have "word_of s w" using gettoken_suffix(2) [OF t2 r(1)] sf(2) by (rule word_of_suffix)
    moreover have "fst (redir_of tok w) = w" by (simp add: redir_of_def)
    ultimately show ?thesis using r(3) sf word_of_suffix suffix_order.trans by auto
  next
    case False
    then show ?thesis using "1.prems" sf(1) by (subst (asm) parseredirs.simps) (simp add: p)
  qed
qed

lemma parseredirs_le: "parseredirs s = Inr (rs, r) \<Longrightarrow> length r \<le> length s"
  using parseredirs_words suffix_length_le by blast

lemma arg_less:
  "peek toks s = (b, s') \<Longrightarrow> gettoken s' = (CHR ''a'', w, s1) \<Longrightarrow> parseredirs s1 = Inr (rs, s2) \<Longrightarrow>
     length s2 < length s"
  using peek_le [of toks s b s'] gettoken_less [of s' "CHR ''a''" w s1] parseredirs_le [of s1 rs s2] by simp

text \<open>The loop of \<open>parseexec\<close>: the arguments, the redirections between them, and the rest.\<close>

function parseargs :: "nat \<Rightarrow> string \<Rightarrow> string + (word_ptr list \<times> redir list) \<times> string" where
  "parseargs argc s =
     (let (found, s') = peek ''|)&;'' s in
      if found then Inr (([], []), s')
      else
        let (tok, w, s1) = gettoken s' in
        if tok = CHR 0x00 then Inr (([], []), s1)
        else if tok \<noteq> CHR ''a'' then Inl ''syntax''
        else if argc + 1 \<ge> MAXARGS then Inl ''too many args''
        else case parseredirs s1 of
            Inl e \<Rightarrow> Inl e
          | Inr (rs, s2) \<Rightarrow> map_sum id (apfst (\<lambda>(ws, rs'). (w # ws, rs @ rs'))) (parseargs (argc + 1) s2))"
  by pat_completeness auto
termination
  by (relation "measure (\<lambda>(argc, s). length s)")
    (simp, simp, metis arg_less)

declare parseargs.simps [simp del]

lemma skip_space_idem [simp]: "skip_space (skip_space s) = skip_space s"
  by (simp add: skip_space_def dropWhile_idem)

lemma peek_token_less:
  assumes "peek toks s = (True, s')" "gettoken s' = (t, w, r)"
  shows "length r < length s"
proof -
  have "s' = skip_space s" "s' \<noteq> []" using assms(1) by (auto simp: peek_def Let_def)
  then show ?thesis using gettoken_less(3) [OF assms(2)] length_skip [of s] by simp
qed

text \<open>The loop of \<open>parseline\<close>.\<close>

function parsebacks :: "'w cmd \<Rightarrow> string \<Rightarrow> 'w cmd \<times> string" where
  "parsebacks c s =
     (let (found, s') = peek ''&'' s in
      if found then let (_, _, s1) = gettoken s' in parsebacks (BACK c) s1 else (c, s'))"
  by pat_completeness auto
termination
  by (relation "measure (\<lambda>(c, s). length s)") (simp, simp, metis peek_token_less)

declare parsebacks.simps [simp del]

text \<open>
  The mutually recursive functions. The recursion is not structural, so they count down a number;
  \<open>None\<close> is reaching 0, which \<open>parsecmd\<close> never does.
\<close>

type_synonym 'a parsed = "(string + 'a \<times> string) option"

definition and_then :: "'a parsed \<Rightarrow> ('a \<Rightarrow> string \<Rightarrow> 'b parsed) \<Rightarrow> 'b parsed" where
  "and_then r f = (case r of None \<Rightarrow> None | Some (Inl e) \<Rightarrow> Some (Inl e) | Some (Inr (a, s)) \<Rightarrow> f a s)"

fun parseline :: "nat \<Rightarrow> string \<Rightarrow> word_ptr cmd parsed"
  and parsepipe :: "nat \<Rightarrow> string \<Rightarrow> word_ptr cmd parsed"
  and parseexec :: "nat \<Rightarrow> string \<Rightarrow> word_ptr cmd parsed"
  and parseblock :: "nat \<Rightarrow> string \<Rightarrow> word_ptr cmd parsed" where
  "parseline 0 s = None"
| "parseline (Suc n) s =
     and_then (parsepipe n s) (\<lambda>c s.
       let (c, s) = parsebacks c s; (found, s) = peek '';'' s in
       if found then
         let (_, _, s) = gettoken s in
         and_then (parseline n s) (\<lambda>d s. Some (Inr (LIST c d, s)))
       else Some (Inr (c, s)))"
| "parsepipe 0 s = None"
| "parsepipe (Suc n) s =
     and_then (parseexec n s) (\<lambda>c s.
       let (found, s) = peek ''|'' s in
       if found then
         let (_, _, s) = gettoken s in
         and_then (parsepipe n s) (\<lambda>d s. Some (Inr (PIPE c d, s)))
       else Some (Inr (c, s)))"
| "parseexec 0 s = None"
| "parseexec (Suc n) s =
     (let (found, s) = peek ''('' s in
      if found then parseblock n s
      else
        and_then (Some (parseredirs s)) (\<lambda>rs s.
        and_then (Some (parseargs 0 s)) (\<lambda>(ws, rs') s.
        Some (Inr (wrap (rs @ rs') (EXEC ws), s)))))"
| "parseblock 0 s = None"
| "parseblock (Suc n) s =
     (let (found, s) = peek ''('' s in
      if \<not> found then Some (Inl ''parseblock'')
      else
        let (_, _, s) = gettoken s in
        and_then (parseline n s) (\<lambda>c s.
          let (found, s) = peek '')'' s in
          if \<not> found then Some (Inl ''syntax - missing )'')
          else
            let (_, _, s) = gettoken s in
            and_then (Some (parseredirs s)) (\<lambda>rs s. Some (Inr (wrap rs c, s)))))"

definition parsecmd :: "string \<Rightarrow> (string + word_ptr cmd) option" where
  "parsecmd s =
     (case parseline (4 * length s + 4) s of
        None \<Rightarrow> None
      | Some (Inl e) \<Rightarrow> Some (Inl e)
      | Some (Inr (c, s)) \<Rightarrow>
          let (_, s) = peek [] s in
          if s \<noteq> [] then Some (Inl (''leftovers: '' @ s @ [CHR 0x0A] @ ''syntax'')) else Some (Inr c))"

text \<open>
  \<open>nulterminate\<close> writes a nul byte at the end of every word. \<open>m\<close> is the buffer, with the line at
  offset 0 and the length of the line \<open>len\<close>; \<open>cstring\<close> is the string that begins at an offset.
\<close>

definition put_nul :: "nat \<Rightarrow> word_ptr \<Rightarrow> (nat \<Rightarrow> char) \<Rightarrow> nat \<Rightarrow> char" where
  "put_nul len w m = m(len - length (snd w) := CHR 0x00)"

primrec nulterminate :: "nat \<Rightarrow> word_ptr cmd \<Rightarrow> (nat \<Rightarrow> char) \<Rightarrow> nat \<Rightarrow> char" where
  "nulterminate len (EXEC ws) m = fold (put_nul len) ws m"
| "nulterminate len (REDIR c f mode fd) m = put_nul len f (nulterminate len c m)"
| "nulterminate len (PIPE c d) m = nulterminate len d (nulterminate len c m)"
| "nulterminate len (LIST c d) m = nulterminate len d (nulterminate len c m)"
| "nulterminate len (BACK c) m = nulterminate len c m"

definition cstring :: "nat \<Rightarrow> (nat \<Rightarrow> char) \<Rightarrow> nat \<Rightarrow> string" where
  "cstring len m a = takeWhile (\<lambda>c. c \<noteq> CHR 0x00) (map m [a..<Suc len])"

definition line_buf :: "string \<Rightarrow> nat \<Rightarrow> char" where
  "line_buf s i = (if i < length s then s ! i else CHR 0x00)"

text \<open>The command with the strings its pointers point to.\<close>

definition strings :: "string \<Rightarrow> word_ptr cmd \<Rightarrow> string cmd" where
  "strings s c = map_cmd (\<lambda>(q, eq). cstring (length s) (nulterminate (length s) c (line_buf s)) (length s - length q)) c"

section \<open>Every word of a parsed command is a word of the line\<close>

lemma parseargs_eq:
  assumes "peek ''|)&;'' s = (found, s')" "gettoken s' = (tok, w, s1)"
  shows "parseargs argc s =
     (if found then Inr (([], []), s')
      else if tok = CHR 0x00 then Inr (([], []), s1)
      else if tok \<noteq> CHR ''a'' then Inl ''syntax''
      else if argc + 1 \<ge> MAXARGS then Inl ''too many args''
      else case parseredirs s1 of
          Inl e \<Rightarrow> Inl e
        | Inr (rs, s2) \<Rightarrow> map_sum id (apfst (\<lambda>(ws, rs'). (w # ws, rs @ rs'))) (parseargs (argc + 1) s2))"
  using assms by (subst parseargs.simps) simp

lemma parseargs_words:
  "parseargs argc s = Inr ((ws, rs), r) \<Longrightarrow>
     suffix r s \<and> (\<forall>x \<in> set ws. word_of s x) \<and> (\<forall>x \<in> set rs. word_of s (fst x))"
proof (induction s arbitrary: argc ws rs r rule: measure_induct_rule [where f = length])
  case (less s)
  obtain found s' where p: "peek ''|)&;'' s = (found, s')" by force
  obtain tok w s1 where t: "gettoken s' = (tok, w, s1)" by (cases "gettoken s'") auto
  have sf: "suffix s' s" "suffix s1 s"
    using peek_suffix [OF p] gettoken_suffix(1) [OF t] suffix_order.trans by blast+
  note eq = parseargs_eq [OF p t, of argc]
  show ?case
  proof (cases "found \<or> tok = CHR 0x00")
    case True
    then show ?thesis using less.prems sf by (auto simp: eq split: if_splits)
  next
    case False
    then have "tok = CHR ''a''" "\<not> argc + 1 \<ge> MAXARGS" using less.prems by (auto simp: eq split: if_splits)
    moreover obtain rs1 s2 where r1: "parseredirs s1 = Inr (rs1, s2)"
      using False calculation less.prems by (cases "parseredirs s1") (auto simp: eq)
    moreover obtain ws2 rs2 where r2: "parseargs (argc + 1) s2 = Inr ((ws2, rs2), r)" "ws = w # ws2" "rs = rs1 @ rs2"
      using False calculation less.prems by (cases "parseargs (argc + 1) s2") (auto simp: eq)
    ultimately have "suffix r s2 \<and> (\<forall>x \<in> set ws2. word_of s2 x) \<and> (\<forall>x \<in> set rs2. word_of s2 (fst x))"
      using less.IH [OF arg_less [OF p]] t by blast
    moreover have "suffix s2 s" "\<forall>x \<in> set rs1. word_of s (fst x)"
      using parseredirs_words [OF r1] sf(2) word_of_suffix suffix_order.trans by blast+
    moreover have "word_of s w"
      using gettoken_suffix(2) [OF t \<open>tok = CHR ''a''\<close>] sf(1) by (rule word_of_suffix)
    ultimately show ?thesis using r2 word_of_suffix suffix_order.trans by auto
  qed
qed

lemma parsebacks_words: "parsebacks c s = (d, r) \<Longrightarrow> suffix r s \<and> set_cmd d = set_cmd c"
proof (induction c s rule: parsebacks.induct)
  case (1 c s)
  obtain found s' where p: "peek ''&'' s = (found, s')" by force
  obtain tok w s1 where t: "gettoken s' = (tok, w, s1)" by (cases "gettoken s'") auto
  have sf: "suffix s' s" "suffix s1 s"
    using peek_suffix [OF p] gettoken_suffix(1) [OF t] suffix_order.trans by blast+
  have eq: "parsebacks c s = (if found then parsebacks (BACK c) s1 else (c, s'))"
    by (subst parsebacks.simps) (simp add: p t)
  show ?case
  proof (cases found)
    case True
    then have "suffix r s1 \<and> set_cmd d = set_cmd (BACK c)"
      using 1(1) [OF p [symmetric] refl True t [symmetric] refl] "1.prems" eq by (simp add: t)
    then show ?thesis using sf suffix_order.trans by auto
  qed (use "1.prems" eq sf in auto)
qed

lemma and_thenE:
  assumes "and_then x f = Some (Inr y)"
  obtains a s where "x = Some (Inr (a, s))" "f a s = Some (Inr y)"
  using assms by (auto simp: and_then_def split: option.splits sum.splits)

definition words_of :: "string \<Rightarrow> word_ptr cmd \<Rightarrow> string \<Rightarrow> bool" where
  "words_of s c r \<longleftrightarrow> suffix r s \<and> (\<forall>x \<in> set_cmd c. word_of s x)"

lemma words_of_trans: "words_of s' c r \<Longrightarrow> suffix s' s \<Longrightarrow> words_of s c r"
  by (auto simp: words_of_def intro: word_of_suffix suffix_order.trans)

lemma set_cmd_wrap: "set_cmd (wrap rs c) = set_cmd c \<union> fst ` set rs"
  by (induction rs arbitrary: c) (auto simp: wrap_def)

lemma token_after_peek: "peek toks s = (b, s') \<Longrightarrow> gettoken s' = (t, w, r) \<Longrightarrow> suffix r s"
  using peek_suffix gettoken_suffix(1) suffix_order.trans by blast

lemma parse_words:
  "parseline n s = Some (Inr (c, r)) \<Longrightarrow> words_of s c r"
  "parsepipe n s = Some (Inr (c, r)) \<Longrightarrow> words_of s c r"
  "parseexec n s = Some (Inr (c, r)) \<Longrightarrow> words_of s c r"
  "parseblock n s = Some (Inr (c, r)) \<Longrightarrow> words_of s c r"
proof (induction n arbitrary: s c r)
  case (Suc n)
  { case 1
    then obtain c1 s1 where a: "parsepipe n s = Some (Inr (c1, s1))"
      and f: "(let (c, s) = parsebacks c1 s1; (found, s) = peek '';'' s in
         if found then let (_, _, s) = gettoken s in and_then (parseline n s) (\<lambda>d s. Some (Inr (LIST c d, s)))
         else Some (Inr (c, s))) = Some (Inr (c, r))" by (auto elim: and_thenE)
    obtain c2 s2 where b: "parsebacks c1 s1 = (c2, s2)" by force
    obtain found s3 where p: "peek '';'' s2 = (found, s3)" by force
    obtain tok w s4 where t: "gettoken s3 = (tok, w, s4)" by (cases "gettoken s3") auto
    have w: "words_of s c2 s2" using Suc.IH(2) [OF a] parsebacks_words [OF b] by (auto simp: words_of_def intro: suffix_order.trans)
    then show ?case
      using f b p t Suc.IH(1) [of s4] words_of_trans [of s4 _ _ s] token_after_peek [OF p t] peek_suffix [OF p]
      by (auto simp: words_of_def split: if_splits elim!: and_thenE intro: suffix_order.trans)
  next
    case 2
    then obtain c1 s1 where a: "parseexec n s = Some (Inr (c1, s1))"
      and f: "(let (found, s) = peek ''|'' s1 in
         if found then let (_, _, s) = gettoken s in and_then (parsepipe n s) (\<lambda>d s. Some (Inr (PIPE c1 d, s)))
         else Some (Inr (c1, s))) = Some (Inr (c, r))" by (auto elim: and_thenE)
    obtain found s3 where p: "peek ''|'' s1 = (found, s3)" by force
    obtain tok w s4 where t: "gettoken s3 = (tok, w, s4)" by (cases "gettoken s3") auto
    show ?case
      using f p t Suc.IH(3) [OF a] Suc.IH(2) [of s4] words_of_trans [of s4 _ _ s] token_after_peek [OF p t] peek_suffix [OF p]
      by (auto simp: words_of_def split: if_splits elim!: and_thenE intro: suffix_order.trans)
  next
    case 3
    obtain found s1 where p: "peek ''('' s = (found, s1)" by force
    show ?case
    proof (cases found)
      case True
      then have "parseblock n s1 = Some (Inr (c, r))" using 3 p by simp
      then show ?thesis using Suc.IH(4) words_of_trans peek_suffix [OF p] by blast
    next
      case False
      then obtain rs s2 ws rs' where a: "parseredirs s1 = Inr (rs, s2)" "parseargs 0 s2 = Inr ((ws, rs'), r)"
        "c = wrap (rs @ rs') (EXEC ws)" using 3 p by (auto elim!: and_thenE)
      have s2: "suffix s2 s" using parseredirs_words [OF a(1)] peek_suffix [OF p] suffix_order.trans by blast
      have "\<forall>x \<in> set rs. word_of s (fst x)"
        using parseredirs_words [OF a(1)] peek_suffix [OF p] word_of_suffix by blast
      moreover have "suffix r s" "\<forall>x \<in> set ws. word_of s x" "\<forall>x \<in> set rs'. word_of s (fst x)"
        using parseargs_words [OF a(2)] s2 word_of_suffix suffix_order.trans by blast+
      ultimately show ?thesis using a(3) by (auto simp: words_of_def set_cmd_wrap)
    qed
  next
    case 4
    obtain found s1 where p: "peek ''('' s = (found, s1)" by force
    obtain tok w s2 where t: "gettoken s1 = (tok, w, s2)" by (cases "gettoken s1") auto
    obtain c1 s3 where l: "parseline n s2 = Some (Inr (c1, s3))"
      using 4 p t by (auto split: if_splits elim!: and_thenE)
    obtain found' s4 where p': "peek '')'' s3 = (found', s4)" by force
    obtain tok' w' s5 where t': "gettoken s4 = (tok', w', s5)" by (cases "gettoken s4") auto
    obtain rs where rs: "parseredirs s5 = Inr (rs, r)" "c = wrap rs c1"
      using 4 p t l p' t' by (auto simp: and_then_def split: if_splits sum.splits)
    have s: "suffix s2 s" using token_after_peek [OF p t] .
    moreover have w: "words_of s2 c1 s3" using Suc.IH(1) [OF l] .
    ultimately have "suffix s5 s" using token_after_peek [OF p' t'] by (auto simp: words_of_def intro: suffix_order.trans)
    then have "suffix r s" "\<forall>x \<in> set rs. word_of s (fst x)"
      using parseredirs_words [OF rs(1)] word_of_suffix suffix_order.trans by blast+
    then show ?case using s w rs(2) by (auto simp: words_of_def set_cmd_wrap intro: word_of_suffix)
  }
qed simp_all

section \<open>The parser always returns\<close>

lemma and_then_Inr [simp]: "and_then (Some (Inr (a, s))) f = f a s"
  by (simp add: and_then_def)

lemma and_then_None: "and_then x f = None \<longleftrightarrow> x = None \<or> (\<exists>a s. x = Some (Inr (a, s)) \<and> f a s = None)"
  by (auto simp: and_then_def split: option.splits sum.splits)

lemma words_of_length: "words_of s c r \<Longrightarrow> length r \<le> length s"
  by (simp add: words_of_def suffix_length_le)

lemma parse_returns:
  "4 * length s + 4 \<le> n \<Longrightarrow> parseline n s \<noteq> None"
  "4 * length s + 3 \<le> n \<Longrightarrow> parsepipe n s \<noteq> None"
  "4 * length s + 2 \<le> n \<Longrightarrow> parseexec n s \<noteq> None"
  "4 * length s + 1 \<le> n \<Longrightarrow> parseblock n s \<noteq> None"
proof (induction n arbitrary: s)
  case (Suc n)
  { case 1
    have "parseline n s4 \<noteq> None"
      if "parsepipe n s = Some (Inr (c1, s1))" "parsebacks c1 s1 = (c2, s2)" "peek '';'' s2 = (True, s3)"
        "gettoken s3 = (t, w, s4)" for c1 s1 c2 s2 s3 t w s4
    proof -
      have "length s1 \<le> length s" using parse_words(2) [OF that(1)] by (rule words_of_length)
      moreover have "length s2 \<le> length s1" using parsebacks_words [OF that(2)] suffix_length_le by blast
      ultimately have "4 * length s4 + 4 \<le> n" using peek_token_less [OF that(3,4)] 1 by linarith
      then show ?thesis by (rule Suc.IH(1))
    qed
    moreover have "parsepipe n s \<noteq> None" using Suc.IH(2) [of s] 1 by simp
    ultimately show ?case by (auto simp: and_then_None Let_def simp del: not_None_eq split: prod.splits if_splits)
  next
    case 2
    have "parsepipe n s4 \<noteq> None"
      if "parseexec n s = Some (Inr (c1, s1))" "peek ''|'' s1 = (True, s3)" "gettoken s3 = (t, w, s4)" for c1 s1 s3 t w s4
    proof -
      have "length s1 \<le> length s" using parse_words(3) [OF that(1)] by (rule words_of_length)
      then have "4 * length s4 + 3 \<le> n" using peek_token_less [OF that(2,3)] 2 by linarith
      then show ?thesis by (rule Suc.IH(2))
    qed
    moreover have "parseexec n s \<noteq> None" using Suc.IH(3) [of s] 2 by simp
    ultimately show ?case by (auto simp: and_then_None Let_def simp del: not_None_eq split: prod.splits if_splits)
  next
    case 3
    have "parseblock n s1 \<noteq> None" if "peek ''('' s = (True, s1)" for s1
      using Suc.IH(4) [of s1] peek_le [OF that] 3 by simp
    then show ?case by (auto simp: and_then_None Let_def simp del: not_None_eq split: prod.splits if_splits)
  next
    case 4
    have "parseline n s2 \<noteq> None" if "peek ''('' s = (True, s1)" "gettoken s1 = (t, w, s2)" for s1 t w s2
      using Suc.IH(1) [of s2] peek_token_less [OF that] 4 by simp
    then show ?case by (auto simp: and_then_None Let_def simp del: not_None_eq split: prod.splits if_splits)
  }
qed simp_all

section \<open>Terminating the words\<close>

definition word_text :: "word_ptr \<Rightarrow> string" where
  "word_text w = take (length (fst w) - length (snd w)) (fst w)"

lemma nulterminate_eq:
  "nulterminate len c m i = (if \<exists>x \<in> set_cmd c. i = len - length (snd x) then CHR 0x00 else m i)"
proof (induction c arbitrary: m)
  case (EXEC ws)
  have "fold (put_nul len) ws m i = (if \<exists>x \<in> set ws. i = len - length (snd x) then CHR 0x00 else m i)"
    by (induction ws arbitrary: m) (auto simp: put_nul_def)
  then show ?case by simp
qed (auto simp: put_nul_def)

lemma suffix_nth: "suffix q s \<Longrightarrow> j < length q \<Longrightarrow> s ! (length s - length q + j) = q ! j"
  by (auto simp: suffix_def nth_append)

text \<open>A separator is never inside a word, so no word is cut short.\<close>

lemma cstring_word:
  assumes nul: "CHR 0x00 \<notin> set s" and ok: "\<forall>x \<in> set_cmd c. word_of s x" and w: "w \<in> set_cmd c"
  shows "cstring (length s) (nulterminate (length s) c (line_buf s)) (length s - length (fst w)) = word_text w"
proof -
  let ?m = "nulterminate (length s) c (line_buf s)" and ?a = "length s - length (fst w)"
  obtain u where u: "fst w = u @ snd w" "u \<noteq> []" "list_all word_char u" and sf: "suffix (fst w) s"
    using ok w by (auto simp: word_of_def)
  have len: "length (fst w) \<le> length s" using sf by (rule suffix_length_le)
  have in_word: "?m (?a + j) = u ! j" if "j < length u" for j
  proof -
    have sj: "s ! (?a + j) = u ! j" using suffix_nth [OF sf, of j] that u(1) by (simp add: nth_append)
    have "?a + j \<noteq> length s - length (snd x)" if x: "x \<in> set_cmd c" for x
    proof
      assume e: "?a + j = length s - length (snd x)"
      obtain v where v: "fst x = v @ snd x" "suffix (fst x) s" "snd x = [] \<or> \<not> word_char (hd (snd x))"
        using ok x by (auto simp: word_of_def)
      then have sx: "suffix (snd x) s" by (metis suffixI suffix_order.trans)
      have "snd x \<noteq> []" using e len \<open>j < length u\<close> u(1) by auto
      then have "s ! (?a + j) = hd (snd x)" using suffix_nth [OF sx, of 0] e by (simp add: hd_conv_nth)
      then show False using v(3) \<open>snd x \<noteq> []\<close> sj u(3) \<open>j < length u\<close> by (auto simp: list_all_length)
    qed
    then show ?thesis using sj len that u(1) by (auto simp: nulterminate_eq line_buf_def)
  qed
  have at_end: "?m (?a + length u) = CHR 0x00"
    using w len u(1) by (auto simp: nulterminate_eq intro!: bexI [of _ w])
  have "map ?m [?a..<Suc (length s)] = map (\<lambda>j. ?m (?a + j)) [0..<Suc (length (fst w))]"
    using len by (intro nth_equalityI) (auto simp del: upt_Suc)
  also have "[0..<Suc (length (fst w))] = [0..<length u] @ length u # [Suc (length u)..<Suc (length (fst w))]"
    using u(1) upt_add_eq_append [of 0 "length u" "Suc (length (snd w))"] by (simp add: upt_conv_Cons del: upt_Suc)
  finally have m: "map ?m [?a..<Suc (length s)] =
      map (\<lambda>j. ?m (?a + j)) [0..<length u] @ CHR 0x00 # map (\<lambda>j. ?m (?a + j)) [Suc (length u)..<Suc (length (fst w))]"
    by (simp only: map_append list.map at_end)
  have "map (\<lambda>j. ?m (?a + j)) [0..<length u] = u" using in_word by (intro nth_equalityI) auto
  moreover have "\<forall>x \<in> set u. x \<noteq> CHR 0x00" using nul sf u(1) by (metis Un_iff set_append set_mono_suffix subsetD)
  ultimately show ?thesis using u(1) unfolding cstring_def m word_text_def by (simp add: takeWhile_append2)
qed

lemma strings_eq:
  assumes "CHR 0x00 \<notin> set s" "\<forall>x \<in> set_cmd c. word_of s x"
  shows "strings s c = map_cmd word_text c"
  unfolding strings_def by (rule cmd.map_cong) (use cstring_word [OF assms] in auto)

text \<open>
  C26: every command line is parsed or rejected with a message; the parser never runs on. Of a line
  that is parsed, each argument and each file name, as the strings that the nul bytes written by
  \<open>nulterminate\<close> leave in the buffer, is exactly a maximal word of the line.
\<close>

theorem parsecmd_returns:
  assumes "CHR 0x00 \<notin> set s"
  shows "\<exists>r. parsecmd s = Some r \<and>
    (\<forall>c. r = Inr c \<longrightarrow> (\<forall>w \<in> set_cmd c. word_of s w) \<and> strings s c = map_cmd word_text c)"
proof -
  have "parseline (4 * length s + 4) s \<noteq> None" by (rule parse_returns(1)) simp
  then obtain r where r: "parseline (4 * length s + 4) s = Some r" by blast
  show ?thesis
  proof (cases r)
    case (Inl e)
    then show ?thesis using r by (simp add: parsecmd_def)
  next
    case (Inr x)
    then obtain c s' where "r = Inr (c, s')" by (cases x) auto
    moreover then have "\<forall>w \<in> set_cmd c. word_of s w" using parse_words(1) r by (auto simp: words_of_def)
    ultimately show ?thesis using r strings_eq [OF assms] by (simp add: parsecmd_def split: prod.split)
  qed
qed

theorem parsecmd_returns_witness: "\<exists>r. parsecmd ''(ls|wc>x;'' = Some r"
  using parsecmd_returns [of "''(ls|wc>x;''"] by auto

end
