(* ===== verification/Shprint.thy ===== *)
theory Shprint
  imports Shparse
begin

text \<open>
  A printer for the shell's commands, and that the parser of \<^verbatim>\<open>user/sh.c\<close> reads back what it prints.
\<close>

section \<open>The printer\<close>

text \<open>
  Parentheses stand where the grammar needs them: level 0 is a line, 1 what may stand before
  \<open>&\<close> and \<open>;\<close>, 2 a pipeline and 3 a part of one.
\<close>

definition parens :: "bool \<Rightarrow> string \<Rightarrow> string" where
  "parens b s = (if b then ''( '' @ s @ '') '' else s)"

definition redir_symbol :: "uint32 \<Rightarrow> string" where
  "redir_symbol mode = (if mode = O_RDONLY then ''<'' else if mode = O_WRONLY OR O_CREATE OR O_TRUNC then ''>'' else ''>>'')"

primrec show_cmd :: "string cmd \<Rightarrow> nat \<Rightarrow> string" where
  "show_cmd (EXEC ws) k = concat (map (\<lambda>w. w @ '' '') ws)"
| "show_cmd (REDIR c f mode fd) k = show_cmd c 3 @ redir_symbol mode @ '' '' @ f @ '' ''"
| "show_cmd (PIPE c d) k = parens (k \<ge> 3) (show_cmd c 3 @ ''| '' @ show_cmd d 2)"
| "show_cmd (LIST c d) k = parens (k \<ge> 1) (show_cmd c 1 @ ''; '' @ show_cmd d 0)"
| "show_cmd (BACK c) k = parens (k \<ge> 2) (show_cmd c 1 @ ''& '')"

text \<open>The commands that can be written: words are words, and there are not too many of them.\<close>

definition word_ok :: "string \<Rightarrow> bool" where
  "word_ok w \<longleftrightarrow> w \<noteq> [] \<and> list_all (\<lambda>c. word_char c \<and> c \<noteq> CHR 0x00) w"

primrec cmd_ok :: "string cmd \<Rightarrow> bool" where
  "cmd_ok (EXEC ws) \<longleftrightarrow> list_all word_ok ws \<and> length ws < MAXARGS"
| "cmd_ok (REDIR c f mode fd) \<longleftrightarrow> cmd_ok c \<and> word_ok f \<and>
     (mode, fd) \<in> {(O_RDONLY, 0), (O_WRONLY OR O_CREATE OR O_TRUNC, 1), (O_WRONLY OR O_CREATE, 1)}"
| "cmd_ok (PIPE c d) \<longleftrightarrow> cmd_ok c \<and> cmd_ok d"
| "cmd_ok (LIST c d) \<longleftrightarrow> cmd_ok c \<and> cmd_ok d"
| "cmd_ok (BACK c) \<longleftrightarrow> cmd_ok c"

text \<open>The parser does not see space in front of a token.\<close>

definition followed :: "string \<Rightarrow> string \<Rightarrow> bool" where
  "followed toks r \<longleftrightarrow> skip_space r = [] \<or> hd (skip_space r) \<in> set toks"

lemma skip_simps [simp]: "skip_space [] = []" "skip_space (c # r) = (if is_space c then skip_space r else c # r)"
  by (simp_all add: skip_space_def)

lemma peek_eq:
  "NUL \<notin> set toks \<Longrightarrow> peek toks s = (skip_space s \<noteq> [] \<and> hd (skip_space s) \<in> set toks, skip_space s)"
  using strchr_None [of toks "hd (skip_space s)"] by (auto simp: peek_def Let_def)

lemma peek_skip [simp]: "peek toks (skip_space s) = peek toks s"
  by (simp add: peek_def)

lemma gettoken_skip [simp]: "gettoken (skip_space s) = gettoken s"
  by (simp add: gettoken_def)

lemma parseredirs_skip [simp]: "parseredirs (skip_space s) = parseredirs s"
  by (subst parseredirs.simps, subst (2) parseredirs.simps) simp

lemma parseargs_skip [simp]: "parseargs argc (skip_space s) = parseargs argc s"
  by (subst parseargs.simps, subst (2) parseargs.simps) simp

lemma parsebacks_skip [simp]: "parsebacks c (skip_space s) = parsebacks c s"
  by (simp add: parsebacks.simps [of c s] parsebacks.simps [of c "skip_space s"])

lemma parse_skip [simp]:
  "parseexec n (skip_space s) = parseexec n s" "parsepipe n (skip_space s) = parsepipe n s"
  "parseline n (skip_space s) = parseline n s"
proof -
  show e: "parseexec n (skip_space s) = parseexec n s" for n by (cases n) auto
  show p: "parsepipe n (skip_space s) = parsepipe n s" for n by (cases n) (auto simp: e)
  show "parseline n (skip_space s) = parseline n s" by (cases n) (auto simp: p)
qed

lemma not_space [simp]:
  "\<not> is_space CHR ''|''" "\<not> is_space CHR ''('' " "\<not> is_space CHR '')''" "\<not> is_space CHR '';''" "\<not> is_space CHR ''&''"
  "\<not> is_space CHR ''<''" "\<not> is_space CHR ''>''" "is_space CHR '' ''"
  by (simp_all add: is_space_iff whitespace_def)

lemma word_ok_Cons: "word_ok w \<Longrightarrow> \<exists>c v. w = c # v \<and> \<not> is_space c \<and> c \<notin> set symbols"
  by (cases w) (auto simp: word_ok_def word_char_def is_symbol_iff)

lemma gettoken_symbol:
  assumes "c \<in> {CHR ''|'', CHR ''('', CHR '')'', CHR '';'', CHR ''&'', CHR ''<''}"
  shows "\<exists>w. gettoken (c # CHR '' '' # r) = (c, w, skip_space r)"
  using assms by (auto simp: gettoken_def Let_def)

lemma gettoken_greater:
  "\<exists>w. gettoken (''> '' @ r) = (CHR ''>'', w, skip_space r)" "\<exists>w. gettoken (''>> '' @ r) = (CHR ''+'', w, skip_space r)"
  by (auto simp: gettoken_def Let_def)

lemma gettoken_word:
  assumes w: "word_ok w"
  shows "gettoken (w @ '' '' @ r) = (CHR ''a'', (w @ '' '' @ r, '' '' @ r), skip_space r)"
proof -
  obtain c v where c: "w = c # v" "\<not> is_space c" "c \<notin> set symbols" using word_ok_Cons [OF w] by blast
  have "dropWhile (\<lambda>c. \<not> is_space c \<and> \<not> is_symbol c) (w @ '' '' @ r) = '' '' @ r"
    using w by (subst dropWhile_append2) (auto simp: word_ok_def word_char_def list_all_iff)
  then show ?thesis using c by (simp add: gettoken_def symbols_def Let_def)
qed

lemma skip_word: "word_ok w \<Longrightarrow> skip_space (w @ r) = w @ r"
  by (auto dest!: word_ok_Cons)

lemma word_text_printed [simp]: "word_text (w @ r, r) = w"
  by (simp add: word_text_def)

text \<open>Redirections and arguments.\<close>

type_synonym sredir = "string \<times> uint32 \<times> nat"

definition redir_ok :: "sredir \<Rightarrow> bool" where
  "redir_ok x \<longleftrightarrow> word_ok (fst x) \<and>
     snd x \<in> {(O_RDONLY, 0), (O_WRONLY OR O_CREATE OR O_TRUNC, 1), (O_WRONLY OR O_CREATE, 1)}"

definition show_redirs :: "sredir list \<Rightarrow> string" where
  "show_redirs rs = concat (map (\<lambda>(f, mode, fd). redir_symbol mode @ '' '' @ f @ '' '') rs)"

lemma modes_differ:
  "O_RDONLY \<noteq> O_WRONLY OR O_CREATE OR O_TRUNC" "O_RDONLY \<noteq> O_WRONLY OR O_CREATE"
  "O_WRONLY OR O_CREATE OR O_TRUNC \<noteq> O_WRONLY OR O_CREATE"
  by (simp_all add: O_RDONLY_def O_WRONLY_def O_CREATE_def O_TRUNC_def)

lemma parseredirs_none:
  assumes "skip_space r = [] \<or> hd (skip_space r) \<notin> {CHR ''<'', CHR ''>''}"
  shows "parseredirs r = Inr ([], skip_space r)"
proof -
  have "peek ''<>'' r = (False, skip_space r)" using assms by (subst peek_eq) auto
  then show ?thesis by (subst parseredirs.simps) simp
qed

lemma parseredirs_show:
  assumes "skip_space r = [] \<or> hd (skip_space r) \<notin> {CHR ''<'', CHR ''>''}" "list_all redir_ok rs"
  shows "\<exists>rs'. parseredirs (show_redirs rs @ r) = Inr (rs', skip_space r) \<and> map (apfst word_text) rs' = rs"
  using assms(2)
proof (induction rs)
  case Nil
  then show ?case using parseredirs_none [OF assms(1)] by (simp add: show_redirs_def)
next
  case (Cons x rs)
  obtain f mode fd where x: "x = (f, mode, fd)" by (cases x)
  let ?r = "show_redirs rs @ r" and ?s = "redir_symbol mode @ '' '' @ f @ '' '' @ show_redirs rs @ r"
  have f: "word_ok f" using Cons.prems x by (auto simp: redir_ok_def)
  have p: "peek ''<>'' ?s = (True, ?s)" by (subst peek_eq) (auto simp: redir_symbol_def)
  obtain tok w where g: "gettoken ?s = (tok, w, f @ '' '' @ ?r)"
    "\<And>y. redir_of tok y = (y, mode, fd)"
    using gettoken_symbol [of "CHR ''<''" "f @ '' '' @ ?r"] gettoken_greater [of "f @ '' '' @ ?r"]
      Cons.prems x modes_differ skip_word [OF f]
    by (fastforce simp: redir_ok_def redir_symbol_def redir_of_def)
  obtain rs' where IH: "parseredirs ?r = Inr (rs', skip_space r)" "map (apfst word_text) rs' = rs"
    using Cons by auto
  have "parseredirs ?s = map_sum id (apfst ((#) (redir_of tok (f @ '' '' @ ?r, '' '' @ ?r)))) (parseredirs ?r)"
    using parseredirs_eq [OF p g(1) gettoken_word [OF f]] by simp
  moreover have "show_redirs (x # rs) @ r = ?s" by (simp add: show_redirs_def x)
  ultimately show ?case using IH g(2) x by simp
qed

lemma parseargs_none: "followed ''|)&;'' r \<Longrightarrow> parseargs argc r = Inr (([], []), skip_space r)"
proof -
  assume r: "followed ''|)&;'' r"
  then have "peek ''|)&;'' r = (skip_space r \<noteq> [], skip_space r)" by (subst peek_eq) (auto simp: followed_def)
  then show ?thesis by (subst parseargs.simps) (simp add: gettoken_def)
qed

lemma parseargs_show:
  assumes r: "followed ''|)&;'' r" and "list_all word_ok ws" "list_all redir_ok rs" "argc + length ws < MAXARGS"
    and "ws = [] \<longrightarrow> rs = []"
  shows "\<exists>ws' rs'. parseargs argc (concat (map (\<lambda>w. w @ '' '') ws) @ show_redirs rs @ r) = Inr ((ws', rs'), skip_space r) \<and>
    map word_text ws' = ws \<and> map (apfst word_text) rs' = rs"
  using assms(2-)
proof (induction ws arbitrary: argc)
  case Nil
  then show ?case using parseargs_none [OF r] by (simp add: show_redirs_def)
next
  case (Cons w ws)
  let ?ws = "concat (map (\<lambda>w. w @ '' '') ws)"
  let ?t = "?ws @ show_redirs rs @ r"
  note IH = Cons.IH [of "argc + 1"] and prems = Cons.prems
  have w: "word_ok w" using Cons.prems by simp
  have p: "peek ''|)&;'' (w @ '' '' @ ?t) = (False, w @ '' '' @ ?t)"
    using word_ok_Cons [OF w] by (subst peek_eq) (auto simp: symbols_def)
  have eq: "parseargs argc (w @ '' '' @ ?t) = (case parseredirs ?t of Inl e \<Rightarrow> Inl e
      | Inr (rs, s2) \<Rightarrow> map_sum id (apfst (\<lambda>(ws, rs'). ((w @ '' '' @ ?t, '' '' @ ?t) # ws, rs @ rs'))) (parseargs (argc + 1) s2))"
    using parseargs_eq [OF p gettoken_word [OF w], of argc] Cons.prems by simp
  have s: "concat (map (\<lambda>w. w @ '' '') (w # ws)) @ show_redirs rs @ r = w @ '' '' @ ?t" by simp
  show ?case
  proof (cases ws)
    case Nil
    have "skip_space r = [] \<or> hd (skip_space r) \<notin> {CHR ''<'', CHR ''>''}" using r by (auto simp: followed_def)
    then obtain rs' where "parseredirs (show_redirs rs @ r) = Inr (rs', skip_space r)" "map (apfst word_text) rs' = rs"
      using parseredirs_show Cons.prems by blast
    then show ?thesis unfolding s eq using Nil parseargs_none [OF r] by simp
  next
    case (Cons v vs)
    have "hd (skip_space ?t) \<notin> {CHR ''<'', CHR ''>''}"
      using Cons \<open>list_all word_ok (w # ws)\<close> by (auto dest!: word_ok_Cons simp: symbols_def)
    then have "parseredirs ?t = Inr ([], skip_space ?t)" using parseredirs_none by blast
    moreover obtain ws' rs' where "parseargs (argc + 1) ?t = Inr ((ws', rs'), skip_space r)" "map word_text ws' = ws"
      "map (apfst word_text) rs' = rs" using IH prems Cons by auto
    ultimately show ?thesis unfolding s eq by simp
  qed
qed

text \<open>The levels of the grammar: at each one a printed command is read back.\<close>

definition reads :: "word_ptr cmd parsed \<Rightarrow> string cmd \<Rightarrow> string \<Rightarrow> bool" where
  "reads x c r \<longleftrightarrow> (\<exists>c'. x = Some (Inr (c', skip_space r)) \<and> map_cmd word_text c' = c)"

definition reads_exec :: "string cmd \<Rightarrow> bool" where
  "reads_exec c \<longleftrightarrow> (\<forall>n rs r. followed ''|)&;'' r \<longrightarrow> list_all redir_ok rs \<longrightarrow>
     parseexec n (show_cmd c 3 @ show_redirs rs @ r) \<noteq> None \<longrightarrow>
     reads (parseexec n (show_cmd c 3 @ show_redirs rs @ r)) (wrap rs c) r)"

definition reads_pipe :: "string cmd \<Rightarrow> bool" where
  "reads_pipe c \<longleftrightarrow> (\<forall>n r. followed '')&;'' r \<longrightarrow> parsepipe n (show_cmd c 2 @ r) \<noteq> None \<longrightarrow>
     reads (parsepipe n (show_cmd c 2 @ r)) c r)"

definition reads_back :: "string cmd \<Rightarrow> bool" where
  "reads_back c \<longleftrightarrow> (\<forall>n r. followed '')&;'' r \<longrightarrow> parsepipe n (show_cmd c 1 @ r) \<noteq> None \<longrightarrow>
     (\<exists>d s c'. parsepipe n (show_cmd c 1 @ r) = Some (Inr (d, s)) \<and> parsebacks d s = parsebacks c' r \<and>
        map_cmd word_text c' = c))"

definition reads_line :: "string cmd \<Rightarrow> bool" where
  "reads_line c \<longleftrightarrow> (\<forall>n r. followed '')'' r \<longrightarrow> parseline n (show_cmd c 0 @ r) \<noteq> None \<longrightarrow>
     reads (parseline n (show_cmd c 0 @ r)) c r)"

lemma map_cmd_wrap: "map_cmd f (wrap rs c) = wrap (map (apfst f) rs) (map_cmd f c)"
  by (induction rs arbitrary: c) (auto simp: wrap_def)

lemma reads_exec_EXEC:
  assumes "cmd_ok (EXEC ws)"
  shows "reads_exec (EXEC ws)"
  unfolding reads_exec_def
proof (intro allI impI)
  fix n rs r
  assume r: "followed ''|)&;'' r" and rs: "list_all redir_ok rs"
    and n: "parseexec n (show_cmd (EXEC ws) 3 @ show_redirs rs @ r) \<noteq> None"
  let ?s = "concat (map (\<lambda>w. w @ '' '') ws) @ show_redirs rs @ r"
  obtain m where m: "n = Suc m" using n by (cases n) auto
  have hr: "skip_space r = [] \<or> hd (skip_space r) \<notin> {CHR ''<'', CHR ''>''}" using r by (auto simp: followed_def)
  have p: "peek ''('' ?s = (False, skip_space ?s)"
  proof -
    have "skip_space ?s = [] \<or> hd (skip_space ?s) \<noteq> CHR ''(''"
    proof (cases ws)
      case Nil
      then show ?thesis using r by (cases rs) (auto simp: show_redirs_def redir_symbol_def followed_def split: if_splits)
    next
      case (Cons w vs)
      then show ?thesis using assms by (auto dest!: word_ok_Cons simp: symbols_def)
    qed
    then show ?thesis by (subst peek_eq) auto
  qed
  show "reads (parseexec n (show_cmd (EXEC ws) 3 @ show_redirs rs @ r)) (wrap rs (EXEC ws)) r"
  proof (cases ws)
    case Nil
    obtain rs' where "parseredirs (show_redirs rs @ r) = Inr (rs', skip_space r)" "map (apfst word_text) rs' = rs"
      using parseredirs_show [OF hr rs] by blast
    then show ?thesis using p m Nil parseargs_none [OF r, of 0] by (simp add: reads_def and_then_def map_cmd_wrap)
  next
    case (Cons w vs)
    have "hd (skip_space ?s) \<notin> {CHR ''<'', CHR ''>''}" using Cons assms by (auto dest!: word_ok_Cons simp: symbols_def)
    then have "parseredirs ?s = Inr ([], skip_space ?s)" using parseredirs_none by blast
    moreover obtain ws' rs' where "parseargs 0 ?s = Inr ((ws', rs'), skip_space r)" "map word_text ws' = ws"
      "map (apfst word_text) rs' = rs" using parseargs_show [OF r, of ws rs 0] assms rs Cons by auto
    ultimately show ?thesis using p m by (simp add: reads_def and_then_def map_cmd_wrap)
  qed
qed

text \<open>A command in parentheses, with redirections after them.\<close>

lemma reads_exec_block:
  assumes ok: "cmd_ok c" and l: "reads_line c" and s: "show_cmd c 3 = ''( '' @ show_cmd c 0 @ '') ''"
  shows "reads_exec c"
  unfolding reads_exec_def
proof (intro allI impI)
  fix n rs r
  assume r: "followed ''|)&;'' r" and rs: "list_all redir_ok rs"
    and n: "parseexec n (show_cmd c 3 @ show_redirs rs @ r) \<noteq> None"
  let ?e = "'') '' @ show_redirs rs @ r"
  let ?i = "show_cmd c 0 @ ?e"
  have hr: "skip_space r = [] \<or> hd (skip_space r) \<notin> {CHR ''<'', CHR ''>''}" using r by (auto simp: followed_def)
  have fe: "followed '')'' ?e" by (simp add: followed_def)
  have p: "peek ''('' (''( '' @ ?i) = (True, ''( '' @ ?i)" by (subst peek_eq) auto
  obtain w where g: "gettoken (''( '' @ ?i) = (CHR ''('', w, skip_space ?i)" using gettoken_symbol [of "CHR ''(''" ?i] by auto
  have p': "peek '')'' ?e = (True, ?e)" by (subst peek_eq) auto
  obtain w' where g': "gettoken ?e = (CHR '')'', w', skip_space (show_redirs rs @ r))"
    using gettoken_symbol [of "CHR '')''" "show_redirs rs @ r"] by auto
  obtain rs' where rs': "parseredirs (show_redirs rs @ r) = Inr (rs', skip_space r)" "map (apfst word_text) rs' = rs"
    using parseredirs_show [OF hr rs] by blast
  have inp: "show_cmd c 3 @ show_redirs rs @ r = ''( '' @ ?i" by (simp add: s)
  obtain m where m: "n = Suc (Suc m)"
    using n p unfolding inp by (cases n; cases "n - 1") auto
  have "parseline m ?i \<noteq> None" using n p g unfolding inp m by (auto simp: and_then_None simp del: not_None_eq)
  then obtain c' where "parseline m ?i = Some (Inr (c', ?e))" "map_cmd word_text c' = c"
    using l [unfolded reads_line_def reads_def, rule_format, OF fe, of m] by auto
  then show "reads (parseexec n (show_cmd c 3 @ show_redirs rs @ r)) (wrap rs c) r"
    using p g p' g' rs' unfolding inp m by (simp add: reads_def and_then_def map_cmd_wrap)
qed

lemma reads_pipe_exec:
  assumes ok: "cmd_ok c" and e: "reads_exec c" and s: "show_cmd c 2 = show_cmd c 3"
  shows "reads_pipe c"
  unfolding reads_pipe_def
proof (intro allI impI)
  fix n r
  assume r: "followed '')&;'' r" and n: "parsepipe n (show_cmd c 2 @ r) \<noteq> None"
  obtain m where m: "n = Suc m" using n by (cases n) auto
  have "followed ''|)&;'' r" using r by (auto simp: followed_def)
  moreover have "parseexec m (show_cmd c 3 @ r) \<noteq> None" using n unfolding m s by (auto simp: and_then_None simp del: not_None_eq)
  ultimately obtain c' where c: "parseexec m (show_cmd c 3 @ r) = Some (Inr (c', skip_space r))" "map_cmd word_text c' = c"
    using e [unfolded reads_exec_def, rule_format, of r "[]" m] by (auto simp: reads_def show_redirs_def wrap_def)
  have "peek ''|'' r = (False, skip_space r)" using r by (subst peek_eq) (auto simp: followed_def)
  then show "reads (parsepipe n (show_cmd c 2 @ r)) c r" using c by (simp add: m s reads_def and_then_def)
qed

lemma reads_pipe_PIPE:
  assumes ok: "cmd_ok c" "cmd_ok d" and e: "reads_exec c" "reads_pipe d"
  shows "reads_pipe (PIPE c d)"
  unfolding reads_pipe_def
proof (intro allI impI)
  fix n r
  assume r: "followed '')&;'' r" and n: "parsepipe n (show_cmd (PIPE c d) 2 @ r) \<noteq> None"
  let ?d = "show_cmd d 2 @ r"
  obtain m where m: "n = Suc m" using n by (cases n) auto
  have s: "show_cmd (PIPE c d) 2 @ r = show_cmd c 3 @ ''| '' @ ?d" by (simp add: parens_def)
  have "parseexec m (show_cmd c 3 @ ''| '' @ ?d) \<noteq> None" using n unfolding m s by (auto simp: and_then_None simp del: not_None_eq)
  then obtain c' where c: "parseexec m (show_cmd c 3 @ ''| '' @ ?d) = Some (Inr (c', ''| '' @ ?d))" "map_cmd word_text c' = c"
    using e(1) [unfolded reads_exec_def, rule_format, of "''| '' @ ?d" "[]" m]
    by (auto simp: reads_def show_redirs_def wrap_def followed_def)
  have p: "peek ''|'' (''| '' @ ?d) = (True, ''| '' @ ?d)" by (subst peek_eq) auto
  obtain w where g: "gettoken (''| '' @ ?d) = (CHR ''|'', w, skip_space ?d)" using gettoken_symbol [of "CHR ''|''" ?d] by auto
  have "parsepipe m ?d \<noteq> None" using n c p g unfolding m s by (auto simp: and_then_None simp del: not_None_eq)
  then obtain d' where "parsepipe m ?d = Some (Inr (d', skip_space r))" "map_cmd word_text d' = d"
    using e(2) r by (auto simp: reads_pipe_def reads_def)
  then show "reads (parsepipe n (show_cmd (PIPE c d) 2 @ r)) (PIPE c d) r"
    using c p g unfolding m s by (simp add: reads_def and_then_def)
qed

lemma reads_back_pipe: "reads_pipe c \<Longrightarrow> show_cmd c 1 = show_cmd c 2 \<Longrightarrow> reads_back c"
  unfolding reads_pipe_def reads_back_def reads_def by force

lemma reads_back_BACK:
  assumes "reads_back c"
  shows "reads_back (BACK c)"
  unfolding reads_back_def
proof (intro allI impI)
  fix n r
  assume r: "followed '')&;'' r" and n: "parsepipe n (show_cmd (BACK c) 1 @ r) \<noteq> None"
  have s: "show_cmd (BACK c) 1 @ r = show_cmd c 1 @ ''& '' @ r" by (simp add: parens_def)
  have "followed '')&;'' (''& '' @ r)" by (simp add: followed_def)
  then obtain d s' c' where c: "parsepipe n (show_cmd c 1 @ ''& '' @ r) = Some (Inr (d, s'))"
    "parsebacks d s' = parsebacks c' (''& '' @ r)" "map_cmd word_text c' = c"
    using assms n unfolding reads_back_def s by blast
  have p: "peek ''&'' (''& '' @ r) = (True, ''& '' @ r)" by (subst peek_eq) auto
  obtain w where "gettoken (''& '' @ r) = (CHR ''&'', w, skip_space r)"
    using gettoken_symbol [of "CHR ''&''" r] by auto
  then have "parsebacks c' (''& '' @ r) = parsebacks (BACK c') r"
    using p by (subst parsebacks.simps) simp
  then show "\<exists>d s c'. parsepipe n (show_cmd (BACK c) 1 @ r) = Some (Inr (d, s)) \<and> parsebacks d s = parsebacks c' r \<and>
      map_cmd word_text c' = BACK c"
    using c unfolding s by (intro exI [of _ d] exI [of _ s'] exI [of _ "BACK c'"]) simp
qed

lemma parsebacks_none: "followed '');'' r \<Longrightarrow> parsebacks c r = (c, skip_space r)"
proof -
  assume "followed '');'' r"
  then have "peek ''&'' r = (False, skip_space r)" by (subst peek_eq) (auto simp: followed_def)
  then show ?thesis by (subst parsebacks.simps) simp
qed

lemma reads_line_back:
  assumes b: "reads_back c" and s: "show_cmd c 0 = show_cmd c 1"
  shows "reads_line c"
  unfolding reads_line_def
proof (intro allI impI)
  fix n r
  assume r: "followed '')'' r" and n: "parseline n (show_cmd c 0 @ r) \<noteq> None"
  obtain m where m: "n = Suc m" using n by (cases n) auto
  have "parsepipe m (show_cmd c 1 @ r) \<noteq> None" using n unfolding m s by (auto simp: and_then_None simp del: not_None_eq)
  moreover have f: "followed '')&;'' r" "followed '');'' r" using r by (auto simp: followed_def)
  ultimately obtain d s' c' where c: "parsepipe m (show_cmd c 1 @ r) = Some (Inr (d, s'))" "parsebacks d s' = parsebacks c' r"
    "map_cmd word_text c' = c" using b unfolding reads_back_def by blast
  have "peek '';'' r = (False, skip_space r)" using r by (subst peek_eq) (auto simp: followed_def)
  then show "reads (parseline n (show_cmd c 0 @ r)) c r"
    using c parsebacks_none [OF f(2), of c'] unfolding m s by (simp add: reads_def)
qed

lemma reads_line_LIST:
  assumes ok: "cmd_ok d" and b: "reads_back c" and l: "reads_line d"
  shows "reads_line (LIST c d)"
  unfolding reads_line_def
proof (intro allI impI)
  fix n r
  assume r: "followed '')'' r" and n: "parseline n (show_cmd (LIST c d) 0 @ r) \<noteq> None"
  let ?d = "show_cmd d 0 @ r"
  obtain m where m: "n = Suc m" using n by (cases n) auto
  have s: "show_cmd (LIST c d) 0 @ r = show_cmd c 1 @ ''; '' @ ?d" by (simp add: parens_def)
  have f: "followed '')&;'' (''; '' @ ?d)" "followed '');'' (''; '' @ ?d)" by (simp_all add: followed_def)
  have "parsepipe m (show_cmd c 1 @ ''; '' @ ?d) \<noteq> None"
    using n unfolding m s by (auto simp: and_then_None simp del: not_None_eq)
  then obtain e s' c' where c: "parsepipe m (show_cmd c 1 @ ''; '' @ ?d) = Some (Inr (e, s'))"
    "parsebacks e s' = parsebacks c' (''; '' @ ?d)" "map_cmd word_text c' = c" using b f(1) unfolding reads_back_def by blast
  have c2: "parsebacks e s' = (c', ''; '' @ ?d)" using c(2) parsebacks_none [OF f(2)] by simp
  have p: "peek '';'' (''; '' @ ?d) = (True, ''; '' @ ?d)" by (subst peek_eq) auto
  obtain w where g: "gettoken (''; '' @ ?d) = (CHR '';'', w, skip_space ?d)" using gettoken_symbol [of "CHR '';''" ?d] by auto
  have "parseline m ?d \<noteq> None" using n c(1) c2 p g unfolding m s by (auto simp: and_then_None simp del: not_None_eq)
  then obtain d' where "parseline m ?d = Some (Inr (d', skip_space r))" "map_cmd word_text d' = d"
    using l r by (auto simp: reads_line_def reads_def)
  then show "reads (parseline n (show_cmd (LIST c d) 0 @ r)) (LIST c d) r"
    using c(1,3) c2 p g unfolding m s by (simp add: reads_def)
qed

lemma reads_exec_REDIR:
  assumes "cmd_ok (REDIR c f mode fd)" "reads_exec c"
  shows "reads_exec (REDIR c f mode fd)"
  unfolding reads_exec_def
proof (intro allI impI)
  fix n rs r
  assume r: "followed ''|)&;'' r" "list_all redir_ok rs"
    and n: "parseexec n (show_cmd (REDIR c f mode fd) 3 @ show_redirs rs @ r) \<noteq> None"
  have s: "show_cmd (REDIR c f mode fd) 3 @ show_redirs rs @ r = show_cmd c 3 @ show_redirs ((f, mode, fd) # rs) @ r"
    by (simp add: show_redirs_def)
  have w: "wrap rs (REDIR c f mode fd) = wrap ((f, mode, fd) # rs) c" by (simp add: wrap_def)
  have "list_all redir_ok ((f, mode, fd) # rs)" using assms(1) r(2) by (auto simp: redir_ok_def)
  from assms(2) [unfolded reads_exec_def, rule_format, OF r(1) this n [unfolded s]]
  show "reads (parseexec n (show_cmd (REDIR c f mode fd) 3 @ show_redirs rs @ r)) (wrap rs (REDIR c f mode fd)) r"
    unfolding s w .
qed

lemma printed_is_read:
  "cmd_ok c \<Longrightarrow> reads_exec c \<and> reads_pipe c \<and> reads_back c \<and> reads_line c"
proof (induction c)
  case (EXEC ws)
  then show ?case
    using reads_exec_EXEC reads_pipe_exec [of "EXEC ws"] reads_back_pipe [of "EXEC ws"] reads_line_back [of "EXEC ws"] by simp
next
  case (REDIR c f mode fd)
  let ?c = "REDIR c f mode fd"
  have "reads_exec ?c" using REDIR by (intro reads_exec_REDIR) auto
  then show ?case
    using REDIR.prems reads_pipe_exec [of ?c] reads_back_pipe [of ?c] reads_line_back [of ?c] by simp
next
  case (PIPE c d)
  let ?c = "PIPE c d"
  have "reads_pipe ?c" using PIPE by (intro reads_pipe_PIPE) auto
  then show ?case
    using PIPE.prems reads_back_pipe [of ?c] reads_line_back [of ?c] reads_exec_block [of ?c] by (simp add: parens_def)
next
  case (LIST c d)
  let ?c = "LIST c d"
  have "reads_line ?c" using LIST by (intro reads_line_LIST) auto
  then show ?case
    using LIST.prems reads_exec_block [of ?c] reads_pipe_exec [of ?c] reads_back_pipe [of ?c] by (simp add: parens_def)
next
  case (BACK c)
  let ?c = "BACK c"
  have "reads_back ?c" using BACK by (intro reads_back_BACK) auto
  then show ?case
    using BACK.prems reads_line_back [of ?c] reads_exec_block [of ?c] reads_pipe_exec [of ?c] by (simp add: parens_def)
qed

lemma skip_show: "cmd_ok c \<Longrightarrow> skip_space r = r \<Longrightarrow> skip_space (show_cmd c k @ r) = show_cmd c k @ r"
proof (induction c arbitrary: k r)
  case (EXEC ws)
  then show ?case by (cases ws) (auto simp: skip_word)
next
  case (REDIR c f mode fd)
  have "skip_space (redir_symbol mode @ '' '' @ f @ '' '' @ r) = redir_symbol mode @ '' '' @ f @ '' '' @ r"
    by (simp add: redir_symbol_def)
  then show ?case using REDIR by simp
qed (auto simp: parens_def)

lemma show_head: "cmd_ok c \<Longrightarrow> show_cmd c k = x # s \<Longrightarrow> \<not> is_space x"
  using skip_show [of c "[]" k] length_skip [of s] by (auto split: if_splits)

lemma show_Nil: "show_cmd c k = [] \<Longrightarrow> c = EXEC []"
  by (cases c) (auto simp: parens_def redir_symbol_def split: if_splits)

lemma show_one_line: "cmd_ok c \<Longrightarrow> NL \<notin> set (show_cmd c k) \<and> CR \<notin> set (show_cmd c k)"
  by (induction c arbitrary: k)
    (auto simp: parens_def redir_symbol_def word_ok_def word_char_def list_all_iff is_space_iff whitespace_def)

lemma show_no_nul: "cmd_ok c \<Longrightarrow> CHR 0x00 \<notin> set (show_cmd c k)"
  by (induction c arbitrary: k) (auto simp: parens_def redir_symbol_def word_ok_def list_all_iff)

definition blank :: "string \<Rightarrow> bool" where
  "blank s \<longleftrightarrow> list_all is_space s"

lemma skip_append: "blank a \<Longrightarrow> skip_space (a @ s) = skip_space s"
  by (induction a) (auto simp: blank_def)

lemma skip_all: "blank a \<Longrightarrow> skip_space a = []"
  using skip_append [of a "[]"] by simp

lemma blank_no_nul: "blank a \<Longrightarrow> NUL \<notin> set a"
  by (induction a) (auto simp: blank_def is_space_iff whitespace_def)

lemma parse_show:
  assumes "cmd_ok c" "blank a" "blank b"
  shows "\<exists>p. parsecmd (a @ show_cmd c 0 @ b) = Some (Inr p) \<and> strings (a @ show_cmd c 0 @ b) p = c"
proof -
  let ?s = "a @ show_cmd c 0 @ b"
  let ?n = "4 * length ?s + 4"
  have s: "parseline ?n ?s = parseline ?n (show_cmd c 0 @ b)"
    using parse_skip(3) [of ?n ?s] parse_skip(3) [of ?n "show_cmd c 0 @ b"] skip_append [OF assms(2)] by metis
  have "parseline ?n ?s \<noteq> None" by (rule parse_returns(1)) simp
  moreover have "followed '')'' b" using skip_all [OF assms(3)] by (simp add: followed_def)
  ultimately obtain p where p: "parseline ?n ?s = Some (Inr (p, []))" "map_cmd word_text p = c"
    using printed_is_read [OF assms(1)] skip_all [OF assms(3)] unfolding s reads_line_def reads_def by metis
  have "\<forall>w \<in> set_cmd p. word_of ?s w" using parse_words(1) [OF p(1)] by (simp add: words_of_def)
  moreover have "NUL \<notin> set ?s" using show_no_nul [OF assms(1)] blank_no_nul assms(2,3) by simp
  ultimately have "strings ?s p = c" using strings_eq p(2) by blast
  then show ?thesis using p(1) by (simp add: parsecmd_def peek_def)
qed

text \<open>
  C25: printing a command and parsing the text gives the command back, the strings in the buffer
  included, for all commands with well-formed words and fewer than \<open>MAXARGS\<close> arguments, whatever
  white space stands before and after.
\<close>

theorem parsecmd_show:
  assumes "cmd_ok c" "blank a" "blank b"
  shows "\<exists>p. parsecmd (a @ show_cmd c 0 @ b) = Some (Inr p) \<and> strings (a @ show_cmd c 0 @ b) p = c"
  by (rule parse_show [OF assms])

definition cmd_ex :: "string cmd" where
  "cmd_ex = LIST (PIPE (EXEC [''cat'', ''README'']) (REDIR (EXEC [''wc'']) ''out'' (O_WRONLY OR O_CREATE OR O_TRUNC) 1))
     (BACK (PIPE (LIST (EXEC [''a'']) (EXEC [''b''])) (EXEC [''c''])))"

lemma cmd_ex_text: "show_cmd cmd_ex 0 = ''cat README | wc > out ; ( a ; b ) | c & ''"
  by (simp add: cmd_ex_def parens_def redir_symbol_def O_RDONLY_def O_WRONLY_def O_CREATE_def O_TRUNC_def)

lemma cmd_ex_ok: "cmd_ok cmd_ex"
  by (simp add: cmd_ex_def word_ok_def word_char_def is_space_iff is_symbol_iff whitespace_def symbols_def MAXARGS_def)

theorem parsecmd_show_witness:
  "\<exists>p. parsecmd ('' cat README | wc > out ; ( a ; b ) | c & '' @ [NL]) = Some (Inr p) \<and>
     strings ('' cat README | wc > out ; ( a ; b ) | c & '' @ [NL]) p = cmd_ex"
  using parsecmd_show [OF cmd_ex_ok, of "'' ''" "[NL]"]
  by (simp add: cmd_ex_text blank_def is_space_iff whitespace_def)

end
