(* ===== verification/Shrun.thy ===== *)
theory Shrun
  imports Shprint Riscv
begin

text \<open>
  What the shell of \<^verbatim>\<open>user/sh.c\<close> does with its input: the lines it reads, the processes each command
  becomes, and the files and pipes they are connected to.
\<close>

section \<open>Running a command\<close>

text \<open>
  \<open>runcmd\<close> with the descriptors of the process that executes it. A descriptor refers to what the
  shell was started with, an opened file or an end of a pipe; a pipe is named by the place of
  its command in the tree. The environment decides which programs can be executed, which files
  can be opened and whether a fork succeeds. The result has one entry for every process: the
  program it becomes, with its descriptors, or its exit status and what it prints.
\<close>

datatype fobj = Inherited nat | Opened string uint32 | Pipe_read "nat list" | Pipe_write "nat list"

type_synonym fds = "nat \<Rightarrow> fobj option"


datatype outcome = Runs "string list" fds | Exits nat string






definition shell_panic :: "string \<Rightarrow> outcome" where
  "shell_panic s = Exits 1 (s @ [NL])"




definition programs :: "outcome list \<Rightarrow> (string list \<times> fds) list" where
  "programs xs = concat (map (\<lambda>x. case x of Runs argv t \<Rightarrow> [(argv, t)] | Exits _ _ \<Rightarrow> []) xs)"

lemma programs_simps [simp]:
  "programs [] = []" "programs (xs @ ys) = programs xs @ programs ys"
  "programs [Runs argv t] = [(argv, t)]" "programs [Exits n s] = []" "programs [shell_panic s] = []"
  by (simp_all add: programs_def shell_panic_def)






section \<open>Reading and running lines\<close>



text \<open>What the shell does that can be seen from outside; a child is the processes of one command.\<close>

datatype event = Prompt | Chdir string | Message string | Child "outcome list" | Shell_exits nat








text \<open>The programs that all the lines start.\<close>

definition started :: "event list \<Rightarrow> (string list \<times> fds) list" where
  "started es = concat (map (\<lambda>x. case x of Child xs \<Rightarrow> programs xs | _ \<Rightarrow> []) es)"

lemma started_simps [simp]:
  "started [] = []" "started (Prompt # es) = started es" "started (Child xs # es) = programs xs @ started es"
  "started (Chdir p # es) = started es" "started (Message m # es) = started es" "started (Shell_exits n # es) = started es"
  by (simp_all add: started_def)

section \<open>The shell runs its input\<close>










end
