(* ===== verification/Printf.thy ===== *)
theory Printf
  imports Hart String_C
begin

text \<open>
  Formatted output, \<^verbatim>\<open>kernel/printf.c\<close>: the characters \<open>printf\<close> sends to the console for a
  format and its arguments. Elsewhere in the development a call of \<open>printf\<close> appends the
  format and the arguments to \<open>klog\<close>; \<open>printed\<close> is the text of such a message.

  An argument is a 64-bit register or a pointer to a string; \<open>va_arg(ap, int)\<close> and
  \<open>va_arg(ap, uint32)\<close> read the low half of the register. A missing argument has no result.
\<close>

section \<open>Numbers\<close>

definition digits :: "uint8 list" where
  "digits = map (\<lambda>c. of_char c) ''0123456789abcdef''"

lemma word_div_less:
  fixes x b :: "'l::len word"
  assumes "b > 1" "x div b \<noteq> 0"
  shows "unat (x div b) < unat x"
proof -
  have b: "1 < unat b" using assms(1) by (simp add: word_less_nat_alt)
  have "unat x \<noteq> 0" using assms(2) by (auto simp: unat_eq_0)
  then show ?thesis using b by (simp add: unat_div)
qed

text \<open>The digits of \<open>x\<close> from the least significant on; \<open>base\<close> is 10 or 16.\<close>

function printint_digits :: "uint64 \<Rightarrow> uint64 \<Rightarrow> uint8 list" where
  "printint_digits x base =
     digits ! unat (x mod base) #
     (if x div base \<noteq> 0 \<and> base > 1 then printint_digits (x div base) base else [])"
  by pat_completeness auto

termination
  by (relation "measure (\<lambda>(x, _). unat x)") (auto simp: word_div_less)

definition printint :: "uint64 \<Rightarrow> uint64 \<Rightarrow> bool \<Rightarrow> uint8 list" where
  "printint xx base sign =
     (let neg = (sign \<and> xx <s 0);
          x = (if neg then - xx else xx);
          buf = printint_digits x base @ (if neg then [of_char CHR ''-''] else [])
      in rev buf)"

definition printptr :: "uint64 \<Rightarrow> uint8 list" where
  "printptr x = of_char CHR ''0'' # of_char CHR ''x'' #
     map (\<lambda>i. digits ! unat (drop_bit 60 (push_bit (4 * i) x))) [0..<16]"

section \<open>Formats\<close>

definition karg_word :: "karg \<Rightarrow> uint64 option" where
  "karg_word a = (case a of KInt i \<Rightarrow> Some (word_of_int i) | KU64 w \<Rightarrow> Some w | KStr _ \<Rightarrow> None)"

text \<open>\<open>va_arg\<close> at the types \<open>int\<close>, \<open>uint32\<close>, \<open>uint64\<close> and \<open>char *\<close>, extended to the register.\<close>

definition va_int :: "karg \<Rightarrow> uint64 option" where
  "va_int a = do { w \<leftarrow> karg_word a; Some (scast (ucast w :: uint32)) }"

definition va_uint :: "karg \<Rightarrow> uint64 option" where
  "va_uint a = do { w \<leftarrow> karg_word a; Some (ucast (ucast w :: uint32)) }"

definition va_str :: "karg \<Rightarrow> uint8 list option" where
  "va_str a = (case a of KStr x \<Rightarrow> Some (map (\<lambda>c. of_char c) (takeWhile (\<lambda>c. c \<noteq> CHR 0x00) x))
     | _ \<Rightarrow> do { w \<leftarrow> karg_word a; if w = 0 then Some (map (\<lambda>c. of_char c) ''(null)'') else None })"

datatype conv = Conv_int bool uint64 "karg \<Rightarrow> uint64 option" | Conv_ptr | Conv_char | Conv_str
  | Conv_percent | Conv_end | Conv_unknown

text \<open>
  The chain of tests on \<open>c0\<close>, \<open>c1\<close> and \<open>c2\<close>: which conversion, and how many characters of the
  format it uses.
\<close>

definition printf_conv :: "char \<Rightarrow> char \<Rightarrow> char \<Rightarrow> conv \<times> nat" where
  "printf_conv c0 c1 c2 =
     (if c0 = CHR ''d'' then (Conv_int True 10 va_int, 1)
      else if c0 = CHR ''l'' \<and> c1 = CHR ''d'' then (Conv_int True 10 karg_word, 2)
      else if c0 = CHR ''l'' \<and> c1 = CHR ''l'' \<and> c2 = CHR ''d'' then (Conv_int True 10 karg_word, 3)
      else if c0 = CHR ''u'' then (Conv_int False 10 va_uint, 1)
      else if c0 = CHR ''l'' \<and> c1 = CHR ''u'' then (Conv_int False 10 karg_word, 2)
      else if c0 = CHR ''l'' \<and> c1 = CHR ''l'' \<and> c2 = CHR ''u'' then (Conv_int False 10 karg_word, 3)
      else if c0 = CHR ''x'' then (Conv_int False 16 va_uint, 1)
      else if c0 = CHR ''l'' \<and> c1 = CHR ''x'' then (Conv_int False 16 karg_word, 2)
      else if c0 = CHR ''l'' \<and> c1 = CHR ''l'' \<and> c2 = CHR ''x'' then (Conv_int False 16 karg_word, 3)
      else if c0 = CHR ''p'' then (Conv_ptr, 1)
      else if c0 = CHR ''c'' then (Conv_char, 1)
      else if c0 = CHR ''s'' then (Conv_str, 1)
      else if c0 = CHR ''%'' then (Conv_percent, 1)
      else if c0 = CHR 0x00 then (Conv_end, 0)
      else (Conv_unknown, 1))"

text \<open>Character \<open>i\<close> of a format; formats end with a zero byte.\<close>

definition fmt_at :: "string \<Rightarrow> nat \<Rightarrow> char" where
  "fmt_at fmt i = (if i < length fmt then fmt ! i else CHR 0x00)"

function printf_from :: "string \<Rightarrow> karg list \<Rightarrow> uint8 list option" where
  "printf_from fmt args =
     (case fmt of
        [] \<Rightarrow> Some []
      | cx # rest \<Rightarrow>
          if cx = CHR 0x00 then Some []
          else if cx \<noteq> CHR ''%'' then do { r \<leftarrow> printf_from rest args; Some (of_char cx # r) }
          else
            let c0 = fmt_at rest 0;
                c1 = (if c0 \<noteq> CHR 0x00 then fmt_at rest 1 else CHR 0x00);
                c2 = (if c1 \<noteq> CHR 0x00 then fmt_at rest 2 else CHR 0x00);
                (cv, k) = printf_conv c0 c1 c2
            in case cv of
                 Conv_end \<Rightarrow> Some []
               | Conv_percent \<Rightarrow> do { r \<leftarrow> printf_from (drop k rest) args; Some (of_char CHR ''%'' # r) }
               | Conv_unknown \<Rightarrow>
                   do { r \<leftarrow> printf_from (drop k rest) args;
                        Some (of_char CHR ''%'' # of_char c0 # r) }
               | _ \<Rightarrow>
                   (case args of
                      [] \<Rightarrow> None
                    | a # args \<Rightarrow>
                        do { out \<leftarrow> (case cv of
                                Conv_int sign base get \<Rightarrow>
                                  do { w \<leftarrow> get a; Some (printint w base sign) }
                              | Conv_ptr \<Rightarrow> do { w \<leftarrow> karg_word a; Some (printptr w) }
                              | Conv_char \<Rightarrow>
                                  do { w \<leftarrow> va_uint a;
                                       Some (if w = 0x100 then [8, 32, 8] else [ucast w]) }
                              | _ \<Rightarrow> va_str a);
                             r \<leftarrow> printf_from (drop k rest) args;
                             Some (out @ r) }))"
  by pat_completeness auto

termination
  by (relation "measure (\<lambda>(fmt, _). length fmt)") auto

definition printed :: "kmsg \<Rightarrow> uint8 list option" where
  "printed m = printf_from (fst m) (snd m)"

end
