(* ===== verification/Uprintf.thy ===== *)
theory Uprintf
  imports Ulib Printf
begin

text \<open>
  Formatted output of the user programs, \<^verbatim>\<open>user/printf.c\<close>: the bytes that \<open>fprintf\<close> writes to its
  descriptor for a format and its arguments. Arguments are as in the kernel's \<open>printf\<close>.
\<close>

section \<open>Numbers\<close>

definition udigits :: string where
  "udigits = ''0123456789ABCDEF''"

text \<open>The digits of \<open>x\<close> from the least significant on.\<close>

function uprintint_digits :: "uint64 \<Rightarrow> uint64 \<Rightarrow> string" where
  "uprintint_digits x base =
     udigits ! unat (x mod base) #
     (if x div base \<noteq> 0 \<and> base > 1 then uprintint_digits (x div base) base else [])"
  by pat_completeness auto

termination
  by (relation "measure (\<lambda>(x, _). unat x)") (auto simp: word_div_less)

declare uprintint_digits.simps [simp del] printint_digits.simps [simp del]

definition uprintint :: "uint64 \<Rightarrow> uint64 \<Rightarrow> bool \<Rightarrow> string" where
  "uprintint xx base sign =
     (let neg = (sign \<and> xx <s 0);
          x = (if neg then - xx else xx);
          buf = uprintint_digits x base @ (if neg then ''-'' else [])
      in rev buf)"

definition uprintptr :: "uint64 \<Rightarrow> string" where
  "uprintptr x = ''0x'' @ map (\<lambda>i. udigits ! unat (drop_bit 60 (push_bit (4 * i) x))) [0..<16]"

section \<open>Formats\<close>

definition vprintf_conv :: "char \<Rightarrow> char \<Rightarrow> char \<Rightarrow> conv \<times> nat" where
  "vprintf_conv c0 c1 c2 =
     (if c0 = CHR ''d'' then (Conv_int True 10 va_int, 1)
      else if c0 = CHR ''l'' \<and> c1 = CHR ''d'' then (Conv_int True 10 karg_word, 2)
      else if c0 = CHR ''l'' \<and> c1 = CHR ''l'' \<and> c2 = CHR ''d'' then (Conv_int True 10 karg_word, 3)
      else if c0 = CHR ''u'' then (Conv_int False 10 va_uint, 1)
      else if c0 = CHR ''l'' \<and> c1 = CHR ''u'' then (Conv_int False 10 karg_word, 2)
      else if c0 = CHR ''l'' \<and> c1 = CHR ''l'' \<and> c2 = CHR ''u'' then (Conv_int False 10 karg_word, 3)
      else if c0 = CHR ''x'' then (Conv_int False 16 va_uint, 1)
      else if c0 = CHR ''l'' \<and> c1 = CHR ''x'' then (Conv_int False 16 karg_word, 2)
      else if c0 = CHR ''l'' \<and> c1 = CHR ''l'' \<and> c2 = CHR ''x'' then (Conv_int False 16 karg_word, 3)
      else if c0 = CHR ''p'' then (Conv_ptr, 1)
      else if c0 = CHR ''c'' then (Conv_char, 1)
      else if c0 = CHR ''s'' then (Conv_str, 1)
      else if c0 = CHR ''%'' then (Conv_percent, 1)
      else (Conv_unknown, 1))"

text \<open>\<open>va_arg\<close> at the type \<open>char *\<close>.\<close>

definition uva_str :: "karg \<Rightarrow> string option" where
  "uva_str a = (case a of KStr x \<Rightarrow> Some (takeWhile (\<lambda>c. c \<noteq> NUL) x)
     | _ \<Rightarrow> do { w \<leftarrow> karg_word a; if w = 0 then Some ''(null)'' else None })"

text \<open>The text of one conversion that takes an argument.\<close>

definition vprintf_arg :: "conv \<Rightarrow> karg \<Rightarrow> string option" where
  "vprintf_arg cv a =
     (case cv of
        Conv_int sign base get \<Rightarrow> do { w \<leftarrow> get a; Some (uprintint w base sign) }
      | Conv_ptr \<Rightarrow> do { w \<leftarrow> karg_word a; Some (uprintptr w) }
      | Conv_char \<Rightarrow> do { w \<leftarrow> va_uint a; Some [char_of (unat w)] }
      | _ \<Rightarrow> uva_str a)"

text \<open>
  The loop of \<open>vprintf\<close> from a place in the format on: \<open>state\<close> is set after a percent sign. A
  format that ends with a percent sign prints nothing for it.
\<close>

function vprintf :: "bool \<Rightarrow> string \<Rightarrow> karg list \<Rightarrow> string option" where
  "vprintf state fmt args =
     (case fmt of
        [] \<Rightarrow> Some []
      | c0 # rest \<Rightarrow>
          if c0 = NUL then Some []
          else if \<not> state then
            if c0 = CHR ''%'' then vprintf True rest args
            else map_option ((#) c0) (vprintf False rest args)
          else
            let c1 = fmt_at rest 0;
                c2 = (if c1 \<noteq> NUL then fmt_at rest 1 else NUL);
                (cv, k) = vprintf_conv c0 c1 c2;
                rest = drop (k - 1) rest
            in case cv of
                 Conv_percent \<Rightarrow> map_option ((#) CHR ''%'') (vprintf False rest args)
               | Conv_unknown \<Rightarrow> map_option (\<lambda>r. CHR ''%'' # c0 # r) (vprintf False rest args)
               | _ \<Rightarrow>
                   (case args of
                      [] \<Rightarrow> None
                    | a # args \<Rightarrow>
                        (case vprintf_arg cv a of
                           None \<Rightarrow> None
                         | Some out \<Rightarrow> map_option ((@) out) (vprintf False rest args))))"
  by pat_completeness auto

termination
  by (relation "measure (\<lambda>(_, fmt, _). length fmt)") auto

declare vprintf.simps [simp del]

definition fprintf :: "string \<Rightarrow> karg list \<Rightarrow> string option" where
  "fprintf fmt args = vprintf False fmt args"

section \<open>The buffer of a number is large enough\<close>

lemma length_uprintint_digits: "length (uprintint_digits x b) = length (printint_digits x b)"
  by (induction x b rule: uprintint_digits.induct)
    (subst uprintint_digits.simps, subst printint_digits.simps, simp)

lemma length_digits:
  "unat x < unat b ^ n \<Longrightarrow> 0 < n \<Longrightarrow> 1 < b \<Longrightarrow> length (printint_digits x b) \<le> n"
proof (induction n arbitrary: x)
  case (Suc n)
  show ?case
  proof (cases "x div b = 0")
    case True
    then show ?thesis by (subst printint_digits.simps) simp
  next
    case False
    have b: "0 < unat b" using Suc.prems(3) by (simp add: word_less_nat_alt)
    have lt: "unat (x div b) < unat b ^ n"
      using Suc.prems(1) b by (simp add: unat_div less_mult_imp_div_less mult.commute)
    have "n \<noteq> 0"
    proof
      assume "n = 0"
      then show False using lt False by (simp add: unat_eq_0)
    qed
    then show ?thesis using Suc.IH [OF lt] Suc.prems(3) by (subst printint_digits.simps) simp
  qed
qed simp

lemma length_printint:
  assumes "b = 10 \<or> b = 16"
  shows "length (printint x b sign) \<le> 20"
proof -
  have x: "unat x < 2 ^ 64" using unsigned_less [where 'a = nat, of x] by simp
  have d: "length (printint_digits y b) \<le> n" if "unat y < 10 ^ n" "0 < n" for y n
  proof (rule length_digits)
    have "(10 :: nat) ^ n \<le> unat b ^ n" using assms by (intro power_mono) auto
    then show "unat y < unat b ^ n" by (rule less_le_trans [OF that(1)])
  qed (use that assms in auto)
  show ?thesis
  proof (cases "sign \<and> x <s 0")
    case False
    then show ?thesis using d [of x 20] x by (auto simp: printint_def Let_def)
  next
    case True
    have "- x = word_of_int (- sint x)" by simp
    then have "uint (- x) = - sint x mod 2 ^ 64" by (simp only: uint_word_of_int) simp
    then have "uint (- x) \<le> 2 ^ 63"
      using True sint_greater_eq [of x] by (simp add: word_sless_alt)
    then have "unat (- x) \<le> 2 ^ 63" by (simp only: unat_eq_nat_uint nat_le_iff of_nat_power of_nat_numeral)
    then have "length (printint_digits (- x) b) \<le> 19" using d [of "- x" 19] by simp
    then show ?thesis using True by (simp add: printint_def Let_def)
  qed
qed

lemma length_uprintint: "b = 10 \<or> b = 16 \<Longrightarrow> length (uprintint x b sign) \<le> 20"
  using length_printint [of b x sign] by (auto simp: uprintint_def printint_def Let_def length_uprintint_digits split: if_splits)

lemma length_printint_max: "length (printint (- 1) 10 False) = 20"
  by (simp add: printint_def printint_digits.simps)

section \<open>Numbers are read back\<close>

lemma of_char_digit:
  assumes "k < 10"
  shows "(of_char (udigits ! k) :: 'a::comm_semiring_1) = of_nat (48 + k)"
proof -
  have "k \<in> {0, 1, 2, 3, 4, 5, 6, 7, 8, 9}" using assms by auto
  then show ?thesis by (auto simp: udigits_def)
qed

lemma atoi_digits: "atoi_loop 0 (rev (uprintint_digits x 10) @ s) = atoi_loop (ucast x) s"
proof (induction x "10 :: uint64" arbitrary: s rule: uprintint_digits.induct)
  case (1 x)
  let ?d = "udigits ! unat (x mod 10)"
  have lt: "unat (x mod 10) < 10" by (simp add: unat_mod)
  have "uint x = uint (x div 10) * 10 + uint (x mod 10)" by (simp add: uint_div uint_mod)
  then have "(word_of_int (uint x) :: uint32) = word_of_int (uint (x div 10)) * 10 + word_of_int (uint (x mod 10))"
    by (metis of_int_add of_int_mult of_int_numeral)
  then have "(ucast x :: uint32) = ucast (x div 10) * 10 + ucast (x mod 10)" by simp
  then have "atoi_loop (ucast (x div 10)) (?d # s) = atoi_loop (ucast x) s"
    using lt by (simp add: of_char_digit)
  then show ?case using 1 by (subst uprintint_digits.simps) (cases "x div 10 = 0"; simp)
qed

text \<open>
  C32: the digits and the sign of any 64-bit number fit the 20 bytes of the buffer in which \<open>printint\<close>
  assembles them, in both bases, in the kernel and in the user library; 20 bytes can be needed.
\<close>

theorem printint_fits:
  assumes "b = 10 \<or> b = 16"
  shows "length (printint x b sign) \<le> 20 \<and> length (uprintint x b sign) \<le> 20 \<and> length (printint (- 1) 10 False) = 20"
  using length_printint [OF assms] length_uprintint [OF assms] length_printint_max by blast

theorem printint_fits_witness: "length (printint (2 ^ 63) 10 True) \<le> 20 \<and> length (uprintint (2 ^ 63) 10 True) \<le> 20"
  using printint_fits [of 10 "2 ^ 63" True] by simp

text \<open>
  What \<open>printf\<close> with \<open>%d\<close> writes for a number from 0 to \<open>2 ^ 31 - 1\<close>, \<open>atoi\<close> reads back.
\<close>

theorem printf_atoi:
  assumes "0 \<le> n" "n < 2 ^ 31"
  shows "\<exists>out. fprintf ''%d'' [KInt n] = Some out \<and> atoi out = n"
proof -
  have w: "uint (word_of_int n :: uint32) = n" "uint (word_of_int n :: uint64) = n"
    using assms by (simp_all add: uint_word_of_int)
  have s: "sint (word_of_int n :: uint32) = n" "sint (word_of_int n :: uint64) = n"
    using assms w by (simp_all add: sint_uint signed_take_bit_int_eq_self)
  have c: "(scast (ucast (word_of_int n :: uint64) :: uint32) :: uint64) = word_of_int n"
    using w s by (simp add: scast_eq ucast_eq)
  have "fprintf ''%d'' [KInt n] = Some (uprintint (word_of_int n) 10 True)"
    by (simp add: fprintf_def vprintf.simps [of False "''%d''"] vprintf.simps [of True "''d''"] vprintf.simps [of False "[]"]
        fmt_at_def vprintf_conv_def vprintf_arg_def va_int_def karg_word_def c)
  moreover have "uprintint (word_of_int n) 10 True = rev (uprintint_digits (word_of_int n) 10)"
    using assms s by (simp add: uprintint_def word_sless_alt)
  moreover have "atoi (rev (uprintint_digits (word_of_int n) 10)) = n"
    using atoi_digits [of "word_of_int n" "[]"] w s by (simp add: atoi_def ucast_eq)
  ultimately show ?thesis by simp
qed

theorem printf_atoi_witness: "\<exists>out. fprintf ''%d'' [KInt 2026] = Some out \<and> atoi out = 2026"
  using printf_atoi [of 2026] by simp

end
