(* ===== verification/Umalloc.thy ===== *)
theory Umalloc
  imports Xv6_Prelude
begin

text \<open>
  The user-level allocator, \<^verbatim>\<open>user/umalloc.c\<close>: a circular list of free blocks in address order,
  each block with a header of 16 bytes that holds its size in units of a header.
\<close>

section \<open>Headers and the break\<close>

text \<open>
  Pointers are byte addresses, 0 the null pointer; \<open>hdrs\<close> is what memory holds at an address read
  as a header, \<open>base_at\<close> the address of the static variable \<open>base\<close>, \<open>brk\<close> the end of the data
  segment.
\<close>

record header =
  h_ptr :: nat
  h_size :: uint32

record uheap =
  hdrs :: "nat \<Rightarrow> header"
  freep :: nat
  base_at :: nat
  brk :: nat



definition ptr :: "uheap \<Rightarrow> nat \<Rightarrow> nat" where "ptr s p = h_ptr (hdrs s p)"
definition bsize :: "uheap \<Rightarrow> nat \<Rightarrow> uint32" where "bsize s p = h_size (hdrs s p)"


section \<open>Freeing\<close>



section \<open>Allocating\<close>






section \<open>Circular lists\<close>

text \<open>\<open>path nx xs e\<close>: following \<open>nx\<close> from the first of \<open>xs\<close> visits \<open>xs\<close> and then arrives at \<open>e\<close>.\<close>

primrec path :: "('a \<Rightarrow> 'a) \<Rightarrow> 'a list \<Rightarrow> 'a \<Rightarrow> bool" where
  "path nx [] e = True"
| "path nx (x # xs) e \<longleftrightarrow> nx x = hd (xs @ [e]) \<and> path nx xs e"









section \<open>The invariant\<close>

text \<open>
  \<open>L\<close> lists the free blocks in the order of the links, beginning with \<open>base\<close>; \<open>A\<close> is the set of
  blocks in the hands of the program, with their sizes. All of them are disjoint. \<open>fin\<close> is the
  address after a block; \<open>base\<close> has size 0 but takes up the place of its header.
\<close>

definition fin :: "uheap \<Rightarrow> nat \<Rightarrow> nat" where
  "fin s x = x + 16 * (if x = base_at s then 1 else unat (bsize s x))"

definition free_ok :: "uheap \<Rightarrow> nat list \<Rightarrow> bool" where
  "free_ok s L \<longleftrightarrow> (\<exists>fs. L = base_at s # fs) \<and> path (ptr s) L (hd L) \<and> sorted_wrt (\<lambda>x y. fin s x \<le> y) L \<and>
     bsize s (base_at s) = 0 \<and> (\<forall>x \<in> set L. x \<noteq> base_at s \<longrightarrow> 0 < unat (bsize s x)) \<and> (\<forall>x \<in> set L. fin s x \<le> brk s)"

definition used_ok :: "uheap \<Rightarrow> nat list \<Rightarrow> (nat \<times> nat) set \<Rightarrow> bool" where
  "used_ok s L A \<longleftrightarrow>
     (\<forall>a n. (a, n) \<in> A \<longrightarrow> base_at s < a \<and> 0 < n \<and> unat (bsize s a) = n \<and> a + 16 * n \<le> brk s) \<and>
     (\<forall>a n x. (a, n) \<in> A \<longrightarrow> x \<in> set L \<longrightarrow> a + 16 * n \<le> x \<or> fin s x \<le> a) \<and>
     (\<forall>a n b m. (a, n) \<in> A \<longrightarrow> (b, m) \<in> A \<longrightarrow> (a, n) = (b, m) \<or> a + 16 * n \<le> b \<or> b + 16 * m \<le> a)"

definition heap_inv :: "uheap \<Rightarrow> nat list \<Rightarrow> (nat \<times> nat) set \<Rightarrow> bool" where
  "heap_inv s L A \<longleftrightarrow> free_ok s L \<and> used_ok s L A \<and> 0 < base_at s \<and> brk s < 2 ^ 32"













section \<open>Freeing keeps the invariant\<close>





lemma freep_frame [simp]:
  "ptr (s\<lparr>freep := x\<rparr>) = ptr s" "bsize (s\<lparr>freep := x\<rparr>) = bsize s" "fin (s\<lparr>freep := x\<rparr>) = fin s"
  "free_ok (s\<lparr>freep := x\<rparr>) L = free_ok s L" "used_ok (s\<lparr>freep := x\<rparr>) L A = used_ok s L A"
  "heap_inv (s\<lparr>freep := x\<rparr>) L A = heap_inv s L A"
proof -
  show p: "ptr (s\<lparr>freep := x\<rparr>) = ptr s" and b: "bsize (s\<lparr>freep := x\<rparr>) = bsize s" by (simp_all add: ptr_def bsize_def fun_eq_iff)
  then show f: "fin (s\<lparr>freep := x\<rparr>) = fin s" by (simp add: fin_def fun_eq_iff)
  then show "free_ok (s\<lparr>freep := x\<rparr>) L = free_ok s L" "used_ok (s\<lparr>freep := x\<rparr>) L A = used_ok s L A"
    by (simp_all add: free_ok_def used_ok_def p b)
  then show "heap_inv (s\<lparr>freep := x\<rparr>) L A = heap_inv s L A" by (simp add: heap_inv_def)
qed






section \<open>Allocation keeps the invariant\<close>















section \<open>The contract\<close>















end
