(* ===== verification/Spec2Isabelle.thy ===== *)
theory Spec2Isabelle
  imports Spinlock Virtio Syscall Accounting Fileio Grep Shrun Uprintf Umalloc
begin

text \<open>
  Verification of the xv6 kernel for RISC-V with priority aging and starvation detection, and of
  the parts of its user land that have an algorithm of their own. The sources are under
  \<^verbatim>\<open>src/kernel\<close> and \<^verbatim>\<open>src/user\<close>.

  \<^bold>\<open>The program.\<close> Harts run processes of a fixed table. A timer interrupt charges every process a tick
  according to its state, raises those that wait too long (aging) and looks for starving ones; a
  scheduler with one of three compile-time policies (round robin, first come first served, and
  priority-based scheduling, PBS) picks the next process. Beneath lie spin locks, the page allocator
  and Sv39 page tables; above lie the buffer cache, a redo log, the file system, pipes, the console
  and the system calls. User programs are started by a shell.

  \<^bold>\<open>The style of the model.\<close> A C function is an Isabelle function of the same name on an explicit
  state, in the option monad: \<open>None\<close> is a panic, or a call that never returns. A return value \<open>-1\<close> and
  other errors are values. C integers are words of their width; addresses, lengths and indices
  that cannot wrap around are natural numbers. The state grows along one chain of extensible records, each theory adding
  the fields of its component: \<open>hart\<close> (lock nesting, interrupts, held locks, messages), \<open>mach\<close> (physical
  memory), \<open>kern\<close> (process table, ticks, registers), \<open>slk\<close> (sleep locks), \<open>bio\<close> (buffers, disk), \<open>logst\<close>,
  \<open>fsst\<close>, \<open>con\<close>, \<open>files\<close> and \<open>os\<close>. Structures that the code keeps in memory, as page tables, free lists
  and pipes, are kept as bytes of the memory of \<open>mach\<close>.

  \<^bold>\<open>Parameters.\<close> What is not C code of the repository is an argument: the context switch \<open>sw\<close> (all that
  happens until the process runs again), the devices behind the serial port, the interrupt controller
  and the virtio disk, the addresses the linker decides, \<open>sbrk\<close> for the user allocator, and whether
  \<open>exec\<close>, \<open>open\<close> and \<open>fork\<close> succeed for the shell. The hypotheses on them are named predicates, such as
  \<open>switches_back\<close>, \<open>resumes\<close>, \<open>serves\<close> and \<open>sbrk_ok\<close>, and every theorem with hypotheses is applied to a
  concrete instance by its witness.

  \<^bold>\<open>Foundations.\<close>
  \<^item> \<open>Xv6_Prelude\<close>: word types, little-endian loads and stores, lists, options, loops over the monad.
  \<^item> \<open>Riscv\<close>: \<^verbatim>\<open>param.h\<close>, \<^verbatim>\<open>riscv.h\<close>, \<^verbatim>\<open>memlayout.h\<close>. \<open>String_C\<close>: \<^verbatim>\<open>string.c\<close>. \<open>Fcntl\<close>: \<^verbatim>\<open>fcntl.h\<close>.
  \<^item> \<open>Hart\<close>: one hart's view of locks, the interface that all later theories use. \<open>Spinlock\<close>: \<^verbatim>\<open>spinlock.c\<close>
    with any number of harts, interleaved at the atomic memory operations; mutual exclusion, the
    state of a holder, and that it implements the interface of \<open>Hart\<close>.
  \<^item> \<open>Ring\<close>: the contract of a bounded byte queue with free-running 32-bit indices, as locales;
    \<open>Pipe\<close> and \<open>Console\<close> interpret them.

  \<^bold>\<open>Memory.\<close>
  \<^item> \<open>Kalloc\<close>: \<^verbatim>\<open>kalloc.c\<close>; no page is handed out twice or lost. \<open>Vm\<close>: \<^verbatim>\<open>vm.c\<close>. \<open>Pagetable\<close>: page tables as
    trees of distinct pages disjoint from the free pages; \<open>mappages\<close> sets exactly its entries.
  \<^item> \<open>Vmcopy\<close>: copies between kernel and user space move exactly the bytes, and refuse read-only pages.

  \<^bold>\<open>Processes and scheduling.\<close>
  \<^item> \<open>Proc\<close>, \<open>Procmem\<close>, \<open>Lifecycle\<close>: \<^verbatim>\<open>proc.c\<close>. \<open>Scheduler\<close>: the scheduler, \<open>sched\<close>, \<open>yield\<close>, \<open>sleep\<close>; what each
    policy selects, that no panic of \<open>sched\<close> is reached, and that no wakeup is lost.
  \<^item> \<open>Trap\<close>: \<^verbatim>\<open>trap.c\<close>; the effect of a tick, and of ticks over time. \<open>Accounting\<close>: the invariants of
    priorities and waiting times over all events from boot on; with the parameters of \<^verbatim>\<open>param.h\<close> no
    process is ever marked starving.

  \<^bold>\<open>Storage.\<close>
  \<^item> \<open>Sleeplock\<close>, \<open>Bio\<close>, \<open>Bcache\<close>: \<^verbatim>\<open>sleeplock.c\<close>, \<^verbatim>\<open>bio.c\<close> and the contract of the cache, a locale.
    \<open>Virtio\<close>: \<^verbatim>\<open>virtio_disk.c\<close>, which implements the transfers that the cache assumes.
  \<^item> \<open>Log\<close>, \<open>Recovery\<close>: \<^verbatim>\<open>log.c\<close>; a transaction is all on disk or not at all, at whatever block write a
    crash comes, and recovery can itself be interrupted.
  \<^item> \<open>Txn\<close>: the contract of a running transaction, a locale, proved for the log over the cache.
    \<open>Fs\<close>: \<^verbatim>\<open>fs.c\<close>. \<open>Inodes\<close>, \<open>Bitmap\<close>, \<open>Filemap\<close>, \<open>Fileio\<close>: on that contract, what
    \<open>iupdate\<close> and \<open>ilock\<close> do to the inodes on disk, \<open>balloc\<close> and \<open>bfree\<close> to the bitmap, \<open>bmap\<close> to the
    blocks of a file, and \<open>writei\<close> and \<open>readi\<close> to its bytes.
  \<^item> \<open>File\<close>, \<open>Pipe\<close>: \<^verbatim>\<open>file.c\<close>, \<^verbatim>\<open>pipe.c\<close>; the byte queue of a pipe.

  \<^bold>\<open>Devices and calls.\<close>
  \<^item> \<open>Console\<close>: \<^verbatim>\<open>console.c\<close>, \<^verbatim>\<open>uart.c\<close>, \<^verbatim>\<open>plic.c\<close>; line editing. \<open>Printf\<close>: \<^verbatim>\<open>printf.c\<close>.
  \<^item> \<open>Exec\<close>, \<open>Sysargs\<close>, \<open>Sysproc\<close>, \<open>Sysfile\<close>, \<open>Syscall\<close>: \<^verbatim>\<open>exec.c\<close>, \<^verbatim>\<open>sysproc.c\<close>, \<^verbatim>\<open>sysfile.c\<close>, \<^verbatim>\<open>syscall.c\<close>.

  \<^bold>\<open>User land.\<close>
  \<^item> \<open>Ulib\<close>, \<open>Uprintf\<close>: \<^verbatim>\<open>user/ulib.c\<close>, \<^verbatim>\<open>user/printf.c\<close>. \<open>Umalloc\<close>: \<^verbatim>\<open>user/umalloc.c\<close>, the contract of \<open>malloc\<close> and
    \<open>free\<close>. \<open>Grep\<close>: \<^verbatim>\<open>user/grep.c\<close>; its matcher decides the language of the pattern, and the program
    prints the matching lines however its input is cut by the reads.
  \<^item> \<open>Shparse\<close>, \<open>Shprint\<close>, \<open>Shrun\<close>: \<^verbatim>\<open>user/sh.c\<close>; the parser is total and inverts a printer, and the shell
    starts exactly the programs its input means, connected as it says.

  \<^bold>\<open>Loops and fuel.\<close> Loops that end are structural recursion or have a termination proof. Loops that wait
  for another process or a device are \<open>partial_function (option)\<close>, and theorems about them prove that
  they return. The only fuel is in the shell's mutually recursive parser, \<open>4 * length s + 4\<close>: every
  cycle of calls consumes a character and passes through at most four functions, and
  \<open>parsecmd_returns\<close> proves that it never runs out.

  \<^bold>\<open>Not modelled.\<close> Assembly (\<^verbatim>\<open>entry.S\<close>, \<^verbatim>\<open>swtch.S\<close>, \<^verbatim>\<open>trampoline.S\<close>, \<^verbatim>\<open>kernelvec.S\<close>) is outside the C semantics
  used here and appears through its effect on the state. \<^verbatim>\<open>start.c\<close> and \<^verbatim>\<open>main.c\<close> only write control
  registers and call the initialisation functions of the components. The test programs and the
  small user programs add no algorithm to the system calls they make. \<^verbatim>\<open>mkfs\<close> and the scripts run on
  the host. Interleavings of harts are modelled for the locks; all other code runs under them, and
  what other processes do meanwhile is in \<open>sw\<close>. Memory is sequentially consistent.
\<close>

end
